(* ===== verification/Prelude.thy ===== *)
theory Prelude
  imports Main "HOL-Library.Word" "HOL-Library.Finite_Map"
begin

text \<open>
  What every component of the dns-edge development shares: the machine types of the Go source,
  Go strings as byte lists, the two string functions the source calls (\<^verbatim>\<open>strings.HasSuffix\<close>,
  \<^verbatim>\<open>strings.IndexByte\<close>), 64-bit wrap-around, panics as values, and the generic lemmas on lists and
  finite maps the component proofs use.

  Go maps are \<open>fmap\<close>s of HOL-Library.Finite_Map: they are finite and two maps with the same
  entries are equal. The order in which \<^verbatim>\<open>range\<close> visits a Go map is unspecified, so every
  loop of the source over a map takes that order as an argument, a list of the map's keys
  (\<open>range_order\<close>).
\<close>

named_theorems go_defs \<open>definitions of the operations that are unfolded in component proofs\<close>
named_theorems wf_intros \<open>preservation of the well-formedness invariants\<close>

type_synonym u16 = "16 word"
type_synonym u32 = "32 word"
type_synonym IP = "8 word list"

section \<open>Panics\<close>

text \<open>A Go function that may panic returns an \<open>outcome\<close>.\<close>

datatype 'a outcome = Panics string | Returns 'a

fun bind_outcome :: "'a outcome \<Rightarrow> ('a \<Rightarrow> 'b outcome) \<Rightarrow> 'b outcome" where
  "bind_outcome (Panics p) f = Panics p"
| "bind_outcome (Returns x) f = f x"

lemma bind_outcome_Returns:
  "bind_outcome x f = Returns y \<longleftrightarrow> (\<exists>a. x = Returns a \<and> f a = Returns y)"
  by (cases x) auto

section \<open>64-bit integers\<close>

text \<open>
  Go's \<^verbatim>\<open>int\<close> and \<^verbatim>\<open>int64\<close> hold the integers from \<open>-2^63\<close> to \<open>2^63 - 1\<close>; an
  arithmetic result outside that range wraps around.
\<close>

definition wrap64 :: "int \<Rightarrow> int" where
  "wrap64 x = (x + 2 ^ 63) mod 2 ^ 64 - 2 ^ 63"

definition is_int64 :: "int \<Rightarrow> bool" where
  "is_int64 x \<longleftrightarrow> - (2 ^ 63) \<le> x \<and> x < 2 ^ 63"

lemma wrap64_id [simp]: "is_int64 x \<Longrightarrow> wrap64 x = x"
  by (simp add: wrap64_def is_int64_def)

lemma wrap64_range: "is_int64 (wrap64 x)"
  using pos_mod_bound [of "2 ^ 64" "x + 2 ^ 63"] pos_mod_sign [of "2 ^ 64" "x + 2 ^ 63"]
  by (simp add: wrap64_def is_int64_def)

lemma wrap64_over:
  assumes "2 ^ 63 \<le> x" and "x < 3 * 2 ^ 63" shows "wrap64 x = x - 2 ^ 64"
proof -
  have "(x + 2 ^ 63) mod 2 ^ 64 = ((x - 2 ^ 63) + 2 ^ 64) mod (2 ^ 64 :: int)" by (simp add: add.commute)
  also have "\<dots> = x - 2 ^ 63"
    unfolding mod_add_self2 using assms by (intro mod_pos_pos_trivial) simp_all
  finally show ?thesis by (simp add: wrap64_def)
qed

lemma wrap64_add [simp]: "wrap64 (wrap64 x + y) = wrap64 (x + y)"
proof -
  have "wrap64 x + y + 2 ^ 63 = (x + 2 ^ 63) mod 2 ^ 64 + y" by (simp add: wrap64_def)
  then have "(wrap64 x + y + 2 ^ 63) mod 2 ^ 64 = (x + 2 ^ 63 + y) mod 2 ^ 64" by (simp only: mod_add_left_eq)
  then show ?thesis by (simp add: wrap64_def ac_simps)
qed

lemma wrap64_pos: "wrap64 x \<le> 0 \<longleftrightarrow> x mod 2 ^ 64 \<in> insert 0 {2 ^ 63..}"
proof -
  define m where "m = x mod 2 ^ 64"
  have m: "0 \<le> m" "m < 2 ^ 64" by (simp_all add: m_def)
  have "(x + 2 ^ 63) mod 2 ^ 64 = (m + 2 ^ 63) mod 2 ^ 64" by (simp only: m_def mod_add_left_eq)
  also have "\<dots> = (if m < 2 ^ 63 then m + 2 ^ 63 else m - 2 ^ 63)"
  proof (cases "m < 2 ^ 63")
    case False
    have "(m + 2 ^ 63) mod 2 ^ 64 = ((m - 2 ^ 63) + 2 ^ 64) mod (2 ^ 64 :: int)" by (simp add: add.commute)
    also have "\<dots> = m - 2 ^ 63" unfolding mod_add_self2 using False m by (intro mod_pos_pos_trivial) simp_all
    finally show ?thesis using False by simp
  qed (use m in simp)
  finally show ?thesis using m unfolding wrap64_def m_def [symmetric] by auto
qed

section \<open>Strings\<close>

definition HasSuffix :: "string \<Rightarrow> string \<Rightarrow> bool" where
  "HasSuffix s suf \<longleftrightarrow> length suf \<le> length s \<and> drop (length s - length suf) s = suf"

lemma HasSuffix_append: "HasSuffix (s @ t) t"
  by (simp add: HasSuffix_def)

lemma HasSuffixD: "HasSuffix s t \<Longrightarrow> \<exists>p. s = p @ t"
  unfolding HasSuffix_def by (metis append_take_drop_id)

lemma HasSuffix_iff: "HasSuffix s t \<longleftrightarrow> (\<exists>p. s = p @ t)"
  using HasSuffixD HasSuffix_append by blast

text \<open>The index of the first occurrence of a byte, -1 when there is none.\<close>

fun IndexByte :: "string \<Rightarrow> char \<Rightarrow> int" where
  "IndexByte [] c = -1"
| "IndexByte (x # xs) c =
     (if x = c then 0
      else (let i = IndexByte xs c in if i < 0 then -1 else i + 1))"

lemma IndexByte_notin: "c \<notin> set xs \<Longrightarrow> IndexByte xs c = -1"
  by (induction xs) auto

lemma IndexByte_append: "c \<notin> set p \<Longrightarrow> IndexByte (p @ c # q) c = int (length p)"
  by (induction p) auto

lemma IndexByte_cases:
  obtains (absent) "c \<notin> set xs" "IndexByte xs c = -1"
  | (found) p q where "xs = p @ c # q" "c \<notin> set p" "IndexByte xs c = int (length p)"
proof (cases "c \<in> set xs")
  case True
  then obtain p q where "xs = p @ c # q" "c \<notin> set p"
    using split_list_first by fastforce
  then show ?thesis using found IndexByte_append by blast
next
  case False
  then show ?thesis using absent IndexByte_notin by blast
qed

section \<open>Range loops over maps\<close>

text \<open>A list that visits every key of a map once.\<close>

definition range_order :: "'k list \<Rightarrow> ('k, 'v) fmap \<Rightarrow> bool" where
  "range_order ks m \<longleftrightarrow> distinct ks \<and> set ks = fmdom' m"

lemma range_order_mem: "range_order ks m \<Longrightarrow> k \<in> set ks \<longleftrightarrow> fmlookup m k \<noteq> None"
  by (auto simp: range_order_def fmlookup_dom'_iff)

lemma range_order_empty: "range_order ks (fmempty :: ('k, 'v) fmap) \<longleftrightarrow> ks = []"
  by (auto simp: range_order_def)

lemma fmdrop_absent [simp]: "fmlookup m k = None \<Longrightarrow> fmdrop k m = m"
  by (rule fmap_ext) auto

lemma fmupd_same [simp]: "fmlookup m k = Some v \<Longrightarrow> fmupd k v m = m"
  by (rule fmap_ext) auto

lemma fmap_ext_iff: "m = m' \<longleftrightarrow> (\<forall>k. fmlookup m k = fmlookup m' k)"
  by (auto intro: fmap_ext)

lemma fmmap_cong_on:
  "(\<And>k v. fmlookup m k = Some v \<Longrightarrow> f v = g v) \<Longrightarrow> fmmap f m = fmmap g m"
proof (rule fmap_ext)
  fix k assume "\<And>k v. fmlookup m k = Some v \<Longrightarrow> f v = g v"
  then show "fmlookup (fmmap f m) k = fmlookup (fmmap g m) k" by (cases "fmlookup m k") simp_all
qed

section \<open>Lists\<close>

lemma sum_list_take_Suc:
  fixes ws :: "int list"
  assumes "i < length ws" shows "sum_list (take (Suc i) ws) = sum_list (take i ws) + ws ! i"
  using assms by (simp add: take_Suc_conv_app_nth)

lemma sum_list_pos_mono:
  fixes ws :: "int list"
  assumes "\<forall>w \<in> set ws. 0 \<le> w" and "i \<le> j"
  shows "sum_list (take i ws) \<le> sum_list (take j ws)"
proof -
  have "take j ws = take i ws @ take (j - i) (drop i ws)"
    using assms(2) by (metis le_add_diff_inverse take_add)
  moreover have "0 \<le> sum_list (take (j - i) (drop i ws))"
    using assms(1) by (intro sum_list_nonneg) (meson in_set_dropD in_set_takeD)
  ultimately show ?thesis by simp
qed

lemma mem_le_sum_list:
  fixes ws :: "int list"
  assumes "\<forall>w \<in> set ws. 0 \<le> w" and "w \<in> set ws" shows "w \<le> sum_list ws"
proof -
  obtain a b where "ws = a @ w # b" using assms(2) split_list by fastforce
  moreover from this have "0 \<le> sum_list a" "0 \<le> sum_list b"
    using assms(1) by (auto intro!: sum_list_nonneg)
  ultimately show ?thesis by simp
qed

end
