(* ===== verification/Mdns.thy ===== *)
theory Mdns
  imports Prelude
begin

text \<open>
  The data of the DNS library (\<^verbatim>\<open>github.com/miekg/dns\<close>, imported as \<^verbatim>\<open>mdns\<close>) that dns-edge
  reads and writes: resource records, questions, messages, the EDNS0 pseudo-record, and the
  protocol constants. The library's own functions are not in the repository. The ones whose
  result matters are the fields of \<open>mdns_lib\<close>, an argument of every definition that calls them,
  and \<open>mdns_ok\<close> states what dns-edge relies on.
\<close>

section \<open>Constants of the protocol\<close>

definition TypeA :: u16 where "TypeA = 1"
definition TypeCNAME :: u16 where "TypeCNAME = 5"
definition TypeSOA :: u16 where "TypeSOA = 6"
definition TypeHINFO :: u16 where "TypeHINFO = 13"
definition TypeAAAA :: u16 where "TypeAAAA = 28"
definition TypeIXFR :: u16 where "TypeIXFR = 251"
definition TypeAXFR :: u16 where "TypeAXFR = 252"
definition TypeANY :: u16 where "TypeANY = 255"
definition ClassINET :: u16 where "ClassINET = 1"

lemmas qtype_defs = TypeA_def TypeCNAME_def TypeSOA_def TypeHINFO_def TypeAAAA_def
  TypeIXFR_def TypeAXFR_def TypeANY_def ClassINET_def

definition RcodeSuccess :: int where "RcodeSuccess = 0"
definition RcodeFormatError :: int where "RcodeFormatError = 1"
definition RcodeNameError :: int where "RcodeNameError = 3"
definition RcodeRefused :: int where "RcodeRefused = 5"

lemmas rcode_defs = RcodeSuccess_def RcodeFormatError_def RcodeNameError_def RcodeRefused_def

definition EDNS0SUBNET :: u16 where "EDNS0SUBNET = 8"

section \<open>Resource records\<close>

record RR_Header =
  h_Name :: string
  h_Rrtype :: u16
  h_Class :: u16
  h_Ttl :: u32

record SOA =
  soa_Hdr :: RR_Header
  soa_Ns :: string
  soa_Mbox :: string
  soa_Serial :: u32
  soa_Refresh :: u32
  soa_Retry :: u32
  soa_Expire :: u32
  soa_Minttl :: u32

text \<open>
  \<^verbatim>\<open>mdns.RR\<close> is an interface; the source distinguishes its CNAME, SOA and HINFO
  implementations, every other one is only passed on.
\<close>

datatype RR =
    RR_CNAME RR_Header string
  | RR_SOA SOA
  | RR_HINFO RR_Header string string
  | RR_other RR_Header string

section \<open>Messages\<close>

record Question =
  q_Name :: string
  q_Qtype :: u16
  q_Qclass :: u16

record SUBNET =
  s_Code :: u16
  s_Family :: u16
  s_SourceNetmask :: "8 word"
  s_SourceScope :: "8 word"
  s_Address :: IP

datatype EDNS0 = EDNS0_SUBNET SUBNET | EDNS0_other u16 string

record OPT =
  o_UDPSize :: u16
  o_Do :: bool
  o_Option :: "EDNS0 list"

text \<open>
  \<open>m_Edns\<close> is the OPT record of the additional section, what \<^verbatim>\<open>IsEdns0()\<close> returns; dns-edge
  touches nothing else of that section.
\<close>

record Msg =
  m_Id :: u16
  m_Response :: bool
  m_Opcode :: int
  m_Authoritative :: bool
  m_RecursionDesired :: bool
  m_RecursionAvailable :: bool
  m_Rcode :: int
  m_Question :: "Question list"
  m_Answer :: "RR list"
  m_Ns :: "RR list"
  m_Edns :: "OPT option"

definition new_Msg :: Msg where
  "new_Msg = \<lparr>m_Id = 0, m_Response = False, m_Opcode = 0, m_Authoritative = False,
     m_RecursionDesired = False, m_RecursionAvailable = False, m_Rcode = 0,
     m_Question = [], m_Answer = [], m_Ns = [], m_Edns = None\<rparr>"

section \<open>Functions of the library\<close>

text \<open>
  \<open>NewRR\<close> returns an error, or a record that is \<^verbatim>\<open>nil\<close> when the text holds no record
  (a comment). \<open>TypeToString\<close> is the empty string for a type the library has no name for.
\<close>

record mdns_lib =
  SetReply :: "Msg \<Rightarrow> Msg \<Rightarrow> Msg"
  SetRcode :: "Msg \<Rightarrow> Msg \<Rightarrow> int \<Rightarrow> Msg"
  SetEdns0 :: "Msg \<Rightarrow> u16 \<Rightarrow> bool \<Rightarrow> Msg"
  NewRR :: "string \<Rightarrow> string + RR option"
  TypeToString :: "u16 \<Rightarrow> string"
  StringToType :: "string \<Rightarrow> u16 option"
  RcodeToString :: "int \<Rightarrow> string"

text \<open>
  What dns-edge relies on: a reply has the request's identifier and first question and the
  response bit; \<open>SetReply\<close> and \<open>SetRcode\<close> touch neither the sections a handler filled nor the
  flags it set; \<open>SetEdns0\<close> adds an OPT record with the given size and flag; the two type tables
  are inverse to each other.
\<close>

definition reply_to :: "Msg \<Rightarrow> Msg \<Rightarrow> bool" where
  "reply_to r m \<longleftrightarrow> m_Id m = m_Id r \<and> m_Response m \<and> m_Question m = take 1 (m_Question r)"

text \<open>A request without a question leaves the question section of the reply alone.\<close>

definition answers :: "Msg \<Rightarrow> Msg \<Rightarrow> Msg \<Rightarrow> bool" where
  "answers r m m' \<longleftrightarrow> m_Id m' = m_Id r \<and> m_Response m' \<and>
     m_Question m' = (if m_Question r = [] then m_Question m else take 1 (m_Question r))"

definition same_body :: "Msg \<Rightarrow> Msg \<Rightarrow> bool" where
  "same_body m m' \<longleftrightarrow> m_Answer m' = m_Answer m \<and> m_Ns m' = m_Ns m \<and> m_Edns m' = m_Edns m \<and>
     m_Authoritative m' = m_Authoritative m \<and> m_RecursionAvailable m' = m_RecursionAvailable m"

definition mdns_ok :: "mdns_lib \<Rightarrow> bool" where
  "mdns_ok L \<longleftrightarrow>
     (\<forall>m r. answers r m (SetReply L m r) \<and> same_body m (SetReply L m r) \<and>
        m_Rcode (SetReply L m r) = RcodeSuccess) \<and>
     (\<forall>m r rc. answers r m (SetRcode L m r rc) \<and> same_body m (SetRcode L m r rc) \<and>
        m_Rcode (SetRcode L m r rc) = rc) \<and>
     (\<forall>m sz b. SetEdns0 L m sz b = m\<lparr>m_Edns := Some \<lparr>o_UDPSize = sz, o_Do = b, o_Option = []\<rparr>\<rparr>) \<and>
     (\<forall>s t. StringToType L s = Some t \<longrightarrow> TypeToString L t = s) \<and>
     (\<forall>t. TypeToString L t \<noteq> [] \<longrightarrow> StringToType L (TypeToString L t) = Some t)"

lemma mdns_ok_SetReply [simp]:
  assumes "mdns_ok L"
  shows "m_Answer (SetReply L m r) = m_Answer m" and "m_Ns (SetReply L m r) = m_Ns m"
    and "m_Edns (SetReply L m r) = m_Edns m"
    and "m_Authoritative (SetReply L m r) = m_Authoritative m"
    and "m_RecursionAvailable (SetReply L m r) = m_RecursionAvailable m"
    and "m_Rcode (SetReply L m r) = RcodeSuccess" and "m_Id (SetReply L m r) = m_Id r"
    and "m_Response (SetReply L m r)"
    and "m_Question (SetReply L m r) = (if m_Question r = [] then m_Question m else take 1 (m_Question r))"
  using assms unfolding mdns_ok_def answers_def same_body_def by blast+

lemma mdns_ok_SetRcode [simp]:
  assumes "mdns_ok L"
  shows "m_Answer (SetRcode L m r rc) = m_Answer m" and "m_Ns (SetRcode L m r rc) = m_Ns m"
    and "m_Edns (SetRcode L m r rc) = m_Edns m"
    and "m_Authoritative (SetRcode L m r rc) = m_Authoritative m"
    and "m_RecursionAvailable (SetRcode L m r rc) = m_RecursionAvailable m"
    and "m_Rcode (SetRcode L m r rc) = rc" and "m_Id (SetRcode L m r rc) = m_Id r"
    and "m_Response (SetRcode L m r rc)"
    and "m_Question (SetRcode L m r rc) = (if m_Question r = [] then m_Question m else take 1 (m_Question r))"
  using assms unfolding mdns_ok_def answers_def same_body_def by blast+

lemma mdns_ok_SetEdns0 [simp]:
  "mdns_ok L \<Longrightarrow>
     SetEdns0 L m sz b = m\<lparr>m_Edns := Some \<lparr>o_UDPSize = sz, o_Do = b, o_Option = []\<rparr>\<rparr>"
  unfolding mdns_ok_def by blast

lemma mdns_ok_types:
  assumes "mdns_ok L"
  shows "StringToType L s = Some t \<Longrightarrow> TypeToString L t = s"
    and "TypeToString L t \<noteq> [] \<Longrightarrow> StringToType L (TypeToString L t) = Some t"
  using assms unfolding mdns_ok_def by blast+

section \<open>A concrete library\<close>

text \<open>
  An instance of the parameter for the concrete examples: it knows the types A and CNAME and
  reads every text as a record whose content is the text.
\<close>

definition demo_reply :: "Msg \<Rightarrow> Msg \<Rightarrow> Msg" where
  "demo_reply m r = m\<lparr>m_Id := m_Id r, m_Response := True, m_Opcode := m_Opcode r,
     m_RecursionDesired := m_RecursionDesired r, m_Rcode := 0,
     m_Question := (if m_Question r = [] then m_Question m else take 1 (m_Question r))\<rparr>"

definition demo_lib :: mdns_lib where
  "demo_lib = \<lparr>
     SetReply = demo_reply,
     SetRcode = (\<lambda>m r rc. (demo_reply m r)\<lparr>m_Rcode := rc\<rparr>),
     SetEdns0 = (\<lambda>m sz b. m\<lparr>m_Edns := Some \<lparr>o_UDPSize = sz, o_Do = b, o_Option = []\<rparr>\<rparr>),
     NewRR = (\<lambda>s. Inr (Some (RR_other \<lparr>h_Name = s, h_Rrtype = 1, h_Class = 1, h_Ttl = 0\<rparr> s))),
     TypeToString = (\<lambda>t. if t = 1 then ''A'' else if t = 5 then ''CNAME'' else ''''),
     StringToType = (\<lambda>s. if s = ''A'' then Some 1 else if s = ''CNAME'' then Some 5 else None),
     RcodeToString = (\<lambda>rc. if rc = 0 then ''NOERROR'' else ''OTHER'')\<rparr>"

lemma demo_lib_ok: "mdns_ok demo_lib"
  by (auto simp: mdns_ok_def demo_lib_def demo_reply_def answers_def same_body_def
      RcodeSuccess_def split: if_splits)

end
