(* ===== verification/Iface.thy ===== *)
theory Iface
  imports Mdns "HOL-Library.Char_ord" "HOL-Library.List_Lexorder"
begin

text \<open>
  \<^verbatim>\<open>internal/iface/iface.go\<close>: the shared data (records, zones, rrset keys), \<open>FQDN\<close>, and the
  interfaces the components are wired with. A Go interface value is a dictionary of its methods,
  a record of functions on the implementation's state (\<open>ZoneStore\<close>, \<open>WeightProvider\<close>); what a
  client may rely on is the locale of the same interface (\<open>zone_store\<close> below, \<open>weight_provider\<close>
  in the theory of the providers).
\<close>

section \<open>FQDN\<close>

definition FQDN :: "string \<Rightarrow> string" where
  "FQDN name = (if HasSuffix name ''.'' then name else name @ ''.'')"

lemma FQDN_suffix [simp]: "HasSuffix (FQDN n) ''.''"
  by (simp add: FQDN_def HasSuffix_append)

lemma FQDN_id [simp]: "HasSuffix n ''.'' \<Longrightarrow> FQDN n = n"
  by (simp add: FQDN_def)

section \<open>Data\<close>

record ZoneMeta =
  zm_ID :: int
  zm_Name :: string

record Record =
  r_ID :: int
  r_Name :: string
  r_Type :: u16
  r_TTL :: u32
  r_Value :: string
  r_Weight :: int
  r_RR :: "RR option"

record RecordKey =
  k_Name :: string
  k_Qtype :: u16

text \<open>Rrset keys are ordered, first by name, so that a concrete order of a range loop exists.\<close>

instantiation RecordKey_ext :: (linorder) linorder
begin

definition less_eq_RecordKey_ext :: "'a RecordKey_scheme \<Rightarrow> 'a RecordKey_scheme \<Rightarrow> bool" where
  "less_eq_RecordKey_ext a b \<longleftrightarrow> k_Name a < k_Name b \<or> k_Name a = k_Name b \<and>
     (k_Qtype a < k_Qtype b \<or> k_Qtype a = k_Qtype b \<and> RecordKey.more a \<le> RecordKey.more b)"

definition less_RecordKey_ext :: "'a RecordKey_scheme \<Rightarrow> 'a RecordKey_scheme \<Rightarrow> bool" where
  "less_RecordKey_ext a b \<longleftrightarrow> a \<le> b \<and> \<not> b \<le> a"

instance
  by standard (auto simp: less_eq_RecordKey_ext_def less_RecordKey_ext_def)

end

type_synonym Records = "(RecordKey, Record list) fmap"

record Zone =
  z_Name :: string
  z_Records :: Records
  z_SOA :: "SOA option"

abbreviation rkey :: "string \<Rightarrow> u16 \<Rightarrow> RecordKey" where
  "rkey n t \<equiv> \<lparr>k_Name = n, k_Qtype = t\<rparr>"

text \<open>Indexing a Go map with an absent key gives the zero value, here the nil slice.\<close>

definition rrset :: "Records \<Rightarrow> RecordKey \<Rightarrow> Record list" where
  "rrset recs k = (case fmlookup recs k of None \<Rightarrow> [] | Some rs \<Rightarrow> rs)"

lemma rrset_empty [simp]: "rrset fmempty k = []"
  by (simp add: rrset_def)

lemma rrset_upd [simp]: "rrset (fmupd k' rs recs) k = (if k = k' then rs else rrset recs k)"
  by (simp add: rrset_def)

lemma rrset_drop [simp]: "rrset (fmdrop k' recs) k = (if k = k' then [] else rrset recs k)"
  by (simp add: rrset_def)

section \<open>Interfaces\<close>

datatype store_error = ZoneNotFound string

record 's ZoneStore =
  Lookup_m :: "'s \<Rightarrow> string \<Rightarrow> u16 \<Rightarrow> Record list"
  Update_m :: "'s \<Rightarrow> Zone \<Rightarrow> store_error option \<times> 's"
  Delete_m :: "'s \<Rightarrow> string \<Rightarrow> store_error option \<times> 's"
  Snapshot_m :: "'s \<Rightarrow> (string, Zone) fmap"
  PutRecord_m :: "'s \<Rightarrow> string \<Rightarrow> Record \<Rightarrow> store_error option \<times> 's"
  DropRecord_m :: "'s \<Rightarrow> string \<Rightarrow> int \<Rightarrow> store_error option \<times> 's"
  NameExists_m :: "'s \<Rightarrow> string \<Rightarrow> bool"
  FindZone_m :: "'s \<Rightarrow> string \<Rightarrow> Zone option"

type_synonym weights = "(string, int) fmap"

text \<open>A provider may change its own state when asked (Nacos registers a listener).\<close>

record 'w WeightProvider =
  GetWeights_m :: "'w \<Rightarrow> string \<Rightarrow> u16 \<Rightarrow> IP option \<Rightarrow> weights option \<times> 'w"

section \<open>Zone cuts\<close>

text \<open>
  A zone with apex \<open>a\<close> covers \<open>a\<close> itself and every name that ends in a dot followed by \<open>a\<close>.
\<close>

definition covers :: "string \<Rightarrow> string \<Rightarrow> bool" where
  "covers a n \<longleftrightarrow> n = a \<or> (a \<noteq> [] \<and> HasSuffix n (CHR ''.'' # a))"

lemma covers_refl [simp]: "covers n n"
  by (simp add: covers_def)

lemma covers_length: "covers a n \<Longrightarrow> length a \<le> length n"
  by (auto simp: covers_def HasSuffix_def)

lemma covers_same_length: "covers a n \<Longrightarrow> covers b n \<Longrightarrow> length a = length b \<Longrightarrow> a = b"
  by (auto simp: covers_def HasSuffix_iff)

lemma covers_no_dot: "CHR ''.'' \<notin> set n \<Longrightarrow> covers a n \<longleftrightarrow> a = n"
  by (auto simp: covers_def HasSuffix_iff)

lemma covers_last_dot:
  assumes "CHR ''.'' \<notin> set p" shows "covers a (p @ [CHR ''.'']) \<longleftrightarrow> a = p @ [CHR ''.'']"
proof -
  have "a = []" if "p @ [CHR ''.''] = p' @ CHR ''.'' # a" for p'
    using that assms by (cases a rule: rev_cases) auto
  then show ?thesis by (auto simp: covers_def HasSuffix_iff)
qed

text \<open>One step up the label hierarchy.\<close>

lemma covers_parent:
  assumes "CHR ''.'' \<notin> set p" and "q \<noteq> []"
  shows "covers a (p @ CHR ''.'' # q) \<longleftrightarrow> a = p @ CHR ''.'' # q \<or> covers a q"
proof -
  have split: "a = q \<or> HasSuffix q (CHR ''.'' # a)"
    if "p @ CHR ''.'' # q = p' @ CHR ''.'' # a" for p'
    using that assms(1) by (auto simp: append_eq_append_conv2 Cons_eq_append_conv append_eq_Cons_conv HasSuffix_iff)
  have up: "HasSuffix (p @ CHR ''.'' # q) (CHR ''.'' # a)" if "HasSuffix q (CHR ''.'' # a)"
    using that by (metis HasSuffix_iff append.assoc append_Cons)
  show ?thesis
    using split up assms(2) by (auto simp: covers_def HasSuffix_iff)
qed

section \<open>The contract of a zone store\<close>

text \<open>
  \<open>Snapshot\<close> is the abstraction: every other method is described by it. \<open>records_of\<close> is the
  record map a zone store has for an apex, empty when it has no such zone.
\<close>

definition records_of :: "(string, Zone) fmap \<Rightarrow> string \<Rightarrow> Records" where
  "records_of zs a = (case fmlookup zs a of None \<Rightarrow> fmempty | Some z \<Rightarrow> z_Records z)"

definition records_wf :: "Records \<Rightarrow> bool" where
  "records_wf recs \<longleftrightarrow> (\<forall>k rs. fmlookup recs k = Some rs \<longrightarrow>
     rs \<noteq> [] \<and> (\<forall>r \<in> set rs. rkey (r_Name r) (r_Type r) = k))"

definition zone_wf :: "Zone \<Rightarrow> bool" where
  "zone_wf z \<longleftrightarrow> records_wf (z_Records z)"

lemma records_wf_empty [simp]: "records_wf fmempty"
  by (simp add: records_wf_def)

lemma records_wf_mem: "records_wf recs \<Longrightarrow> r \<in> set (rrset recs k) \<Longrightarrow> rkey (r_Name r) (r_Type r) = k"
  by (cases "fmlookup recs k") (auto simp: records_wf_def rrset_def)

lemma records_wf_nonempty: "records_wf recs \<Longrightarrow> rrset recs k = [] \<longleftrightarrow> fmlookup recs k = None"
  by (auto simp: records_wf_def rrset_def split: option.splits)

lemma records_wf_upd:
  "records_wf recs \<Longrightarrow> rs \<noteq> [] \<Longrightarrow> \<forall>r \<in> set rs. rkey (r_Name r) (r_Type r) = k \<Longrightarrow>
     records_wf (fmupd k rs recs)"
  unfolding records_wf_def by auto

lemma records_wf_drop: "records_wf recs \<Longrightarrow> records_wf (fmdrop k recs)"
  unfolding records_wf_def by auto

locale zone_store =
  fixes I :: "'s ZoneStore" and invar :: "'s \<Rightarrow> bool"
  assumes find_Some: "invar s \<Longrightarrow> FindZone_m I s n = Some z \<Longrightarrow>
      covers (z_Name z) n \<and> fmlookup (Snapshot_m I s) (z_Name z) = Some z"
    and find_closest: "invar s \<Longrightarrow> FindZone_m I s n = Some z \<Longrightarrow> covers a n \<Longrightarrow>
      fmlookup (Snapshot_m I s) a \<noteq> None \<Longrightarrow> length a \<le> length (z_Name z)"
    and find_None: "invar s \<Longrightarrow> FindZone_m I s n = None \<Longrightarrow> covers a n \<Longrightarrow>
      fmlookup (Snapshot_m I s) a = None"
    and lookup_zone: "Lookup_m I s n t =
      (case FindZone_m I s n of None \<Rightarrow> [] | Some z \<Rightarrow> rrset (z_Records z) (rkey n t))"
    and name_exists: "invar s \<Longrightarrow> NameExists_m I s n \<longleftrightarrow> (\<exists>t. Lookup_m I s n t \<noteq> [])"
    and update_ok: "Update_m I s z = (e, s') \<Longrightarrow>
      e = None \<and> Snapshot_m I s' = fmupd (z_Name z) z (Snapshot_m I s)"
    and update_invar: "invar s \<Longrightarrow> zone_wf z \<Longrightarrow> invar (snd (Update_m I s z))"
    and delete_ok: "Delete_m I s a = (e, s') \<Longrightarrow>
      Snapshot_m I s' = fmdrop a (Snapshot_m I s) \<and>
      (e = None \<longleftrightarrow> fmlookup (Snapshot_m I s) a \<noteq> None)"
    and delete_invar: "invar s \<Longrightarrow> invar (snd (Delete_m I s a))"
    and put_other: "a \<noteq> apex \<Longrightarrow>
      fmlookup (Snapshot_m I (snd (PutRecord_m I s apex r))) a = fmlookup (Snapshot_m I s) a"
    and put_rrset: "k \<noteq> rkey (r_Name r) (r_Type r) \<Longrightarrow>
      rrset (records_of (Snapshot_m I (snd (PutRecord_m I s apex r))) apex) k =
      rrset (records_of (Snapshot_m I s) apex) k"
    and put_mem: "r \<in> set (rrset (records_of (Snapshot_m I (snd (PutRecord_m I s apex r))) apex)
      (rkey (r_Name r) (r_Type r)))"
    and put_ok: "fst (PutRecord_m I s apex r) = None"
    and put_invar: "invar s \<Longrightarrow> invar (snd (PutRecord_m I s apex r))"
    and drop_other: "a \<noteq> apex \<Longrightarrow>
      fmlookup (Snapshot_m I (snd (DropRecord_m I s apex i))) a = fmlookup (Snapshot_m I s) a"
    and drop_rrset: "set (rrset (records_of (Snapshot_m I (snd (DropRecord_m I s apex i))) apex) k)
      \<subseteq> set (rrset (records_of (Snapshot_m I s) apex) k)"
    and drop_ok: "fst (DropRecord_m I s apex i) = None"
    and drop_invar: "invar s \<Longrightarrow> invar (snd (DropRecord_m I s apex i))"
begin

text \<open>What clients derive: lookups depend on the snapshot alone, and a record that was put is
  found when its zone is the closest one that covers its name.\<close>

lemma find_eqI:
  assumes "invar s" and "covers a n" and "fmlookup (Snapshot_m I s) a = Some z"
    and "z_Name z = a"
    and "\<And>b. covers b n \<Longrightarrow> fmlookup (Snapshot_m I s) b \<noteq> None \<Longrightarrow> length b \<le> length a"
  shows "FindZone_m I s n = Some z"
proof (cases "FindZone_m I s n")
  case None
  with find_None [OF assms(1) None assms(2)] assms(3) show ?thesis by simp
next
  case (Some z')
  have c: "covers (z_Name z') n" and l: "fmlookup (Snapshot_m I s) (z_Name z') = Some z'"
    using find_Some [OF assms(1) Some] by auto
  have "length a \<le> length (z_Name z')"
    using find_closest [OF assms(1) Some assms(2)] assms(3) by simp
  moreover have "length (z_Name z') \<le> length a"
    using assms(5) [OF c] l by simp
  ultimately have "z_Name z' = a"
    using covers_same_length [OF c assms(2)] by simp
  with l assms(3) Some show ?thesis by simp
qed

lemma put_lookup:
  assumes "invar s" and "covers apex (r_Name r)"
    and "\<And>b. covers b (r_Name r) \<Longrightarrow> fmlookup (Snapshot_m I s) b \<noteq> None \<Longrightarrow>
      length b \<le> length apex"
    and "\<And>z. fmlookup (Snapshot_m I (snd (PutRecord_m I s apex r))) apex = Some z \<Longrightarrow>
      z_Name z = apex"
  shows "r \<in> set (Lookup_m I (snd (PutRecord_m I s apex r)) (r_Name r) (r_Type r))"
proof -
  let ?s = "snd (PutRecord_m I s apex r)"
  have mem: "r \<in> set (rrset (records_of (Snapshot_m I ?s) apex) (rkey (r_Name r) (r_Type r)))"
    by (rule put_mem)
  then obtain z where z: "fmlookup (Snapshot_m I ?s) apex = Some z"
    by (auto simp: records_of_def split: option.splits)
  have "length b \<le> length apex"
    if "covers b (r_Name r)" "fmlookup (Snapshot_m I ?s) b \<noteq> None" for b
    using that assms(3) put_other [of b apex s r] by (cases "b = apex") auto
  then have "FindZone_m I ?s (r_Name r) = Some z"
    using find_eqI [OF put_invar [OF assms(1)] assms(2) z assms(4) [OF z]] by blast
  then show ?thesis
    using mem z by (simp add: lookup_zone records_of_def)
qed

lemma delete_find:
  assumes "invar s" and "FindZone_m I (snd (Delete_m I s a)) n = Some z"
  shows "z_Name z \<noteq> a"
proof -
  obtain e s' where d: "Delete_m I s a = (e, s')" by fastforce
  then have "Snapshot_m I s' = fmdrop a (Snapshot_m I s)"
    using delete_ok by blast
  moreover have "fmlookup (Snapshot_m I s') (z_Name z) = Some z"
    using find_Some [OF delete_invar [OF assms(1)] assms(2)] d by simp
  ultimately show ?thesis by auto
qed

end

text \<open>
  What the handler relies on in a weight provider: asking changes no later answer, an answer is nil
  or has an entry, and the client's address plays no part in it.
\<close>

locale weight_provider =
  fixes P :: "'w WeightProvider" and winv :: "'w \<Rightarrow> bool"
  assumes get_inv: "winv w \<Longrightarrow> winv (snd (GetWeights_m P w f q ip))"
    and get_nonempty: "winv w \<Longrightarrow> fst (GetWeights_m P w f q ip) \<noteq> Some fmempty"
    and get_stable: "winv w \<Longrightarrow>
      fst (GetWeights_m P (snd (GetWeights_m P w f q ip)) f' q' ip') = fst (GetWeights_m P w f' q' ip')"
    and client_blind: "GetWeights_m P w f q ip = GetWeights_m P w f q ip'"

end
