(* ===== verification/Zone_Store.thy ===== *)
theory Zone_Store
  imports Iface
begin

text \<open>
  \<^verbatim>\<open>internal/store/rwmutex.go\<close>: the in-memory zone store. Every method runs under the store's
  mutex, so each is one atomic function on the state; \<open>Store_Heap\<close> has the same writes over an
  explicit heap, for what a reader may see after the lock is released. \<open>DropRecord\<close> searches a Go
  map, so it takes the order of that search, \<open>ord rid recs\<close>.
\<close>

record RWMutexStore =
  zones :: "(string, Zone) fmap"

definition New :: RWMutexStore where
  "New = \<lparr>zones = fmempty\<rparr>"

section \<open>Reads\<close>

function lockedFindZone :: "(string, Zone) fmap \<Rightarrow> string \<Rightarrow> Zone option" where
  "lockedFindZone zs n =
     (case fmlookup zs n of
        Some z \<Rightarrow> Some z
      | None \<Rightarrow>
          (let dot = IndexByte n CHR ''.'' in
           if dot < 0 \<or> dot = int (length n) - 1 then None
           else lockedFindZone zs (drop (nat dot + 1) n)))"
  by pat_completeness auto
termination
proof (relation "measure (\<lambda>(zs, n). length n)", simp)
  fix zs n dot
  assume "dot = IndexByte n CHR ''.''" and "\<not> (dot < 0 \<or> dot = int (length n) - 1)"
  then show "((zs, drop (nat dot + 1) n), (zs :: (string, Zone) fmap, n)) \<in> measure (\<lambda>(zs, n). length n)"
    by (cases n) auto
qed

declare lockedFindZone.simps [simp del]

definition FindZone :: "RWMutexStore \<Rightarrow> string \<Rightarrow> Zone option" where
  "FindZone s name = lockedFindZone (zones s) name"

definition Lookup :: "RWMutexStore \<Rightarrow> string \<Rightarrow> u16 \<Rightarrow> Record list" where
  "Lookup s name qtype =
     (case lockedFindZone (zones s) name of
        None \<Rightarrow> []
      | Some zone \<Rightarrow> rrset (z_Records zone) (rkey name qtype))"

definition NameExists :: "RWMutexStore \<Rightarrow> string \<Rightarrow> bool" where
  "NameExists s name =
     (case lockedFindZone (zones s) name of
        None \<Rightarrow> False
      | Some zone \<Rightarrow> fBex (fmdom (z_Records zone)) (\<lambda>k. k_Name k = name))"

definition Snapshot :: "RWMutexStore \<Rightarrow> (string, Zone) fmap" where
  "Snapshot s = zones s"

section \<open>Writes\<close>

definition Update :: "RWMutexStore \<Rightarrow> Zone \<Rightarrow> store_error option \<times> RWMutexStore" where
  "Update s zone = (None, s\<lparr>zones := fmupd (z_Name zone) zone (zones s)\<rparr>)"

definition Delete :: "RWMutexStore \<Rightarrow> string \<Rightarrow> store_error option \<times> RWMutexStore" where
  "Delete s apex =
     (case fmlookup (zones s) apex of
        None \<Rightarrow> (Some (ZoneNotFound apex), s)
      | Some _ \<Rightarrow> (None, s\<lparr>zones := fmdrop apex (zones s)\<rparr>))"

text \<open>The loop of \<open>PutRecord\<close>: replace the first record with the same ID, if there is one.\<close>

fun replaceByID :: "Record \<Rightarrow> Record list \<Rightarrow> Record list option" where
  "replaceByID rec [] = None"
| "replaceByID rec (r # rs) =
     (if r_ID r = r_ID rec then Some (rec # rs) else map_option ((#) r) (replaceByID rec rs))"

definition putSlice :: "Record \<Rightarrow> Record list \<Rightarrow> Record list" where
  "putSlice rec existing =
     (case (if 0 < r_ID rec then replaceByID rec existing else None) of
        Some newSlice \<Rightarrow> newSlice
      | None \<Rightarrow> existing @ [rec])"

definition PutRecord :: "RWMutexStore \<Rightarrow> string \<Rightarrow> Record \<Rightarrow> store_error option \<times> RWMutexStore" where
  "PutRecord s apex rec =
     (let old = fmlookup (zones s) apex;
          oldRecs = (case old of None \<Rightarrow> fmempty | Some z \<Rightarrow> z_Records z);
          key = rkey (r_Name rec) (r_Type rec);
          newSlice = putSlice rec (rrset oldRecs key);
          newZone = \<lparr>z_Name = apex, z_Records = fmupd key newSlice oldRecs,
                     z_SOA = (case old of None \<Rightarrow> None | Some z \<Rightarrow> z_SOA z)\<rparr>
      in (None, s\<lparr>zones := fmupd apex newZone (zones s)\<rparr>))"

text \<open>The two nested loops of \<open>DropRecord\<close>: the first rrset, in the order the map is ranged
  over, that holds a record with the ID, and the record's index in it.\<close>

fun findIdx :: "int \<Rightarrow> Record list \<Rightarrow> nat option" where
  "findIdx rid [] = None"
| "findIdx rid (r # rs) = (if r_ID r = rid then Some 0 else map_option Suc (findIdx rid rs))"

fun findRecord :: "Records \<Rightarrow> int \<Rightarrow> RecordKey list \<Rightarrow> (RecordKey \<times> nat) option" where
  "findRecord recs rid [] = None"
| "findRecord recs rid (k # ks) =
     (case findIdx rid (rrset recs k) of
        Some i \<Rightarrow> Some (k, i)
      | None \<Rightarrow> findRecord recs rid ks)"

definition removeAt :: "Records \<Rightarrow> RecordKey \<Rightarrow> nat \<Rightarrow> Records" where
  "removeAt recs k i =
     (let existing = rrset recs k in
      if length existing = 1 then fmdrop k recs
      else fmupd k (take i existing @ drop (i + 1) existing) recs)"

type_synonym range_oracle = "int \<Rightarrow> Records \<Rightarrow> RecordKey list"

definition DropRecord ::
  "range_oracle \<Rightarrow> RWMutexStore \<Rightarrow> string \<Rightarrow> int \<Rightarrow> store_error option \<times> RWMutexStore" where
  "DropRecord ord s apex rid =
     (case fmlookup (zones s) apex of
        None \<Rightarrow> (None, s)
      | Some old \<Rightarrow>
          (case findRecord (z_Records old) rid (ord rid (z_Records old)) of
             None \<Rightarrow> (None, s)
           | Some (foundKey, foundIdx) \<Rightarrow>
               (None, s\<lparr>zones := fmupd apex
                  \<lparr>z_Name = apex, z_Records = removeAt (z_Records old) foundKey foundIdx,
                   z_SOA = z_SOA old\<rparr> (zones s)\<rparr>)))"

definition range_ok :: "range_oracle \<Rightarrow> bool" where
  "range_ok ord \<longleftrightarrow> (\<forall>rid recs. range_order (ord rid recs) recs)"

definition RWMutexStore_iface :: "range_oracle \<Rightarrow> RWMutexStore ZoneStore" where
  "RWMutexStore_iface ord = \<lparr>Lookup_m = Lookup, Update_m = Update, Delete_m = Delete,
     Snapshot_m = Snapshot, PutRecord_m = PutRecord, DropRecord_m = DropRecord ord,
     NameExists_m = NameExists, FindZone_m = FindZone\<rparr>"

lemma store_iface_simps [simp]:
  "Lookup_m (RWMutexStore_iface ord) = Lookup" "Update_m (RWMutexStore_iface ord) = Update"
  "Delete_m (RWMutexStore_iface ord) = Delete" "Snapshot_m (RWMutexStore_iface ord) = Snapshot"
  "PutRecord_m (RWMutexStore_iface ord) = PutRecord"
  "DropRecord_m (RWMutexStore_iface ord) = DropRecord ord"
  "NameExists_m (RWMutexStore_iface ord) = NameExists" "FindZone_m (RWMutexStore_iface ord) = FindZone"
  by (simp_all add: RWMutexStore_iface_def)

lemmas store_defs = FindZone_def Lookup_def NameExists_def Snapshot_def Update_def Delete_def
  PutRecord_def DropRecord_def New_def

section \<open>The zone walk\<close>

lemma lockedFindZone_no_dot:
  "CHR ''.'' \<notin> set n \<Longrightarrow> lockedFindZone zs n = fmlookup zs n"
  by (simp add: lockedFindZone.simps IndexByte_notin split: option.splits)

lemma lockedFindZone_last_dot:
  "CHR ''.'' \<notin> set p \<Longrightarrow> lockedFindZone zs (p @ [CHR ''.'']) = fmlookup zs (p @ [CHR ''.''])"
  by (simp add: lockedFindZone.simps IndexByte_append split: option.splits)

lemma lockedFindZone_parent:
  "CHR ''.'' \<notin> set p \<Longrightarrow> q \<noteq> [] \<Longrightarrow> lockedFindZone zs (p @ CHR ''.'' # q) =
     (case fmlookup zs (p @ CHR ''.'' # q) of Some z \<Rightarrow> Some z | None \<Rightarrow> lockedFindZone zs q)"
  by (subst lockedFindZone.simps) (simp add: IndexByte_append nat_add_distrib split: option.splits)

lemmas lockedFindZone_steps =
  lockedFindZone_no_dot lockedFindZone_last_dot lockedFindZone_parent

text \<open>Induction along the walk from a name to its parent.\<close>

lemma label_induct [case_names no_dot last_dot parent]:
  assumes "\<And>n. CHR ''.'' \<notin> set n \<Longrightarrow> P n"
    and "\<And>p. CHR ''.'' \<notin> set p \<Longrightarrow> P (p @ [CHR ''.''])"
    and "\<And>p q. CHR ''.'' \<notin> set p \<Longrightarrow> q \<noteq> [] \<Longrightarrow> P q \<Longrightarrow> P (p @ CHR ''.'' # q)"
  shows "P n"
proof (induction n rule: length_induct)
  case (1 n)
  show ?case
  proof (cases rule: IndexByte_cases [of "CHR ''.''" n])
    case absent
    then show ?thesis by (simp add: assms(1))
  next
    case (found p q)
    then show ?thesis using "1.IH" assms(2,3) by (cases "q = []") auto
  qed
qed

lemma lockedFindZone_closest:
  "lockedFindZone zs n = Some z \<Longrightarrow>
     \<exists>a. covers a n \<and> fmlookup zs a = Some z \<and>
         (\<forall>b. covers b n \<and> fmlookup zs b \<noteq> None \<longrightarrow> length b \<le> length a)"
proof (induction n rule: label_induct)
  case (parent p q)
  show ?case
  proof (cases "fmlookup zs (p @ CHR ''.'' # q)")
    case None
    with parent have "lockedFindZone zs q = Some z" by (simp add: lockedFindZone_steps)
    with None parent show ?thesis by (auto simp: covers_parent)
  next
    case (Some z')
    with parent have "z' = z" by (simp add: lockedFindZone_steps)
    with Some show ?thesis using covers_length covers_refl by blast
  qed
qed (auto simp: lockedFindZone_steps covers_no_dot covers_last_dot)

lemma lockedFindZone_None:
  "lockedFindZone zs n = None \<Longrightarrow> covers a n \<Longrightarrow> fmlookup zs a = None"
  by (induction n rule: label_induct)
    (auto simp: lockedFindZone_steps covers_no_dot covers_last_dot covers_parent
      split: option.splits)

lemma lockedFindZone_single: "lockedFindZone (fmupd a z fmempty) n = (if covers a n then Some z else None)"
proof (cases "lockedFindZone (fmupd a z fmempty) n")
  case None
  then show ?thesis using lockedFindZone_None [OF None, of a] by auto
next
  case (Some z')
  then obtain b where "covers b n" "fmlookup (fmupd a z fmempty) b = Some z'" using lockedFindZone_closest [OF Some] by blast
  then show ?thesis using Some by (simp split: if_splits)
qed

section \<open>Well-formedness\<close>

text \<open>
  Zones are filed under their own name, no rrset is empty, and every record is in the rrset of
  its own name and type.
\<close>

definition store_wf :: "RWMutexStore \<Rightarrow> bool" where
  "store_wf s \<longleftrightarrow> (\<forall>a z. fmlookup (zones s) a = Some z \<longrightarrow> z_Name z = a \<and> zone_wf z)"

lemma replaceByID_props:
  "replaceByID rec rs = Some rs' \<Longrightarrow>
     rec \<in> set rs' \<and> length rs' = length rs \<and> set rs' \<subseteq> insert rec (set rs)"
  by (induction rs arbitrary: rs') (auto split: if_splits)

lemma replaceByID_None: "replaceByID rec rs = None \<longleftrightarrow> (\<forall>r \<in> set rs. r_ID r \<noteq> r_ID rec)"
  by (induction rs) auto

lemma putSlice_props:
  "putSlice rec rs \<noteq> [] \<and> rec \<in> set (putSlice rec rs) \<and>
     set (putSlice rec rs) \<subseteq> insert rec (set rs)"
  by (auto simp: putSlice_def split: option.splits if_splits dest!: replaceByID_props)

lemma findIdx_Some:
  "findIdx rid rs = Some i \<Longrightarrow> i < length rs \<and> r_ID (rs ! i) = rid"
  by (induction rs arbitrary: i) (auto split: if_splits)

lemma findIdx_None: "findIdx rid rs = None \<longleftrightarrow> (\<forall>r \<in> set rs. r_ID r \<noteq> rid)"
  by (induction rs) auto

lemma findRecord_Some:
  "findRecord recs rid ks = Some (k, i) \<Longrightarrow>
     k \<in> set ks \<and> i < length (rrset recs k) \<and> r_ID (rrset recs k ! i) = rid"
  by (induction ks) (auto split: option.splits dest: findIdx_Some)

lemma findRecord_None:
  "findRecord recs rid ks = None \<longleftrightarrow> (\<forall>k \<in> set ks. \<forall>r \<in> set (rrset recs k). r_ID r \<noteq> rid)"
  by (induction ks) (auto simp: findIdx_None [symmetric] split: option.splits)

lemma removeAt_lookup:
  "fmlookup (removeAt recs k i) k' =
     (if k' = k then
        (if length (rrset recs k) = 1 then None
         else Some (take i (rrset recs k) @ drop (i + 1) (rrset recs k)))
      else fmlookup recs k')"
  by (simp add: removeAt_def Let_def)

lemma rrset_removeAt:
  "i < length (rrset recs k) \<Longrightarrow> rrset (removeAt recs k i) k' =
     (if k' = k then take i (rrset recs k) @ drop (i + 1) (rrset recs k) else rrset recs k')"
  by (cases "rrset recs k") (auto simp: removeAt_def Let_def)

lemma set_remove_idx: "set (take i xs @ drop (Suc i) xs) \<subseteq> set xs"
  using set_take_subset set_drop_subset by (metis Un_least set_append)

lemma records_wf_removeAt:
  assumes "records_wf recs" and "i < length (rrset recs k)"
  shows "records_wf (removeAt recs k i)"
proof (cases "length (rrset recs k) = 1")
  case True
  with assms(1) show ?thesis by (simp add: removeAt_def records_wf_drop)
next
  case False
  let ?rs = "take i (rrset recs k) @ drop (Suc i) (rrset recs k)"
  have "length ?rs = length (rrset recs k) - 1" using assms(2) by simp
  with False assms(2) have "0 < length ?rs" by linarith
  then have "?rs \<noteq> []" by blast
  moreover have "\<forall>r \<in> set ?rs. rkey (r_Name r) (r_Type r) = k"
    by (intro ballI records_wf_mem [OF assms(1)]) (rule subsetD [OF set_remove_idx])
  ultimately have "records_wf (fmupd k ?rs recs)"
    by (rule records_wf_upd [OF assms(1)])
  then show ?thesis using False by (simp add: removeAt_def Let_def)
qed

lemma records_wf_put:
  assumes "records_wf recs"
  shows "records_wf (fmupd (rkey (r_Name rec) (r_Type rec))
    (putSlice rec (rrset recs (rkey (r_Name rec) (r_Type rec)))) recs)"
  using putSlice_props records_wf_mem [OF assms] by (intro records_wf_upd [OF assms]) blast+

lemma records_wf_of: "store_wf s \<Longrightarrow> records_wf (records_of (zones s) a)"
  by (auto simp: store_wf_def records_of_def zone_wf_def split: option.splits)

lemma PutRecord_eq:
  "PutRecord s apex rec =
     (let recs = records_of (zones s) apex; key = rkey (r_Name rec) (r_Type rec) in
      (None, s\<lparr>zones := fmupd apex
         \<lparr>z_Name = apex, z_Records = fmupd key (putSlice rec (rrset recs key)) recs,
          z_SOA = Option.bind (fmlookup (zones s) apex) z_SOA\<rparr> (zones s)\<rparr>))"
  by (simp add: PutRecord_def records_of_def Let_def split: option.splits)

lemma store_wf_New [wf_intros]: "store_wf New"
  by (simp add: store_wf_def New_def)

lemma store_wf_Update [wf_intros]: "store_wf s \<Longrightarrow> zone_wf z \<Longrightarrow> store_wf (snd (Update s z))"
  by (simp add: store_wf_def Update_def)

lemma store_wf_Delete [wf_intros]: "store_wf s \<Longrightarrow> store_wf (snd (Delete s a))"
  by (simp add: store_wf_def Delete_def split: option.splits)

lemma store_wf_PutRecord [wf_intros]: "store_wf s \<Longrightarrow> store_wf (snd (PutRecord s a rec))"
  using records_wf_put [OF records_wf_of]
  by (simp add: store_wf_def PutRecord_eq Let_def zone_wf_def)

lemma store_wf_DropRecord [wf_intros]:
  "store_wf s \<Longrightarrow> store_wf (snd (DropRecord ord s a rid))"
  unfolding store_wf_def DropRecord_def zone_wf_def
  by (auto split: option.splits dest!: findRecord_Some intro: records_wf_removeAt)

section \<open>The store implements the interface\<close>

lemma FindZone_zone:
  assumes "store_wf s" and "lockedFindZone (zones s) n = Some z"
  shows "covers (z_Name z) n" and "fmlookup (zones s) (z_Name z) = Some z"
    and "records_wf (z_Records z)"
    and "\<And>b. covers b n \<Longrightarrow> fmlookup (zones s) b \<noteq> None \<Longrightarrow> length b \<le> length (z_Name z)"
proof -
  obtain a where a: "covers a n" "fmlookup (zones s) a = Some z"
    "\<forall>b. covers b n \<and> fmlookup (zones s) b \<noteq> None \<longrightarrow> length b \<le> length a"
    using lockedFindZone_closest [OF assms(2)] by blast
  moreover have "z_Name z = a" "records_wf (z_Records z)"
    using assms(1) a(2) by (auto simp: store_wf_def zone_wf_def)
  ultimately show "covers (z_Name z) n" "fmlookup (zones s) (z_Name z) = Some z"
    "records_wf (z_Records z)"
    "\<And>b. covers b n \<Longrightarrow> fmlookup (zones s) b \<noteq> None \<Longrightarrow> length b \<le> length (z_Name z)"
    by blast+
qed

lemma NameExists_iff:
  assumes "store_wf s" shows "NameExists s n \<longleftrightarrow> (\<exists>t. Lookup s n t \<noteq> [])"
proof (cases "lockedFindZone (zones s) n")
  case None
  then show ?thesis by (simp add: NameExists_def Lookup_def)
next
  case (Some z)
  have wf: "records_wf (z_Records z)" using FindZone_zone(3) [OF assms Some] .
  have "NameExists s n \<longleftrightarrow> (\<exists>k. fmlookup (z_Records z) k \<noteq> None \<and> k_Name k = n)"
    using Some by (auto simp: NameExists_def fmlookup_dom_iff)
  also have "\<dots> \<longleftrightarrow> (\<exists>t. fmlookup (z_Records z) (rkey n t) \<noteq> None)"
    by (metis (full_types) RecordKey.cases RecordKey.select_convs(1) old.unit.exhaust)
  finally show ?thesis
    using Some records_wf_nonempty [OF wf] by (auto simp: Lookup_def)
qed

interpretation rw: zone_store "RWMutexStore_iface ord" store_wf for ord
proof (unfold_locales, goal_cases)
  case (1 s n z) then show ?case by (simp add: FindZone_def Snapshot_def FindZone_zone)
next
  case (2 s n z a) then show ?case by (simp add: FindZone_def Snapshot_def FindZone_zone)
next
  case (3 s n a) then show ?case by (simp add: FindZone_def Snapshot_def lockedFindZone_None)
next
  case 4 show ?case by (simp add: FindZone_def Lookup_def)
next
  case 5 then show ?case by (simp add: NameExists_iff)
next
  case 6 then show ?case by (auto simp: Update_def Snapshot_def)
next
  case 7 then show ?case by (simp add: store_wf_Update)
next
  case 8 then show ?case
    by (auto simp: Delete_def Snapshot_def split: option.splits)
next
  case 9 then show ?case by (simp add: store_wf_Delete)
next
  case 10 then show ?case by (simp add: PutRecord_eq Let_def Snapshot_def)
next
  case 11 then show ?case by (simp add: PutRecord_eq Let_def Snapshot_def records_of_def)
next
  case 12 show ?case
    by (simp add: PutRecord_eq Let_def Snapshot_def records_of_def putSlice_props)
next
  case 13 show ?case by (simp add: PutRecord_eq Let_def)
next
  case 14 then show ?case by (simp add: store_wf_PutRecord)
next
  case 15 then show ?case by (auto simp: DropRecord_def Snapshot_def split: option.splits)
next
  case 16 show ?case
    by (auto simp: DropRecord_def Snapshot_def records_of_def rrset_removeAt
        split: option.splits if_splits dest!: findRecord_Some dest: in_set_takeD in_set_dropD)
next
  case 17 show ?case by (simp add: DropRecord_def split: option.splits)
next
  case 18 then show ?case by (simp add: store_wf_DropRecord)
qed

section \<open>An order of the range loop\<close>

definition sorted_range :: range_oracle where
  "sorted_range rid recs = sorted_list_of_set (fmdom' recs)"

lemma range_ok_sorted: "range_ok sorted_range"
  by (simp add: range_ok_def range_order_def sorted_range_def)

lemma range_ok_mem:
  "range_ok ord \<Longrightarrow> r \<in> set (rrset recs k) \<Longrightarrow> k \<in> set (ord rid recs)"
  by (cases "fmlookup recs k")
    (simp_all add: range_ok_def range_order_def rrset_def fmlookup_dom'_iff)

section \<open>Identifiers\<close>

text \<open>Record IDs are primary keys of the database: at most one record of a zone has a given ID.\<close>

definition unique_ids :: "Records \<Rightarrow> bool" where
  "unique_ids recs \<longleftrightarrow> (\<forall>k. distinct (map r_ID (rrset recs k))) \<and>
     (\<forall>k k' r r'. r \<in> set (rrset recs k) \<and> r' \<in> set (rrset recs k') \<and> r_ID r = r_ID r' \<longrightarrow> k = k')"

lemma remove_idx_filter:
  assumes "distinct (map f xs)" and "i < length xs"
  shows "take i xs @ drop (Suc i) xs = filter (\<lambda>x. f x \<noteq> f (xs ! i)) xs"
proof -
  have split: "xs = take i xs @ xs ! i # drop (Suc i) xs"
    using assms(2) by (simp add: id_take_nth_drop)
  have "distinct (map f (take i xs @ xs ! i # drop (Suc i) xs))"
    using assms(1) split by simp
  then have "\<forall>x \<in> set (take i xs) \<union> set (drop (Suc i) xs). f x \<noteq> f (xs ! i)"
    by (simp add: image_iff del: append_take_drop_id) (metis Un_iff)
  then have "filter (\<lambda>x. f x \<noteq> f (xs ! i)) (take i xs @ xs ! i # drop (Suc i) xs) =
      take i xs @ drop (Suc i) xs"
    by (simp add: filter_id_conv)
  then show ?thesis using split by simp
qed

lemma DropRecord_unique:
  assumes "range_ok ord" and "unique_ids (records_of (zones s) apex)"
  shows "rrset (records_of (zones (snd (DropRecord ord s apex rid))) apex) k =
    filter (\<lambda>r. r_ID r \<noteq> rid) (rrset (records_of (zones s) apex) k)"
proof (cases "fmlookup (zones s) apex")
  case None
  then show ?thesis by (simp add: DropRecord_def records_of_def)
next
  case (Some z)
  then have u: "unique_ids (z_Records z)" using assms(2) by (simp add: records_of_def)
  show ?thesis
  proof (cases "findRecord (z_Records z) rid (ord rid (z_Records z))")
    case None
    then have "\<forall>r \<in> set (rrset (z_Records z) k). r_ID r \<noteq> rid"
      using range_ok_mem [OF assms(1)] by (fastforce simp: findRecord_None)
    then show ?thesis using Some None by (simp add: DropRecord_def records_of_def filter_id_conv)
  next
    case (Some ki)
    then obtain k' i where ki: "findRecord (z_Records z) rid (ord rid (z_Records z)) = Some (k', i)"
      by (cases ki) simp
    then have i: "i < length (rrset (z_Records z) k')" "r_ID (rrset (z_Records z) k' ! i) = rid"
      by (auto dest: findRecord_Some)
    have "filter (\<lambda>r. r_ID r \<noteq> rid) (rrset (z_Records z) k) = rrset (z_Records z) k" if "k \<noteq> k'"
      using that u i nth_mem [OF i(1)] unfolding unique_ids_def filter_id_conv by blast
    moreover have "take i (rrset (z_Records z) k') @ drop (Suc i) (rrset (z_Records z) k') =
        filter (\<lambda>r. r_ID r \<noteq> rid) (rrset (z_Records z) k')"
      using remove_idx_filter [of r_ID "rrset (z_Records z) k'" i] u i by (simp add: unique_ids_def)
    ultimately show ?thesis
      using \<open>fmlookup (zones s) apex = Some z\<close> ki i(1)
      by (auto simp: DropRecord_def records_of_def rrset_removeAt)
  qed
qed

lemma findRecord_unique:
  assumes "distinct ks" and "k \<in> set ks" and "findIdx rid (rrset recs k) = Some i"
    and "\<And>k'. k' \<noteq> k \<Longrightarrow> findIdx rid (rrset recs k') = None"
  shows "findRecord recs rid ks = Some (k, i)"
  using assms(1,2)
proof (induction ks)
  case (Cons a ks)
  then show ?case using assms(3) assms(4) [of a] by (cases "a = k") auto
qed simp

lemma findIdx_snoc:
  "\<forall>r \<in> set rs. r_ID r \<noteq> r_ID rec \<Longrightarrow> findIdx (r_ID rec) (rs @ [rec]) = Some (length rs)"
  by (induction rs) auto

lemma findIdx_notin: "\<forall>r \<in> set rs. r_ID r \<noteq> rid \<Longrightarrow> findIdx rid rs = None"
  by (simp add: findIdx_None)

text \<open>Dropping a record that was just appended gives the old record map back.\<close>

lemma remove_put_records:
  assumes "records_wf recs" and "range_order ks (fmupd key (rrset recs key @ [rec]) recs)"
    and "\<And>k. \<forall>r \<in> set (rrset recs k). r_ID r \<noteq> r_ID rec"
  shows "\<exists>i. findRecord (fmupd key (rrset recs key @ [rec]) recs) (r_ID rec) ks = Some (key, i) \<and>
    removeAt (fmupd key (rrset recs key @ [rec]) recs) key i = recs"
proof (intro exI conjI)
  let ?new = "fmupd key (rrset recs key @ [rec]) recs"
  show "findRecord ?new (r_ID rec) ks = Some (key, length (rrset recs key))"
    using assms(2,3) by (intro findRecord_unique) (auto simp: range_order_def findIdx_snoc findIdx_notin)
  show "removeAt ?new key (length (rrset recs key)) = recs"
  proof (cases "rrset recs key = []")
    case True
    then have "fmlookup recs key = None" using records_wf_nonempty [OF assms(1)] by blast
    with True show ?thesis by (simp add: removeAt_def fmap_ext_iff)
  next
    case False
    then have "fmlookup recs key = Some (rrset recs key)" by (auto simp: rrset_def split: option.splits)
    with False show ?thesis by (simp add: removeAt_def Let_def fmap_ext_iff)
  qed
qed

section \<open>Runs of the store\<close>

text \<open>The states the store goes through: any sequence of its writes, with well-formed zones.\<close>

inductive store_reachable :: "RWMutexStore \<Rightarrow> bool" where
  new: "store_reachable New"
| update: "store_reachable s \<Longrightarrow> zone_wf z \<Longrightarrow> store_reachable (snd (Update s z))"
| delete: "store_reachable s \<Longrightarrow> store_reachable (snd (Delete s apex))"
| put: "store_reachable s \<Longrightarrow> store_reachable (snd (PutRecord s apex rec))"
| drop: "store_reachable s \<Longrightarrow> store_reachable (snd (DropRecord ord s apex rid))"

lemma store_reachable_wf: "store_reachable s \<Longrightarrow> store_wf s"
  by (induction rule: store_reachable.induct) (auto intro: wf_intros)

lemma replaceByID_least:
  "i < length rs \<Longrightarrow> r_ID (rs ! i) = r_ID rec \<Longrightarrow> (\<And>j. j < i \<Longrightarrow> r_ID (rs ! j) \<noteq> r_ID rec) \<Longrightarrow>
     replaceByID rec rs = Some (rs[i := rec])"
proof (induction rs arbitrary: i)
  case (Cons r rs)
  show ?case
  proof (cases i)
    case 0
    with Cons.prems show ?thesis by simp
  next
    case (Suc j)
    have "r_ID r \<noteq> r_ID rec" using Cons.prems(3) [of 0] Suc by simp
    moreover have "replaceByID rec rs = Some (rs[j := rec])"
      using Cons.prems(1,2) Cons.prems(3) [of "Suc k" for k] Suc by (intro Cons.IH) auto
    ultimately show ?thesis using Suc by simp
  qed
qed simp

section \<open>Properties\<close>

text \<open>
  C2: \<open>FindZone\<close> returns the closest enclosing zone: in every state the store can reach, it
  returns \<open>z\<close> exactly when \<open>z\<close> is filed under its own name, covers the queried name, and no
  stored zone that covers the name has a longer apex. It returns nothing exactly when no stored
  zone covers the name.
\<close>

theorem FindZone_closest:
  assumes "store_reachable s"
  shows "(FindZone s n = Some z \<longleftrightarrow>
      fmlookup (zones s) (z_Name z) = Some z \<and> covers (z_Name z) n \<and>
      (\<forall>b. covers b n \<and> fmlookup (zones s) b \<noteq> None \<longrightarrow> length b \<le> length (z_Name z))) \<and>
    (FindZone s n = None \<longleftrightarrow> (\<forall>a. covers a n \<longrightarrow> fmlookup (zones s) a = None))"
proof
  have wf: "store_wf s" using assms by (rule store_reachable_wf)
  have "FindZone s n = Some z" if "fmlookup (zones s) (z_Name z) = Some z"
    "covers (z_Name z) n"
    "\<forall>b. covers b n \<and> fmlookup (zones s) b \<noteq> None \<longrightarrow> length b \<le> length (z_Name z)"
    using rw.find_eqI [OF wf, of "z_Name z" n sorted_range z] that by (simp add: Snapshot_def)
  then show "FindZone s n = Some z \<longleftrightarrow>
      fmlookup (zones s) (z_Name z) = Some z \<and> covers (z_Name z) n \<and>
      (\<forall>b. covers b n \<and> fmlookup (zones s) b \<noteq> None \<longrightarrow> length b \<le> length (z_Name z))"
    using FindZone_zone [OF wf] by (auto simp: FindZone_def)
  show "FindZone s n = None \<longleftrightarrow> (\<forall>a. covers a n \<longrightarrow> fmlookup (zones s) a = None)"
    using lockedFindZone_None FindZone_zone(1,2) [OF wf]
    by (metis FindZone_def not_None_eq)
qed

text \<open>A store with nested zones, for the examples.\<close>

definition demo_store :: RWMutexStore where
  "demo_store = snd (Update (snd (Update New
     \<lparr>z_Name = ''b.'', z_Records = fmempty, z_SOA = None\<rparr>))
     \<lparr>z_Name = ''a.b.'', z_Records = fmempty, z_SOA = None\<rparr>)"

lemma demo_store_reachable: "store_reachable demo_store"
  unfolding demo_store_def
  by (intro store_reachable.intros) (simp_all add: zone_wf_def)

theorem FindZone_closest_witness:
  "map_option z_Name (FindZone demo_store ''x.a.b.'') = Some ''a.b.''"
proof -
  let ?z = "\<lparr>z_Name = ''a.b.'', z_Records = fmempty, z_SOA = None\<rparr>"
  have "FindZone demo_store ''x.a.b.'' = Some ?z"
    unfolding FindZone_closest [OF demo_store_reachable, THEN conjunct1]
    by (auto simp: demo_store_def Update_def New_def covers_def HasSuffix_def split: if_splits)
  then show ?thesis by simp
qed

text \<open>
  C6: the store's invariant. Whatever sequence of \<open>Update\<close>, \<open>Delete\<close>, \<open>PutRecord\<close> and
  \<open>DropRecord\<close> calls ran, with any order of the range loops, zones are filed under their own name,
  no rrset is empty, every record is in the rrset of its own name and type, and so \<open>NameExists\<close>
  (which tells NODATA from NXDOMAIN) holds of exactly the names for which \<open>Lookup\<close> finds a record
  of some type.
\<close>

theorem store_invariant:
  assumes "store_reachable s"
  shows "store_wf s \<and> (NameExists s n \<longleftrightarrow> (\<exists>t. Lookup s n t \<noteq> [])) \<and>
    (\<forall>r \<in> set (Lookup s n t). r_Name r = n \<and> r_Type r = t)"
proof (intro conjI ballI)
  show wf: "store_wf s" using assms by (rule store_reachable_wf)
  then show "NameExists s n \<longleftrightarrow> (\<exists>t. Lookup s n t \<noteq> [])" by (rule NameExists_iff)
  fix r assume r: "r \<in> set (Lookup s n t)"
  then obtain z where z: "lockedFindZone (zones s) n = Some z"
    "r \<in> set (rrset (z_Records z) (rkey n t))"
    by (cases "lockedFindZone (zones s) n") (simp_all add: Lookup_def)
  then have "rkey (r_Name r) (r_Type r) = rkey n t"
    using records_wf_mem FindZone_zone(3) [OF wf] by blast
  then show "r_Name r = n" "r_Type r = t" by simp_all
qed

definition demo_rec :: Record where
  "demo_rec = \<lparr>r_ID = 7, r_Name = ''w.b.'', r_Type = 1, r_TTL = 60, r_Value = ''1.2.3.4'',
     r_Weight = 0, r_RR = None\<rparr>"

theorem store_invariant_witness:
  "store_wf (snd (PutRecord demo_store ''b.'' demo_rec)) \<and>
   NameExists (snd (PutRecord demo_store ''b.'' demo_rec)) ''w.b.''"
proof -
  let ?s = "snd (PutRecord demo_store ''b.'' demo_rec)"
  have r: "store_reachable ?s" by (intro store_reachable.put demo_store_reachable)
  have "Lookup ?s ''w.b.'' 1 = [demo_rec]"
    by (simp add: Lookup_def PutRecord_eq demo_store_def New_def Update_def lockedFindZone.simps
        records_of_def demo_rec_def putSlice_def)
  then show ?thesis using store_invariant [OF r, of "''w.b.''" 1] by (metis list.distinct(1))
qed

text \<open>
  C7: what \<open>PutRecord\<close> writes. Only the rrset of the record's own name and type in the zone \<open>apex\<close>
  changes: a record with a positive ID replaces the first record of that rrset with the same ID, in
  place; otherwise it is appended. The zone exists afterwards under its name, keeps its SOA, and every
  other rrset and every other zone is as before.
\<close>

theorem PutRecord_effect:
  fixes rec s apex
  defines "key \<equiv> rkey (r_Name rec) (r_Type rec)" and "s' \<equiv> snd (PutRecord s apex rec)"
    and "old \<equiv> rrset (records_of (zones s) apex) (rkey (r_Name rec) (r_Type rec))"
  shows "fst (PutRecord s apex rec) = None \<and>
    (\<forall>a. a \<noteq> apex \<longrightarrow> fmlookup (zones s') a = fmlookup (zones s) a) \<and>
    (\<exists>z'. fmlookup (zones s') apex = Some z' \<and> z_Name z' = apex \<and>
       z_SOA z' = Option.bind (fmlookup (zones s) apex) z_SOA) \<and>
    (\<forall>k. k \<noteq> key \<longrightarrow> rrset (records_of (zones s') apex) k = rrset (records_of (zones s) apex) k) \<and>
    (\<forall>i < length old. 0 < r_ID rec \<longrightarrow> r_ID (old ! i) = r_ID rec \<longrightarrow>
       (\<forall>j < i. r_ID (old ! j) \<noteq> r_ID rec) \<longrightarrow>
       rrset (records_of (zones s') apex) key = old[i := rec]) \<and>
    (r_ID rec \<le> 0 \<or> r_ID rec \<notin> r_ID ` set old \<longrightarrow>
       rrset (records_of (zones s') apex) key = old @ [rec])"
proof -
  have new: "rrset (records_of (zones s') apex) key = putSlice rec old"
    by (simp add: s'_def key_def old_def PutRecord_eq Let_def records_of_def)
  have app: "putSlice rec old = old @ [rec]" if "r_ID rec \<le> 0 \<or> r_ID rec \<notin> r_ID ` set old"
  proof -
    have "replaceByID rec old = None" if "r_ID rec \<notin> r_ID ` set old"
      using that unfolding replaceByID_None by (metis image_eqI)
    then show ?thesis using that by (auto simp: putSlice_def)
  qed
  have rep: "putSlice rec old = old[i := rec]"
    if "i < length old" "0 < r_ID rec" "r_ID (old ! i) = r_ID rec" "\<forall>j < i. r_ID (old ! j) \<noteq> r_ID rec"
    for i using that replaceByID_least [of i old rec] by (simp add: putSlice_def)
  have "\<exists>z'. fmlookup (zones s') apex = Some z' \<and> z_Name z' = apex \<and>
       z_SOA z' = Option.bind (fmlookup (zones s) apex) z_SOA"
    by (simp add: s'_def PutRecord_eq Let_def)
  then show ?thesis
    using rw.put_other [of _ apex sorted_range s rec] rw.put_rrset [of _ rec sorted_range s apex] new app rep
    by (auto simp: s'_def key_def Snapshot_def PutRecord_eq Let_def)
qed

theorem PutRecord_effect_witness:
  "rrset (records_of (zones (snd (PutRecord (snd (PutRecord demo_store ''b.'' demo_rec)) ''b.''
     (demo_rec\<lparr>r_Value := ''5.6.7.8''\<rparr>)))) ''b.'') (rkey ''w.b.'' 1) =
   [demo_rec\<lparr>r_Value := ''5.6.7.8''\<rparr>]"
proof -
  let ?s = "snd (PutRecord demo_store ''b.'' demo_rec)"
  let ?r = "demo_rec\<lparr>r_Value := ''5.6.7.8''\<rparr>"
  have old: "rrset (records_of (zones ?s) ''b.'') (rkey ''w.b.'' 1) = [demo_rec]"
    using PutRecord_effect [of demo_store "''b.''" demo_rec]
    by (simp add: demo_rec_def demo_store_def records_of_def Update_def New_def)
  show ?thesis
    using PutRecord_effect [of ?s "''b.''" ?r] old by (simp add: demo_rec_def)
qed

text \<open>
  C8: putting a record with a fresh positive ID into an existing zone and dropping it by that ID
  restores the store exactly, in whatever order \<open>DropRecord\<close> searches the map.
\<close>

theorem put_drop_roundtrip:
  assumes "store_wf s" and "range_ok ord" and "fmlookup (zones s) apex = Some z" and "0 < r_ID rec"
    and "\<forall>k. \<forall>r \<in> set (rrset (z_Records z) k). r_ID r \<noteq> r_ID rec"
  shows "DropRecord ord (snd (PutRecord s apex rec)) apex (r_ID rec) = (None, s)"
proof -
  let ?key = "rkey (r_Name rec) (r_Type rec)"
  let ?new = "fmupd ?key (rrset (z_Records z) ?key @ [rec]) (z_Records z)"
  have wf: "records_wf (z_Records z)" "z_Name z = apex"
    using assms(1,3) by (auto simp: store_wf_def zone_wf_def)
  have "replaceByID rec (rrset (z_Records z) ?key) = None"
    using assms(5) by (simp add: replaceByID_None)
  then have put: "zones (snd (PutRecord s apex rec)) = fmupd apex
      \<lparr>z_Name = apex, z_Records = ?new, z_SOA = z_SOA z\<rparr> (zones s)"
    using assms(3) by (simp add: PutRecord_eq Let_def records_of_def putSlice_def)
  obtain i where "findRecord ?new (r_ID rec) (ord (r_ID rec) ?new) = Some (?key, i)"
    "removeAt ?new ?key i = z_Records z"
    using remove_put_records [OF wf(1)] assms(2,5) by (metis range_ok_def)
  moreover have "fmupd apex \<lparr>z_Name = apex, z_Records = z_Records z, z_SOA = z_SOA z\<rparr> (zones s) = zones s"
    using assms(3) wf(2) by (intro fmupd_same) auto
  moreover have "fmupd apex z1 (fmupd apex z2 (zones s)) = fmupd apex z1 (zones s)" for z1 z2
    by (simp add: fmap_ext_iff)
  ultimately show ?thesis by (simp add: DropRecord_def put)
qed

theorem put_drop_roundtrip_witness:
  "DropRecord sorted_range (snd (PutRecord demo_store ''b.'' demo_rec)) ''b.'' 7 = (None, demo_store)"
proof -
  have "store_wf demo_store" using demo_store_reachable by (rule store_reachable_wf)
  moreover have "fmlookup (zones demo_store) ''b.'' =
      Some \<lparr>z_Name = ''b.'', z_Records = fmempty, z_SOA = None\<rparr>"
    by (simp add: demo_store_def Update_def New_def)
  ultimately show ?thesis
    using put_drop_roundtrip [of demo_store sorted_range "''b.''" _ demo_rec] range_ok_sorted
    by (simp add: demo_rec_def)
qed

text \<open>
  C9: \<open>DropRecord\<close> removes the record with the given ID and nothing else: when IDs are unique in
  the zone, every rrset loses exactly the records with that ID, every other zone is untouched, and no
  error is returned, also when the zone or the record is absent.
\<close>

theorem DropRecord_effect:
  assumes "range_ok ord" and "unique_ids (records_of (zones s) apex)"
  shows "fst (DropRecord ord s apex rid) = None \<and>
    rrset (records_of (zones (snd (DropRecord ord s apex rid))) apex) k =
      filter (\<lambda>r. r_ID r \<noteq> rid) (rrset (records_of (zones s) apex) k) \<and>
    (\<forall>a. a \<noteq> apex \<longrightarrow>
       fmlookup (zones (snd (DropRecord ord s apex rid))) a = fmlookup (zones s) a)"
  using DropRecord_unique [OF assms] rw.drop_ok [of ord s apex rid]
    rw.drop_other [of _ apex ord s rid] by (simp add: Snapshot_def)

theorem DropRecord_effect_witness:
  "rrset (records_of (zones (snd (DropRecord sorted_range
     (snd (PutRecord demo_store ''b.'' demo_rec)) ''b.'' 7))) ''b.'') (rkey ''w.b.'' 1) = []"
proof -
  let ?s = "snd (PutRecord demo_store ''b.'' demo_rec)"
  have s: "rrset (records_of (zones ?s) ''b.'') k = (if k = rkey ''w.b.'' 1 then [demo_rec] else [])" for k
    by (simp add: PutRecord_eq demo_store_def New_def Update_def records_of_def demo_rec_def putSlice_def)
  then have "unique_ids (records_of (zones ?s) ''b.'')"
    by (auto simp: unique_ids_def split: if_splits)
  then show ?thesis
    using DropRecord_effect [OF range_ok_sorted, of ?s "''b.''" 7 "rkey ''w.b.'' 1"] s
    by (simp add: demo_rec_def)
qed

end
