(* ===== verification/Store_Heap.thy ===== *)
theory Store_Heap
  imports Zone_Store
begin

text \<open>
  The writes of \<^verbatim>\<open>internal/store/rwmutex.go\<close> over an explicit heap. The store hands out pointers
  to zones (\<open>FindZone\<close>, \<open>Snapshot\<close>) that readers use after the lock is released, and the source
  claims this is safe because \<open>PutRecord\<close> and \<open>DropRecord\<close> publish a new zone and never change an
  old one. Here zones, their record maps and the rrset slices are heap objects, as in Go; a write
  allocates with \<open>alloc\<close> and mutates with \<open>store_obj\<close>. The lemmas show that no write changes an
  object that existed before it, and that read through the pointers the heap writes are the
  functional ones of \<open>Zone_Store\<close>.
\<close>

record ZoneObj =
  zo_Name :: string
  zo_Records :: nat
  zo_SOA :: "SOA option"

datatype obj = OZone ZoneObj | OMap "(RecordKey, nat) fmap" | OSlice "Record list"

record heap_store =
  heap :: "nat \<Rightarrow> obj option"
  next_addr :: nat
  zone_ptrs :: "(string, nat) fmap"

definition alloc :: "obj \<Rightarrow> heap_store \<Rightarrow> nat \<times> heap_store" where
  "alloc x h = (next_addr h, h\<lparr>heap := (heap h)(next_addr h \<mapsto> x), next_addr := next_addr h + 1\<rparr>)"

definition store_obj :: "nat \<Rightarrow> obj \<Rightarrow> heap_store \<Rightarrow> heap_store" where
  "store_obj p x h = h\<lparr>heap := (heap h)(p \<mapsto> x)\<rparr>"

definition getZone :: "heap_store \<Rightarrow> nat \<Rightarrow> ZoneObj" where
  "getZone h p = (case heap h p of Some (OZone z) \<Rightarrow> z | _ \<Rightarrow> \<lparr>zo_Name = [], zo_Records = 0, zo_SOA = None\<rparr>)"

definition getMap :: "heap_store \<Rightarrow> nat \<Rightarrow> (RecordKey, nat) fmap" where
  "getMap h p = (case heap h p of Some (OMap m) \<Rightarrow> m | _ \<Rightarrow> fmempty)"

definition getSlice :: "heap_store \<Rightarrow> nat \<Rightarrow> Record list" where
  "getSlice h p = (case heap h p of Some (OSlice rs) \<Rightarrow> rs | _ \<Rightarrow> [])"

text \<open>What a pointer to a zone means: the value a reader sees through it.\<close>

definition readMap :: "heap_store \<Rightarrow> nat \<Rightarrow> Records" where
  "readMap h p = fmmap (getSlice h) (getMap h p)"

definition readZone :: "heap_store \<Rightarrow> nat \<Rightarrow> Zone" where
  "readZone h p = \<lparr>z_Name = zo_Name (getZone h p), z_Records = readMap h (zo_Records (getZone h p)),
     z_SOA = zo_SOA (getZone h p)\<rparr>"

definition absStore :: "heap_store \<Rightarrow> RWMutexStore" where
  "absStore h = \<lparr>zones = fmmap (readZone h) (zone_ptrs h)\<rparr>"

section \<open>The writes\<close>

definition Update_h :: "nat \<Rightarrow> heap_store \<Rightarrow> heap_store" where
  "Update_h p h = h\<lparr>zone_ptrs := fmupd (zo_Name (getZone h p)) p (zone_ptrs h)\<rparr>"

definition Delete_h :: "string \<Rightarrow> heap_store \<Rightarrow> heap_store" where
  "Delete_h apex h = (case fmlookup (zone_ptrs h) apex of
     None \<Rightarrow> h | Some _ \<Rightarrow> h\<lparr>zone_ptrs := fmdrop apex (zone_ptrs h)\<rparr>)"

text \<open>\<open>PutRecord\<close>: a fresh map with the old entries, a fresh slice, the slice put into the fresh
  map, a fresh zone, and the zone's pointer published.\<close>

definition PutRecord_h :: "string \<Rightarrow> Record \<Rightarrow> heap_store \<Rightarrow> heap_store" where
  "PutRecord_h apex rec h =
     (let old = fmlookup (zone_ptrs h) apex;
          oldRecs = (case old of None \<Rightarrow> fmempty | Some p \<Rightarrow> getMap h (zo_Records (getZone h p)));
          (newRecs, h1) = alloc (OMap oldRecs) h;
          key = rkey (r_Name rec) (r_Type rec);
          existing = (case fmlookup (getMap h1 newRecs) key of None \<Rightarrow> [] | Some a \<Rightarrow> getSlice h1 a);
          (newSlice, h2) = alloc (OSlice (putSlice rec existing)) h1;
          h3 = store_obj newRecs (OMap (fmupd key newSlice (getMap h2 newRecs))) h2;
          (newZone, h4) = alloc (OZone \<lparr>zo_Name = apex, zo_Records = newRecs,
             zo_SOA = (case old of None \<Rightarrow> None | Some p \<Rightarrow> zo_SOA (getZone h p))\<rparr>) h3
      in h4\<lparr>zone_ptrs := fmupd apex newZone (zone_ptrs h4)\<rparr>)"

text \<open>\<open>DropRecord\<close>: nothing is allocated when the record is not found; otherwise a fresh copy of
  the map, from which the entry is deleted or into which a fresh shorter slice is put.\<close>

definition DropRecord_h :: "range_oracle \<Rightarrow> string \<Rightarrow> int \<Rightarrow> heap_store \<Rightarrow> heap_store" where
  "DropRecord_h ord apex rid h =
     (case fmlookup (zone_ptrs h) apex of
        None \<Rightarrow> h
      | Some p \<Rightarrow>
          (let recs = readMap h (zo_Records (getZone h p)) in
           case findRecord recs rid (ord rid recs) of
             None \<Rightarrow> h
           | Some (foundKey, foundIdx) \<Rightarrow>
               (let (newRecs, h1) = alloc (OMap (getMap h (zo_Records (getZone h p)))) h;
                    existing = rrset recs foundKey;
                    h3 = (if length existing = 1
                          then store_obj newRecs (OMap (fmdrop foundKey (getMap h1 newRecs))) h1
                          else (let (newSlice, h2) =
                                  alloc (OSlice (take foundIdx existing @ drop (foundIdx + 1) existing)) h1
                                in store_obj newRecs (OMap (fmupd foundKey newSlice (getMap h2 newRecs))) h2));
                    (newZone, h4) = alloc (OZone \<lparr>zo_Name = apex, zo_Records = newRecs,
                       zo_SOA = zo_SOA (getZone h p)\<rparr>) h3
                in h4\<lparr>zone_ptrs := fmupd apex newZone (zone_ptrs h4)\<rparr>)))"

section \<open>Well-formed heaps\<close>

definition zone_at :: "heap_store \<Rightarrow> nat \<Rightarrow> bool" where
  "zone_at h p \<longleftrightarrow> (\<exists>z m. heap h p = Some (OZone z) \<and> heap h (zo_Records z) = Some (OMap m) \<and>
     (\<forall>k a. fmlookup m k = Some a \<longrightarrow> (\<exists>rs. heap h a = Some (OSlice rs))))"

definition heap_wf :: "heap_store \<Rightarrow> bool" where
  "heap_wf h \<longleftrightarrow> (\<forall>a \<ge> next_addr h. heap h a = None) \<and>
     (\<forall>apex p. fmlookup (zone_ptrs h) apex = Some p \<longrightarrow> zone_at h p)"

text \<open>A later heap keeps every object of an earlier one.\<close>

definition extends :: "heap_store \<Rightarrow> heap_store \<Rightarrow> bool" where
  "extends h h' \<longleftrightarrow> (\<forall>a x. heap h a = Some x \<longrightarrow> heap h' a = Some x)"

lemma extends_refl [simp]: "extends h h"
  by (simp add: extends_def)

lemma extends_trans: "extends h h' \<Longrightarrow> extends h' h'' \<Longrightarrow> extends h h''"
  by (simp add: extends_def)

lemma extends_zone_at: "extends h h' \<Longrightarrow> zone_at h p \<Longrightarrow> zone_at h' p"
  unfolding extends_def zone_at_def by (elim exE conjE) (intro exI conjI; blast)

lemma extends_getSlice: "extends h h' \<Longrightarrow> heap h a = Some (OSlice rs) \<Longrightarrow> getSlice h' a = getSlice h a"
  by (simp add: extends_def getSlice_def)

text \<open>What a reader sees through a pointer to a zone does not change when the heap grows.\<close>

lemma extends_readZone:
  assumes "extends h h'" and "zone_at h p" shows "readZone h' p = readZone h p"
proof -
  obtain z m where z: "heap h p = Some (OZone z)" "heap h (zo_Records z) = Some (OMap m)"
    "\<forall>k a. fmlookup m k = Some a \<longrightarrow> (\<exists>rs. heap h a = Some (OSlice rs))"
    using assms(2) by (auto simp: zone_at_def)
  have z': "heap h' p = Some (OZone z)" "heap h' (zo_Records z) = Some (OMap m)"
    using z assms(1) by (auto simp: extends_def)
  have "fmmap (getSlice h') m = fmmap (getSlice h) m"
    using z(3) extends_getSlice [OF assms(1)] by (intro fmmap_cong_on) blast
  then show ?thesis using z z' by (simp add: readZone_def readMap_def getZone_def getMap_def)
qed

text \<open>Publishing a zone in an extended heap is an update of the abstract store.\<close>

lemma absStore_publish:
  assumes "heap_wf h" and "extends h h'" and "zone_ptrs h' = fmupd apex p (zone_ptrs h)"
  shows "absStore h' = \<lparr>zones = fmupd apex (readZone h' p) (zones (absStore h))\<rparr>"
proof -
  have "fmmap (readZone h') (zone_ptrs h) = fmmap (readZone h) (zone_ptrs h)"
    using assms(1) extends_readZone [OF assms(2)] by (intro fmmap_cong_on) (auto simp: heap_wf_def)
  then show ?thesis by (simp add: absStore_def assms(3) fmap_ext_iff)
qed

lemma heap_wf_publish:
  assumes "heap_wf h" and "extends h h'" and "zone_ptrs h' = fmupd apex p (zone_ptrs h)"
    and "zone_at h' p" and "\<And>a. a \<ge> next_addr h' \<Longrightarrow> heap h' a = None"
  shows "heap_wf h'"
  using assms extends_zone_at [OF assms(2)] by (auto simp: heap_wf_def)

text \<open>The map and the zone a write reads, and the heap it leaves, in closed form.\<close>

lemma oldRecs_slices:
  assumes "heap_wf h" and "fmlookup (zone_ptrs h) apex = Some p"
    and "fmlookup (getMap h (zo_Records (getZone h p))) k = Some a"
  shows "\<exists>rs. heap h a = Some (OSlice rs)"
  using assms by (fastforce simp: heap_wf_def zone_at_def getMap_def getZone_def)

definition grown :: "heap_store \<Rightarrow> string \<Rightarrow> (nat \<Rightarrow> obj option) \<Rightarrow> nat \<Rightarrow> nat \<Rightarrow> heap_store" where
  "grown h apex hp nx p = h\<lparr>heap := hp, next_addr := nx, zone_ptrs := fmupd apex p (zone_ptrs h)\<rparr>"

lemma grown_sel [simp]:
  "heap (grown h apex hp nx p) = hp" "next_addr (grown h apex hp nx p) = nx"
  "zone_ptrs (grown h apex hp nx p) = fmupd apex p (zone_ptrs h)"
  by (simp_all add: grown_def)

text \<open>The common end of the two writes: a heap that gained a record map at \<open>next_addr\<close>, perhaps a
  slice after it, and a zone that points to the map.\<close>

lemma publish_map:
  assumes wf: "heap_wf h"
    and hp: "hp = (heap h ++ fresh)(next_addr h \<mapsto> OMap m,
        pz \<mapsto> OZone \<lparr>zo_Name = apex, zo_Records = next_addr h, zo_SOA = soa\<rparr>)"
    and pz: "next_addr h < pz" and nx: "nx = pz + 1"
    and fresh: "\<And>a x. fresh a = Some x \<Longrightarrow> next_addr h < a \<and> a < pz"
    and slices: "\<And>k a. fmlookup m k = Some a \<Longrightarrow>
        \<exists>rs. (heap h ++ fresh) a = Some (OSlice rs) \<and> a \<noteq> next_addr h \<and> a < pz \<and>
             fmlookup recs k = Some rs"
    and dom: "\<And>k. fmlookup m k = None \<Longrightarrow> fmlookup recs k = None"
  defines "h' \<equiv> grown h apex hp nx pz"
  shows "extends h h' \<and> heap_wf h' \<and> absStore h' = \<lparr>zones = fmupd apex
      \<lparr>z_Name = apex, z_Records = recs, z_SOA = soa\<rparr> (zones (absStore h))\<rparr>"
proof (intro conjI)
  have none: "heap h a = None" if "a \<ge> next_addr h" for a using wf that by (simp add: heap_wf_def)
  have fr: "fresh a = None" if "heap h a = Some x" for a x
    using that none fresh by (cases "fresh a") (fastforce+)
  show ext: "extends h h'"
    unfolding extends_def h'_def
  proof (intro allI impI)
    fix a x assume a: "heap h a = Some x"
    have "a < next_addr h" using a none [of a] by (cases "a < next_addr h") auto
    then show "heap (grown h apex hp nx pz) a = Some x" using a fr [OF a] pz
      by (simp add: hp map_add_def)
  qed
  have slice: "\<exists>rs. hp a = Some (OSlice rs) \<and> fmlookup recs k = Some rs" if "fmlookup m k = Some a" for k a
    using slices [OF that] by (auto simp: hp map_add_def split: option.splits)
  have at: "zone_at h' pz"
    unfolding zone_at_def h'_def using slice pz by (fastforce simp: hp)
  have "heap h' a = None" if "a \<ge> next_addr h'" for a
    using that none fresh [of a] pz nx by (cases "fresh a") (auto simp: h'_def hp map_add_def)
  then show "heap_wf h'"
    using heap_wf_publish [OF wf ext _ at] by (simp add: h'_def)
  have "readMap h' (next_addr h) = recs"
  proof (rule fmap_ext)
    fix k
    show "fmlookup (readMap h' (next_addr h)) k = fmlookup recs k"
      using slice [of k] dom [of k] pz
      by (cases "fmlookup m k") (auto simp: readMap_def getMap_def getSlice_def h'_def hp)
  qed
  then have "readZone h' pz = \<lparr>z_Name = apex, z_Records = recs, z_SOA = soa\<rparr>"
    by (simp add: readZone_def getZone_def h'_def hp)
  then show "absStore h' = \<lparr>zones = fmupd apex \<lparr>z_Name = apex, z_Records = recs, z_SOA = soa\<rparr>
        (zones (absStore h))\<rparr>"
    using absStore_publish [OF wf ext] by (simp add: h'_def)
qed

lemma existing_slice:
  assumes "heap_wf h"
    and "oldRecs = (case fmlookup (zone_ptrs h) apex of None \<Rightarrow> fmempty
           | Some p \<Rightarrow> getMap h (zo_Records (getZone h p)))"
  shows "fmmap (getSlice h) oldRecs = records_of (zones (absStore h)) apex"
    and "fmlookup oldRecs k = Some a \<Longrightarrow> a < next_addr h \<and> heap h a = Some (OSlice (getSlice h a))"
proof -
  show "fmmap (getSlice h) oldRecs = records_of (zones (absStore h)) apex"
    by (simp add: assms(2) records_of_def absStore_def readZone_def readMap_def split: option.splits)
  assume "fmlookup oldRecs k = Some a"
  then obtain rs where "heap h a = Some (OSlice rs)"
    using assms(2) oldRecs_slices [OF assms(1), of apex] by (auto split: option.splits)
  moreover from this have "a < next_addr h"
    using assms(1) unfolding heap_wf_def by (metis not_less option.distinct(1))
  ultimately show "a < next_addr h \<and> heap h a = Some (OSlice (getSlice h a))"
    by (simp add: getSlice_def)
qed

lemma PutRecord_h_grown:
  assumes wf: "heap_wf h"
    and old: "oldRecs = (case fmlookup (zone_ptrs h) apex of None \<Rightarrow> fmempty
           | Some p \<Rightarrow> getMap h (zo_Records (getZone h p)))"
    and key: "key = rkey (r_Name rec) (r_Type rec)"
  shows "PutRecord_h apex rec h = grown h apex
    ((heap h ++ [Suc (next_addr h) \<mapsto> OSlice (putSlice rec (rrset (records_of (zones (absStore h)) apex) key))])
      (next_addr h \<mapsto> OMap (fmupd key (Suc (next_addr h)) oldRecs),
       Suc (Suc (next_addr h)) \<mapsto> OZone \<lparr>zo_Name = apex, zo_Records = next_addr h,
         zo_SOA = Option.bind (fmlookup (zones (absStore h)) apex) z_SOA\<rparr>))
    (Suc (Suc (Suc (next_addr h)))) (Suc (Suc (next_addr h)))"
proof -
  let ?h1 = "h\<lparr>heap := (heap h)(next_addr h \<mapsto> OMap oldRecs), next_addr := Suc (next_addr h)\<rparr>"
  have soa: "(case fmlookup (zone_ptrs h) apex of None \<Rightarrow> None | Some p \<Rightarrow> zo_SOA (getZone h p)) =
      Option.bind (fmlookup (zones (absStore h)) apex) z_SOA"
    by (simp add: absStore_def readZone_def split: option.splits)
  have "getSlice ?h1 a = getSlice h a" if "fmlookup oldRecs key = Some a" for a
    using existing_slice(2) [OF wf old that] by (simp add: getSlice_def)
  then have ex: "(case fmlookup oldRecs key of None \<Rightarrow> [] | Some a \<Rightarrow> getSlice ?h1 a) =
      rrset (records_of (zones (absStore h)) apex) key"
    unfolding existing_slice(1) [OF wf old, symmetric] rrset_def
    by (simp split: option.splits)
  show ?thesis
    unfolding PutRecord_h_def Let_def
    by (simp add: alloc_def store_obj_def grown_def getMap_def soa ex flip: old key)
qed

lemma PutRecord_h_refines:
  assumes "heap_wf h"
  shows "extends h (PutRecord_h apex rec h) \<and> heap_wf (PutRecord_h apex rec h) \<and>
    absStore (PutRecord_h apex rec h) = snd (PutRecord (absStore h) apex rec)"
proof -
  define oldRecs where "oldRecs = (case fmlookup (zone_ptrs h) apex of None \<Rightarrow> fmempty
           | Some p \<Rightarrow> getMap h (zo_Records (getZone h p)))"
  define key where "key = rkey (r_Name rec) (r_Type rec)"
  define recs where "recs = records_of (zones (absStore h)) apex"
  note old = existing_slice [OF assms oldRecs_def]
  have lk: "fmlookup recs k = map_option (getSlice h) (fmlookup oldRecs k)" for k
    by (simp add: recs_def old(1) [symmetric])
  note pub = publish_map [OF assms refl, where
      fresh = "[Suc (next_addr h) \<mapsto> OSlice (putSlice rec (rrset recs key))]"
      and m = "fmupd key (Suc (next_addr h)) oldRecs" and pz = "Suc (Suc (next_addr h))"
      and nx = "Suc (Suc (Suc (next_addr h)))"
      and recs = "fmupd key (putSlice rec (rrset recs key)) recs" and apex = apex
      and soa = "Option.bind (fmlookup (zones (absStore h)) apex) z_SOA"]
  note eq = PutRecord_h_grown [OF assms oldRecs_def key_def, folded recs_def]
  have slices: "\<exists>rs. (heap h ++ [Suc (next_addr h) \<mapsto> OSlice (putSlice rec (rrset recs key))]) a =
        Some (OSlice rs) \<and> a \<noteq> next_addr h \<and> a < Suc (Suc (next_addr h)) \<and>
        fmlookup (fmupd key (putSlice rec (rrset recs key)) recs) k = Some rs"
    if "fmlookup (fmupd key (Suc (next_addr h)) oldRecs) k = Some a" for k a
    using that old(2) [of k a] lk [of k] by (auto split: if_splits)
  have dom: "fmlookup (fmupd key (putSlice rec (rrset recs key)) recs) k = None"
    if "fmlookup (fmupd key (Suc (next_addr h)) oldRecs) k = None" for k
    using that lk [of k] by (auto split: if_splits)
  have pz: "next_addr h < Suc (Suc (next_addr h))"
    and nx: "Suc (Suc (Suc (next_addr h))) = Suc (Suc (next_addr h)) + 1" by simp_all
  have fresh: "next_addr h < a \<and> a < Suc (Suc (next_addr h))"
    if "[Suc (next_addr h) \<mapsto> OSlice (putSlice rec (rrset recs key))] a = Some x" for a x
    using that by (auto split: if_splits)
  note pub' = pub [OF pz nx fresh slices dom, folded eq]
  then show ?thesis by (simp add: PutRecord_eq Let_def recs_def key_def)
qed

lemma readMap_records:
  "fmlookup (zone_ptrs h) apex = Some p \<Longrightarrow>
     readMap h (zo_Records (getZone h p)) = records_of (zones (absStore h)) apex"
  by (simp add: records_of_def absStore_def readZone_def)

text \<open>\<open>DropRecord\<close> of a record that was found, at index \<open>i\<close> of the rrset \<open>k\<close>.\<close>

lemma DropRecord_h_found:
  fixes h apex p
  defines "recs \<equiv> records_of (zones (absStore h)) apex"
    and "n \<equiv> next_addr h" and "oldRecs \<equiv> getMap h (zo_Records (getZone h p))"
  assumes p: "fmlookup (zone_ptrs h) apex = Some p"
    and f: "findRecord recs rid (ord rid recs) = Some (k, i)"
  shows "length (rrset recs k) = 1 \<Longrightarrow> DropRecord_h ord apex rid h = grown h apex
      ((heap h ++ Map.empty)(n \<mapsto> OMap (fmdrop k oldRecs),
         Suc n \<mapsto> OZone \<lparr>zo_Name = apex, zo_Records = n, zo_SOA = zo_SOA (getZone h p)\<rparr>))
      (Suc (Suc n)) (Suc n)"
    and "length (rrset recs k) \<noteq> 1 \<Longrightarrow> DropRecord_h ord apex rid h = grown h apex
      ((heap h ++ [Suc n \<mapsto> OSlice (take i (rrset recs k) @ drop (Suc i) (rrset recs k))])
        (n \<mapsto> OMap (fmupd k (Suc n) oldRecs),
         Suc (Suc n) \<mapsto> OZone \<lparr>zo_Name = apex, zo_Records = n, zo_SOA = zo_SOA (getZone h p)\<rparr>))
      (Suc (Suc (Suc n))) (Suc (Suc n))"
  using p f unfolding DropRecord_h_def
  by (simp_all add: readMap_records recs_def n_def oldRecs_def alloc_def store_obj_def grown_def
      getMap_def Let_def)

lemma DropRecord_h_refines:
  assumes "heap_wf h"
  shows "extends h (DropRecord_h ord apex rid h) \<and> heap_wf (DropRecord_h ord apex rid h) \<and>
    absStore (DropRecord_h ord apex rid h) = snd (DropRecord ord (absStore h) apex rid)"
proof (cases "fmlookup (zone_ptrs h) apex")
  case None
  then show ?thesis using assms by (simp add: DropRecord_h_def DropRecord_def absStore_def)
next
  case (Some p)
  define oldRecs where "oldRecs = getMap h (zo_Records (getZone h p))"
  define recs where "recs = records_of (zones (absStore h)) apex"
  have oldRecs: "oldRecs = (case fmlookup (zone_ptrs h) apex of None \<Rightarrow> fmempty
           | Some p \<Rightarrow> getMap h (zo_Records (getZone h p)))"
    using Some by (simp add: oldRecs_def)
  note old = existing_slice [OF assms oldRecs]
  have lk: "fmlookup recs k = map_option (getSlice h) (fmlookup oldRecs k)" for k
    by (simp add: recs_def old(1) [symmetric])
  have zone: "fmlookup (zones (absStore h)) apex = Some (readZone h p)" "z_Records (readZone h p) = recs"
    "z_SOA (readZone h p) = zo_SOA (getZone h p)"
    using Some by (simp_all add: recs_def absStore_def records_of_def readZone_def)
  show ?thesis
  proof (cases "findRecord recs rid (ord rid recs)")
    case None
    then show ?thesis
      using assms zone Some by (simp add: DropRecord_h_def DropRecord_def readMap_records recs_def)
  next
    case found: (Some ki)
    obtain k i where ki: "findRecord recs rid (ord rid recs) = Some (k, i)"
      using found by (cases ki) simp
    have abs: "snd (DropRecord ord (absStore h) apex rid) = \<lparr>zones = fmupd apex
        \<lparr>z_Name = apex, z_Records = removeAt recs k i, z_SOA = zo_SOA (getZone h p)\<rparr>
        (zones (absStore h))\<rparr>"
      using zone ki by (simp add: DropRecord_def)
    note eq = DropRecord_h_found [OF Some, where ord = ord and rid = rid and k = k and i = i,
        folded recs_def oldRecs_def, OF ki]
    show ?thesis
    proof (cases "length (rrset recs k) = 1")
      case True
      show ?thesis
        unfolding eq(1) [OF True] abs using old(2) lk True
        by (intro publish_map [OF assms refl]) (force simp: removeAt_lookup split: if_splits)+
    next
      case False
      show ?thesis
        unfolding eq(2) [OF False] abs using old(2) lk False
        by (intro publish_map [OF assms refl]) (force simp: removeAt_lookup split: if_splits)+
    qed
  qed
qed

lemma Update_h_refines:
  assumes "heap_wf h" and "zone_at h p"
  shows "extends h (Update_h p h) \<and> heap_wf (Update_h p h) \<and>
    absStore (Update_h p h) = snd (Update (absStore h) (readZone h p))"
proof -
  let ?h' = "h\<lparr>zone_ptrs := fmupd (zo_Name (getZone h p)) p (zone_ptrs h)\<rparr>"
  have ext: "extends h ?h'" by (simp add: extends_def)
  have "readZone ?h' p = readZone h p" using extends_readZone [OF ext assms(2)] .
  moreover have "heap_wf ?h'"
    using heap_wf_publish [OF assms(1) ext _ extends_zone_at [OF ext assms(2)]] assms(1)
    by (simp add: heap_wf_def)
  ultimately show ?thesis
    using ext absStore_publish [OF assms(1) ext] by (simp add: Update_h_def Update_def readZone_def)
qed

lemma Delete_h_refines:
  assumes "heap_wf h"
  shows "extends h (Delete_h apex h) \<and> heap_wf (Delete_h apex h) \<and>
    absStore (Delete_h apex h) = snd (Delete (absStore h) apex)"
proof -
  let ?h' = "h\<lparr>zone_ptrs := fmdrop apex (zone_ptrs h)\<rparr>"
  have ext: "extends h ?h'" by (simp add: extends_def)
  have at: "zone_at h p" if "fmlookup (zone_ptrs h) a = Some p" for a p
    using assms that by (simp add: heap_wf_def)
  have "fmmap (readZone ?h') (zone_ptrs h) = fmmap (readZone h) (zone_ptrs h)"
    using extends_readZone [OF ext] at by (intro fmmap_cong_on) blast
  then have "absStore ?h' = (absStore h)\<lparr>zones := fmdrop apex (zones (absStore h))\<rparr>"
    by (simp add: absStore_def fmap_ext_iff)
  moreover have "heap_wf ?h'"
    using assms extends_zone_at [OF ext] at by (auto simp: heap_wf_def)
  ultimately show ?thesis
    using ext assms by (simp add: Delete_h_def Delete_def absStore_def split: option.splits)
qed

section \<open>Interleaved readers\<close>

text \<open>The steps writers take while a reader holds a pointer: the store's writes, and callers that
  build new objects, such as the zone they pass to \<open>Update\<close>.\<close>

inductive heap_step :: "heap_store \<Rightarrow> heap_store \<Rightarrow> bool" where
  alloc_step: "heap_step h (snd (alloc x h))"
| update_step: "zone_at h p \<Longrightarrow> heap_step h (Update_h p h)"
| delete_step: "heap_step h (Delete_h apex h)"
| put_step: "heap_step h (PutRecord_h apex rec h)"
| drop_step: "heap_step h (DropRecord_h ord apex rid h)"

lemma alloc_extends:
  assumes "heap_wf h" shows "extends h (snd (alloc x h)) \<and> heap_wf (snd (alloc x h))"
proof -
  have "heap h (next_addr h) = None" using assms by (simp add: heap_wf_def)
  then have ext: "extends h (snd (alloc x h))" by (auto simp: extends_def alloc_def)
  then show ?thesis
    using assms extends_zone_at [OF ext] by (auto simp: heap_wf_def alloc_def)
qed

lemma heap_step_extends: "heap_step h h' \<Longrightarrow> heap_wf h \<Longrightarrow> extends h h' \<and> heap_wf h'"
  by (induction rule: heap_step.induct)
    (use alloc_extends Update_h_refines Delete_h_refines PutRecord_h_refines DropRecord_h_refines
     in blast)+

lemma heap_run_extends: "heap_step\<^sup>*\<^sup>* h h' \<Longrightarrow> heap_wf h \<Longrightarrow> extends h h' \<and> heap_wf h'"
  by (induction rule: rtranclp_induct) (auto dest: heap_step_extends intro: extends_trans)

definition empty_heap :: heap_store where
  "empty_heap = \<lparr>heap = (\<lambda>_. None), next_addr = 0, zone_ptrs = fmempty\<rparr>"

lemma heap_wf_empty: "heap_wf empty_heap"
  by (simp add: heap_wf_def empty_heap_def)

section \<open>Properties\<close>

text \<open>
  C3: copy-on-write. A reader that took the pointer to a zone out of the store sees through it the
  same zone, with the same records, after any number of writes by others (\<open>PutRecord\<close>, \<open>DropRecord\<close>,
  \<open>Update\<close>, \<open>Delete\<close> and allocations, in any interleaving), also when the zone has been replaced or
  deleted in the meantime.
\<close>

theorem published_zone_immutable:
  assumes "heap_wf h" and "fmlookup (zone_ptrs h) apex = Some p" and "heap_step\<^sup>*\<^sup>* h h'"
  shows "readZone h' p = readZone h p"
proof -
  have "extends h h'" using heap_run_extends [OF assms(3,1)] by blast
  moreover have "zone_at h p" using assms(1,2) by (simp add: heap_wf_def)
  ultimately show ?thesis by (rule extends_readZone)
qed

theorem published_zone_immutable_witness:
  "readZone (Delete_h ''b.'' (PutRecord_h ''b.'' (demo_rec\<lparr>r_ID := 8\<rparr>) (PutRecord_h ''b.'' demo_rec empty_heap))) 2 =
   \<lparr>z_Name = ''b.'', z_Records = fmupd (rkey ''w.b.'' 1) [demo_rec] fmempty, z_SOA = None\<rparr>"
proof -
  let ?h = "PutRecord_h ''b.'' demo_rec empty_heap"
  let ?h' = "Delete_h ''b.'' (PutRecord_h ''b.'' (demo_rec\<lparr>r_ID := 8\<rparr>) ?h)"
  have wf: "heap_wf ?h" using PutRecord_h_refines [OF heap_wf_empty] by blast
  have h: "fmlookup (zone_ptrs ?h) ''b.'' = Some 2" "readZone ?h 2 =
      \<lparr>z_Name = ''b.'', z_Records = fmupd (rkey ''w.b.'' 1) [demo_rec] fmempty, z_SOA = None\<rparr>"
    by (simp_all add: PutRecord_h_def empty_heap_def alloc_def store_obj_def getMap_def getSlice_def
        readZone_def readMap_def getZone_def putSlice_def demo_rec_def fmap_ext_iff)
  have "heap_step\<^sup>*\<^sup>* ?h ?h'"
    by (rule converse_rtranclp_into_rtranclp, rule put_step, rule r_into_rtranclp, rule delete_step)
  then show ?thesis using published_zone_immutable [OF wf h(1)] h(2) by simp
qed

text \<open>
  C5: refinement. On a well-formed heap each pointer-level write keeps the heap well-formed, keeps
  every existing object, and, read through the pointers, is the functional write of \<open>Zone_Store\<close>.
\<close>

theorem heap_writes_refine:
  assumes "heap_wf h"
  shows "absStore (PutRecord_h apex rec h) = snd (PutRecord (absStore h) apex rec) \<and>
    absStore (DropRecord_h ord apex rid h) = snd (DropRecord ord (absStore h) apex rid) \<and>
    absStore (Delete_h apex h) = snd (Delete (absStore h) apex) \<and>
    (zone_at h p \<longrightarrow> absStore (Update_h p h) = snd (Update (absStore h) (readZone h p))) \<and>
    heap_wf (PutRecord_h apex rec h) \<and> heap_wf (DropRecord_h ord apex rid h) \<and>
    heap_wf (Delete_h apex h)"
  using PutRecord_h_refines [OF assms] DropRecord_h_refines [OF assms] Delete_h_refines [OF assms]
    Update_h_refines [OF assms] by simp

theorem heap_writes_refine_witness:
  "absStore (PutRecord_h ''b.'' demo_rec empty_heap) = snd (PutRecord (absStore empty_heap) ''b.'' demo_rec)"
  using heap_writes_refine [OF heap_wf_empty] by simp

end
