(* ===== verification/DNS_Handler.thy ===== *)
theory DNS_Handler
  imports Zone_Store Complex_Main "HOL-Library.Sublist"
begin

text \<open>
  \<^verbatim>\<open>internal/dns/handler.go\<close>: the authoritative query handler. The handler is generic in the
  store and the weight provider it is wired with, as the Go code is (\<open>'s ZoneStore\<close>,
  \<open>'w WeightProvider\<close>).

  What the environment decides is an argument: \<open>obs i\<close> is the state of the store at the handler's
  \<open>i\<close>-th store call (writers may run between two calls, each of which takes the lock anew),
  \<open>intn n\<close> is the value \<^verbatim>\<open>rand.Intn(n)\<close> returns, \<open>u\<close> that of \<^verbatim>\<open>rand.Float64()\<close>, \<open>wr i\<close> tells
  whether the \<open>i\<close>-th \<^verbatim>\<open>WriteMsg\<close> succeeds, \<open>tcp\<close> whether the client came over TCP, and \<open>ord\<close>
  the order in which the record map of the transferred zone is ranged over. Logging and the
  latency histogram are left out; the query counter is \<open>sr_metrics\<close>.
\<close>

record ('s, 'w) Handler =
  hd_store :: "'s ZoneStore"
  hd_weights :: "'w WeightProvider"
  hd_syncer :: bool
  hd_prob :: rat

definition axfrBatchSize :: nat where
  "axfrBatchSize = 500"

section \<open>Weighted selection\<close>

definition Intn :: "(int \<Rightarrow> int) \<Rightarrow> int \<Rightarrow> int outcome" where
  "Intn intn n = (if n \<le> 0 then Panics ''invalid argument to Intn'' else Returns (intn n))"

definition effectiveWeight :: "weights option \<Rightarrow> Record \<Rightarrow> int" where
  "effectiveWeight dynWeights r =
     (let w = (case dynWeights of
                 None \<Rightarrow> r_Weight r
               | Some dw \<Rightarrow> (case fmlookup dw (r_Value r) of Some w \<Rightarrow> w | None \<Rightarrow> r_Weight r))
      in if w \<le> 0 then 1 else w)"

definition totalWeight :: "int list \<Rightarrow> int" where
  "totalWeight ws = foldl (\<lambda>total w. wrap64 (total + w)) 0 ws"

fun pickLoop :: "int \<Rightarrow> int list \<Rightarrow> nat \<Rightarrow> nat option" where
  "pickLoop n [] i = None"
| "pickLoop n (w # ws) i =
     (let n' = wrap64 (n - w) in if n' < 0 then Some i else pickLoop n' ws (i + 1))"

definition pick :: "'w WeightProvider \<Rightarrow> (int \<Rightarrow> int) \<Rightarrow> 'w \<Rightarrow> Record list \<Rightarrow> string \<Rightarrow> u16 \<Rightarrow> IP option \<Rightarrow>
    (Record \<times> 'w) outcome" where
  "pick P intn w records fqdn qtype clientIP =
     (if length records = 1 then Returns (records ! 0, w)
      else
        (let (dynWeights, w') = GetWeights_m P w fqdn qtype clientIP;
             ws = map (effectiveWeight dynWeights) records
         in bind_outcome (Intn intn (totalWeight ws))
              (\<lambda>n. case pickLoop n ws 0 of
                     Some i \<Rightarrow> Returns (records ! i, w')
                   | None \<Rightarrow> Returns (records ! (length records - 1), w'))))"

section \<open>Building the reply\<close>

definition addAnswers :: "'w WeightProvider \<Rightarrow> (int \<Rightarrow> int) \<Rightarrow> 'w \<Rightarrow> Msg \<Rightarrow> Record list \<Rightarrow> string \<Rightarrow> u16 \<Rightarrow>
    IP option \<Rightarrow> (Msg \<times> 'w) outcome" where
  "addAnswers P intn w m records fqdn qtype clientIP =
     (if qtype = TypeA \<or> qtype = TypeAAAA then
        bind_outcome (pick P intn w records fqdn qtype clientIP)
          (\<lambda>(rec, w'). case r_RR rec of
             None \<Rightarrow> Returns (m, w')
           | Some rr \<Rightarrow> Returns (m\<lparr>m_Answer := m_Answer m @ [rr]\<rparr>, w'))
      else Returns (m\<lparr>m_Answer := m_Answer m @ List.map_filter r_RR records\<rparr>, w))"

definition syntheticSOA :: "Zone \<Rightarrow> RR" where
  "syntheticSOA zone =
     (case z_SOA zone of
        Some soa \<Rightarrow> RR_SOA soa
      | None \<Rightarrow> RR_SOA \<lparr>soa_Hdr = \<lparr>h_Name = z_Name zone, h_Rrtype = TypeSOA, h_Class = ClassINET, h_Ttl = 300\<rparr>,
          soa_Ns = ''ns1.'' @ z_Name zone, soa_Mbox = ''hostmaster.'' @ z_Name zone,
          soa_Serial = 1, soa_Refresh = 3600, soa_Retry = 900, soa_Expire = 604800, soa_Minttl = 300\<rparr>)"

definition addSOA :: "Msg \<Rightarrow> Zone \<Rightarrow> Msg" where
  "addSOA m zone = m\<lparr>m_Ns := m_Ns m @ [syntheticSOA zone]\<rparr>"

text \<open>The target of the first CNAME record, empty when its RR is no CNAME.\<close>

definition cnameTarget :: "Record \<Rightarrow> string" where
  "cnameTarget cn = (case r_RR cn of Some (RR_CNAME h target) \<Rightarrow> target | _ \<Rightarrow> '''')"

definition handleQuery :: "mdns_lib \<Rightarrow> ('s, 'w) Handler \<Rightarrow> (int \<Rightarrow> int) \<Rightarrow> (nat \<Rightarrow> 's) \<Rightarrow> 'w \<Rightarrow>
    Msg \<Rightarrow> Msg \<Rightarrow> Question \<Rightarrow> IP option \<Rightarrow> (Msg \<times> 'w) outcome" where
  "handleQuery L H intn obs w m r q clientIP =
     (let S = hd_store H; name = q_Name q; qtype = q_Qtype q in
      if qtype = TypeANY then
        Returns (m\<lparr>m_Answer := m_Answer m @
          [RR_HINFO \<lparr>h_Name = name, h_Rrtype = TypeHINFO, h_Class = ClassINET, h_Ttl = 60\<rparr> ''RFC8482'' '''']\<rparr>, w)
      else
        (let records = Lookup_m S (obs 0) name qtype in
         if records \<noteq> [] then addAnswers (hd_weights H) intn w m records name qtype clientIP
         else
           (let cnames = (if qtype = TypeCNAME then [] else Lookup_m S (obs 1) name TypeCNAME) in
            case cnames of
              cn # _ \<Rightarrow>
                (let m1 = (case r_RR cn of None \<Rightarrow> m | Some rr \<Rightarrow> m\<lparr>m_Answer := m_Answer m @ [rr]\<rparr>);
                     target = cnameTarget cn;
                     targeted = (if target = '''' then [] else Lookup_m S (obs 2) target qtype)
                 in if targeted \<noteq> [] then
                      addAnswers (hd_weights H) intn w m1 targeted target qtype clientIP
                    else Returns (m1, w))
            | [] \<Rightarrow>
                (case FindZone_m S (obs 3) name of
                   None \<Rightarrow> Returns (SetRcode L m r RcodeRefused, w)
                 | Some zone \<Rightarrow>
                     if NameExists_m S (obs 4) name
                     then Returns (addSOA (SetRcode L m r RcodeSuccess) zone, w)
                     else Returns (addSOA (SetRcode L m r RcodeNameError) zone, w)))))"

section \<open>Zone transfer\<close>

definition axfrMsg :: "mdns_lib \<Rightarrow> Msg \<Rightarrow> RR list \<Rightarrow> Msg" where
  "axfrMsg L r rrs = (SetReply L new_Msg r)\<lparr>m_Authoritative := True, m_Answer := rrs\<rparr>"

text \<open>
  The record loop: the batch being filled and the messages passed to \<open>WriteMsg\<close> so far; the first
  component is False when a write failed and the transfer stopped. The two nested loops of the source
  visit the records of the rrsets one after the other, here one list.
\<close>

fun axfrLoop :: "(nat \<Rightarrow> bool) \<Rightarrow> (RR list \<Rightarrow> Msg) \<Rightarrow> Record list \<Rightarrow> RR list \<Rightarrow> Msg list \<Rightarrow>
    bool \<times> RR list \<times> Msg list" where
  "axfrLoop wr mk [] batch sent = (True, batch, sent)"
| "axfrLoop wr mk (rec # recs) batch sent =
     (case r_RR rec of
        None \<Rightarrow> axfrLoop wr mk recs batch sent
      | Some rr \<Rightarrow>
          (let batch' = batch @ [rr] in
           if axfrBatchSize \<le> length batch' then
             (if wr (length sent) then axfrLoop wr mk recs [] (sent @ [mk batch'])
              else (False, [], sent @ [mk batch']))
           else axfrLoop wr mk recs batch' sent))"

definition serveAXFR :: "mdns_lib \<Rightarrow> ('s, 'w) Handler \<Rightarrow> (nat \<Rightarrow> bool) \<Rightarrow> bool \<Rightarrow> (Records \<Rightarrow> RecordKey list) \<Rightarrow>
    's \<Rightarrow> Msg \<Rightarrow> string \<Rightarrow> Msg list" where
  "serveAXFR L H wr tcp ord s r name =
     (if \<not> tcp then [SetRcode L new_Msg r RcodeRefused]
      else
        (case FindZone_m (hd_store H) s name of
           None \<Rightarrow> [SetRcode L new_Msg r RcodeRefused]
         | Some zone \<Rightarrow>
             (let soaRR = syntheticSOA zone; open_msg = axfrMsg L r [soaRR] in
              if \<not> wr 0 then [open_msg]
              else
                (let recs = z_Records zone;
                     (ok, batch, sent) =
                       axfrLoop wr (axfrMsg L r) (concat (map (rrset recs) (ord recs))) [] [open_msg]
                 in if \<not> ok then sent
                    else if batch = [] then sent @ [axfrMsg L r [soaRR]]
                    else if \<not> wr (length sent) then sent @ [axfrMsg L r batch]
                    else sent @ [axfrMsg L r batch, axfrMsg L r [soaRR]]))))"

section \<open>The server's entry point\<close>

text \<open>The loop over the options of the client's OPT record stops at the first subnet option.\<close>

fun firstSubnet :: "EDNS0 list \<Rightarrow> SUBNET option" where
  "firstSubnet [] = None"
| "firstSubnet (EDNS0_SUBNET ecs # os) = Some ecs"
| "firstSubnet (EDNS0_other c d # os) = firstSubnet os"

definition reflectEdns :: "mdns_lib \<Rightarrow> Msg \<Rightarrow> Msg \<Rightarrow> Msg \<times> IP option" where
  "reflectEdns L r m =
     (case m_Edns r of
        None \<Rightarrow> (m, None)
      | Some opt \<Rightarrow>
          (let m1 = SetEdns0 L m 4096 False in
           case firstSubnet (o_Option opt) of
             None \<Rightarrow> (m1, None)
           | Some ecs \<Rightarrow>
               (m1\<lparr>m_Edns := map_option (\<lambda>mo. mo\<lparr>o_Option := o_Option mo @
                  [EDNS0_SUBNET \<lparr>s_Code = EDNS0SUBNET, s_Family = s_Family ecs,
                     s_SourceNetmask = s_SourceNetmask ecs, s_SourceScope = 0,
                     s_Address = s_Address ecs\<rparr>]\<rparr>) (m_Edns m1)\<rparr>,
                Some (s_Address ecs))))"

record 'w ServeResult =
  sr_written :: "Msg list"
  sr_trigger :: bool
  sr_metrics :: "(string \<times> string) list"
  sr_weights :: 'w

definition ServeDNS :: "mdns_lib \<Rightarrow> ('s, 'w) Handler \<Rightarrow> (int \<Rightarrow> int) \<Rightarrow> rat \<Rightarrow> (nat \<Rightarrow> bool) \<Rightarrow> bool \<Rightarrow>
    (Records \<Rightarrow> RecordKey list) \<Rightarrow> (nat \<Rightarrow> 's) \<Rightarrow> 'w \<Rightarrow> Msg \<Rightarrow> 'w ServeResult outcome" where
  "ServeDNS L H intn u wr tcp ord obs w r =
     (case m_Question r of
        [] \<Rightarrow> Returns \<lparr>sr_written = [SetRcode L new_Msg r RcodeFormatError], sr_trigger = False,
                sr_metrics = [], sr_weights = w\<rparr>
      | q # _ \<Rightarrow>
          (let trigger = hd_syncer H \<and> 0 < hd_prob H \<and> u < hd_prob H in
           if q_Qtype q = TypeAXFR \<or> q_Qtype q = TypeIXFR then
             Returns \<lparr>sr_written = serveAXFR L H wr tcp ord (obs 0) r (q_Name q), sr_trigger = trigger,
                sr_metrics = [], sr_weights = w\<rparr>
           else
             (let m0 = (SetReply L new_Msg r)\<lparr>m_Authoritative := True, m_RecursionAvailable := False\<rparr>;
                  (m1, clientIP) = reflectEdns L r m0
              in bind_outcome (handleQuery L H intn obs w m1 r q clientIP)
                   (\<lambda>(m, w'). Returns \<lparr>sr_written = [m], sr_trigger = trigger,
                      sr_metrics = [(TypeToString L (q_Qtype q), RcodeToString L (m_Rcode m))],
                      sr_weights = w'\<rparr>))))"

section \<open>Lemmas on the selection\<close>

lemma effectiveWeight_pos: "1 \<le> effectiveWeight dyn r"
  by (simp add: effectiveWeight_def Let_def split: option.splits)

lemma totalWeight_acc:
  "0 \<le> t \<Longrightarrow> \<forall>w \<in> set ws. 0 \<le> w \<Longrightarrow> t + sum_list ws < 2 ^ 63 \<Longrightarrow>
     foldl (\<lambda>total w. wrap64 (total + w)) t ws = t + sum_list ws"
proof (induction ws arbitrary: t)
  case (Cons w ws)
  have "0 \<le> sum_list ws" using Cons.prems(2) by (intro sum_list_nonneg) simp
  then have "wrap64 (t + w) = t + w" using Cons.prems by (intro wrap64_id) (simp add: is_int64_def)
  then show ?case using Cons.IH [of "t + w"] Cons.prems by (simp add: add.assoc)
qed simp

lemma totalWeight_sum:
  "\<forall>w \<in> set ws. 0 \<le> w \<Longrightarrow> sum_list ws < 2 ^ 63 \<Longrightarrow> totalWeight ws = sum_list ws"
  using totalWeight_acc [of 0 ws] by (simp add: totalWeight_def)

lemma pickLoop_bound: "pickLoop n ws i = Some j \<Longrightarrow> i \<le> j \<and> j < i + length ws"
proof (induction ws arbitrary: n i)
  case (Cons w ws)
  show ?case
  proof (cases "wrap64 (n - w) < 0")
    case False
    then have "pickLoop (wrap64 (n - w)) ws (Suc i) = Some j" using Cons.prems by simp
    from Cons.IH [OF this] show ?thesis by simp
  qed (use Cons.prems in simp)
qed simp

text \<open>The loop finds the record whose share of \<open>[0, total)\<close> the drawn number lies in.\<close>

lemma pickLoop_share:
  "\<forall>w \<in> set ws. 1 \<le> w \<and> w < 2 ^ 63 \<Longrightarrow> 0 \<le> n \<Longrightarrow> n < sum_list ws \<Longrightarrow> n < 2 ^ 63 \<Longrightarrow>
     \<exists>j < length ws. pickLoop n ws i = Some (i + j) \<and>
       sum_list (take j ws) \<le> n \<and> n < sum_list (take (Suc j) ws)"
proof (induction ws arbitrary: n i)
  case (Cons w ws)
  then have w: "wrap64 (n - w) = n - w" by (intro wrap64_id) (simp add: is_int64_def)
  show ?case
  proof (cases "n - w < 0")
    case True
    then show ?thesis using w Cons.prems by (intro exI [of _ 0]) simp
  next
    case False
    then obtain j where "j < length ws" "pickLoop (n - w) ws (i + 1) = Some (i + 1 + j)"
      "sum_list (take j ws) \<le> n - w" "n - w < sum_list (take (Suc j) ws)"
      using Cons.IH [of "n - w" "i + 1"] Cons.prems by auto
    then show ?thesis using w False by (intro exI [of _ "Suc j"]) simp
  qed
qed simp

lemma share_unique:
  fixes ws :: "int list"
  assumes "\<forall>w \<in> set ws. 0 \<le> w"
    and "sum_list (take i ws) \<le> n" "n < sum_list (take (Suc i) ws)"
    and "sum_list (take j ws) \<le> n" "n < sum_list (take (Suc j) ws)"
  shows "i = j"
proof (rule ccontr)
  assume "i \<noteq> j"
  then consider "Suc i \<le> j" | "Suc j \<le> i" by linarith
  then show False
    using sum_list_pos_mono [OF assms(1)] assms(2-5) by cases (meson leD order_trans)+
qed

lemma share_le_sum:
  fixes ws :: "int list"
  assumes "\<forall>w \<in> set ws. 0 \<le> w" and "i < length ws"
  shows "sum_list (take (Suc i) ws) \<le> sum_list ws"
  using sum_list_pos_mono [OF assms(1), of "Suc i" "length ws"] assms(2) by simp

text \<open>\<open>pick\<close> with a drawn number: which record it returns.\<close>

lemma pick_eq:
  assumes "length records \<noteq> 1" and "GetWeights_m P w fqdn qtype ip = (dyn, w')"
    and "sum_list (map (effectiveWeight dyn) records) < 2 ^ 63" and "i < length records"
    and "0 \<le> n" and "n < sum_list (map (effectiveWeight dyn) records)"
  shows "\<exists>j < length records. pick P (\<lambda>_. n) w records fqdn qtype ip = Returns (records ! j, w') \<and>
    sum_list (take j (map (effectiveWeight dyn) records)) \<le> n \<and>
    n < sum_list (take (Suc j) (map (effectiveWeight dyn) records))"
proof -
  let ?ws = "map (effectiveWeight dyn) records"
  have pos: "\<forall>w \<in> set ?ws. 1 \<le> w" by (simp add: effectiveWeight_pos)
  then have nn: "\<forall>w \<in> set ?ws. 0 \<le> w" by force
  have "\<forall>w \<in> set ?ws. 1 \<le> w \<and> w < 2 ^ 63"
    using pos mem_le_sum_list [OF nn] assms(3) by (meson le_less_trans)
  then obtain j where j: "j < length ?ws" "pickLoop n ?ws 0 = Some j"
    "sum_list (take j ?ws) \<le> n" "n < sum_list (take (Suc j) ?ws)"
    using pickLoop_share [of ?ws n 0] assms(3,5,6) by fastforce
  have "totalWeight ?ws = sum_list ?ws" using totalWeight_sum [OF nn assms(3)] .
  then show ?thesis
    using j assms(1,2,5,6) by (auto simp: pick_def Intn_def)
qed

lemma pick_member:
  assumes "pick P intn w records fqdn qtype ip = Returns (rec, w')" and "records \<noteq> []"
  shows "rec \<in> set records"
proof (cases "length records = 1")
  case True
  then show ?thesis using assms by (auto simp: pick_def)
next
  case False
  obtain dyn w2 where g: "GetWeights_m P w fqdn qtype ip = (dyn, w2)" by fastforce
  have b: "j < length records" if "pickLoop n (map (effectiveWeight dyn) records) 0 = Some j" for n j
    using pickLoop_bound [OF that] by simp
  show ?thesis
    using assms False g b by (auto simp: pick_def Let_def bind_outcome_Returns split: option.splits)
qed

lemma addAnswers_frame:
  assumes "addAnswers P intn w m records fqdn qtype ip = Returns (m', w')" and "records \<noteq> []"
  shows "\<exists>rrs. m' = m\<lparr>m_Answer := m_Answer m @ rrs\<rparr> \<and>
    (\<forall>rr \<in> set rrs. \<exists>rec \<in> set records. r_RR rec = Some rr) \<and>
    (qtype = TypeA \<or> qtype = TypeAAAA \<longrightarrow> length rrs \<le> 1) \<and>
    (qtype \<noteq> TypeA \<and> qtype \<noteq> TypeAAAA \<longrightarrow> rrs = List.map_filter r_RR records)"
proof (cases "qtype = TypeA \<or> qtype = TypeAAAA")
  case True
  then obtain rec where rec: "pick P intn w records fqdn qtype ip = Returns (rec, w')"
    "(case r_RR rec of None \<Rightarrow> m | Some rr \<Rightarrow> m\<lparr>m_Answer := m_Answer m @ [rr]\<rparr>) = m'"
    using assms(1) by (auto simp: addAnswers_def bind_outcome_Returns split: option.splits)
  have mem: "rec \<in> set records" using pick_member [OF rec(1) assms(2)] .
  show ?thesis
  proof (cases "r_RR rec")
    case None
    then show ?thesis using rec(2) True by (intro exI [of _ "[]"]) auto
  next
    case (Some rr)
    then show ?thesis using rec(2) True mem by (intro exI [of _ "[rr]"]) auto
  qed
next
  case False
  then have "m' = m\<lparr>m_Answer := m_Answer m @ List.map_filter r_RR records\<rparr>"
    using assms(1) by (simp add: addAnswers_def)
  moreover have "\<forall>rr \<in> set (List.map_filter r_RR records). \<exists>rec \<in> set records. r_RR rec = Some rr"
    by (auto simp: List.map_filter_def)
  ultimately show ?thesis using False by blast
qed

section \<open>Lemmas on the transfer\<close>

lemma axfrLoop_full:
  assumes "length batch < axfrBatchSize"
  shows "\<exists>chunks batch'. axfrLoop (\<lambda>_. True) mk recs batch sent = (True, batch', sent @ map mk chunks) \<and>
    length batch' < axfrBatchSize \<and> concat chunks @ batch' = batch @ List.map_filter r_RR recs \<and>
    (\<forall>c \<in> set chunks. length c = axfrBatchSize)"
  using assms
proof (induction recs arbitrary: batch sent)
  case Nil
  show ?case
    by (rule exI [of _ "[]"], rule exI [of _ batch]) (use Nil in \<open>simp add: List.map_filter_def\<close>)
next
  case (Cons rec recs)
  show ?case
  proof (cases "r_RR rec")
    case None
    then show ?thesis using Cons.IH [OF Cons.prems, of sent] by (simp add: List.map_filter_def)
  next
    case (Some rr)
    show ?thesis
    proof (cases "axfrBatchSize \<le> length (batch @ [rr])")
      case True
      have "0 < axfrBatchSize" by (simp add: axfrBatchSize_def)
      then obtain chunks batch' where
        "axfrLoop (\<lambda>_. True) mk recs [] (sent @ [mk (batch @ [rr])]) =
           (True, batch', (sent @ [mk (batch @ [rr])]) @ map mk chunks)"
        "length batch' < axfrBatchSize" "concat chunks @ batch' = List.map_filter r_RR recs"
        "\<forall>c \<in> set chunks. length c = axfrBatchSize"
        using Cons.IH [of "[]" "sent @ [mk (batch @ [rr])]"] by auto
      then show ?thesis using True Some Cons.prems
        by (intro exI [of _ "(batch @ [rr]) # chunks"] exI [of _ batch']) (simp add: List.map_filter_def)
    next
      case False
      then obtain chunks batch' where
        "axfrLoop (\<lambda>_. True) mk recs (batch @ [rr]) sent = (True, batch', sent @ map mk chunks)"
        "length batch' < axfrBatchSize"
        "concat chunks @ batch' = (batch @ [rr]) @ List.map_filter r_RR recs"
        "\<forall>c \<in> set chunks. length c = axfrBatchSize"
        using Cons.IH [of "batch @ [rr]" sent] by fastforce
      then show ?thesis using False Some
        by (intro exI [of _ chunks] exI [of _ batch']) (simp add: List.map_filter_def)
    qed
  qed
qed

lemma axfrLoop_extends: "axfrLoop wr mk recs batch sent = (ok, b, s1) \<Longrightarrow> prefix sent s1"
proof (induction recs arbitrary: batch sent)
  case (Cons rec recs)
  then show ?case
    by (auto simp: Let_def split: option.splits if_splits dest!: Cons.IH append_prefixD)
qed simp

text \<open>With failing writes the loop sends a prefix of the full transfer and stops at the first
  write that fails.\<close>

lemma axfrLoop_stop:
  "axfrLoop wr mk recs batch sent = (ok, b, s1) \<Longrightarrow>
     axfrLoop (\<lambda>_. True) mk recs batch sent = (ok2, b2, s2) \<Longrightarrow>
     (\<forall>i < length sent. wr i) \<Longrightarrow>
     (if ok then b = b2 \<and> s1 = s2 \<and> (\<forall>i < length s1. wr i)
      else prefix s1 s2 \<and> s1 \<noteq> [] \<and> \<not> wr (length s1 - 1) \<and> (\<forall>i < length s1 - 1. wr i))"
proof (induction recs arbitrary: batch sent)
  case (Cons rec recs)
  show ?case
  proof (cases "r_RR rec")
    case (Some rr)
    let ?sent = "sent @ [mk (batch @ [rr])]"
    consider (full_ok) "axfrBatchSize \<le> Suc (length batch)" "wr (length sent)"
      | (full_fail) "axfrBatchSize \<le> Suc (length batch)" "\<not> wr (length sent)"
      | (more) "\<not> axfrBatchSize \<le> Suc (length batch)" by blast
    then show ?thesis
    proof cases
      case full_ok
      then have "\<forall>i < length ?sent. wr i" using Cons.prems(3) by (auto simp: less_Suc_eq)
      moreover have "axfrLoop wr mk recs [] ?sent = (ok, b, s1)"
        "axfrLoop (\<lambda>_. True) mk recs [] ?sent = (ok2, b2, s2)"
        using Cons.prems(1,2) full_ok Some by simp_all
      ultimately show ?thesis using Cons.IH by blast
    next
      case full_fail
      then have "axfrLoop (\<lambda>_. True) mk recs [] ?sent = (ok2, b2, s2)" "s1 = ?sent" "\<not> ok"
        using Cons.prems(1,2) Some by simp_all
      then show ?thesis using full_fail(2) Cons.prems(3) axfrLoop_extends by simp
    next
      case more
      then have "axfrLoop wr mk recs (batch @ [rr]) sent = (ok, b, s1)"
        "axfrLoop (\<lambda>_. True) mk recs (batch @ [rr]) sent = (ok2, b2, s2)"
        using Cons.prems(1,2) Some by simp_all
      then show ?thesis using Cons.IH Cons.prems(3) by blast
    qed
  next
    case None
    then have "axfrLoop wr mk recs batch sent = (ok, b, s1)"
      "axfrLoop (\<lambda>_. True) mk recs batch sent = (ok2, b2, s2)"
      using Cons.prems(1,2) by simp_all
    then show ?thesis using Cons.IH Cons.prems(3) by blast
  qed
qed simp

section \<open>Properties of the selection\<close>

text \<open>
  C4: traffic splitting is exact. With at least two distinct records, whatever the provider returns,
  and weights whose sum fits in 64 bits, the number of equally likely draws \<open>n\<close> in \<open>[0, total)\<close> for
  which \<open>pick\<close> returns the \<open>i\<close>-th record is the record's effective weight (the dynamic weight of its
  value, else its static weight, and 1 for a weight of zero or less, unlike the design document), so each record is chosen with
  probability weight / total.
\<close>

theorem pick_proportional:
  assumes "2 \<le> length records" and "distinct records"
    and "GetWeights_m P w fqdn qtype ip = (dyn, w')" and "i < length records"
    and "sum_list (map (effectiveWeight dyn) records) < 2 ^ 63"
  shows "card {n. 0 \<le> n \<and> n < sum_list (map (effectiveWeight dyn) records) \<and>
      pick P (\<lambda>_. n) w records fqdn qtype ip = Returns (records ! i, w')} =
    nat (effectiveWeight dyn (records ! i))"
proof -
  let ?ws = "map (effectiveWeight dyn) records"
  have "\<forall>w \<in> set ?ws. 1 \<le> w" by (simp add: effectiveWeight_pos)
  then have nn: "\<forall>w \<in> set ?ws. 0 \<le> w" by force
  have eq: "pick P (\<lambda>_. n) w records fqdn qtype ip = Returns (records ! i, w') \<longleftrightarrow>
      sum_list (take i ?ws) \<le> n \<and> n < sum_list (take (Suc i) ?ws)"
    if n: "0 \<le> n" "n < sum_list ?ws" for n
  proof -
    obtain j where j: "j < length records"
      "pick P (\<lambda>_. n) w records fqdn qtype ip = Returns (records ! j, w')"
      "sum_list (take j ?ws) \<le> n" "n < sum_list (take (Suc j) ?ws)"
      using pick_eq [OF _ assms(3,5,4) n] assms(1) by auto
    have "records ! j = records ! i \<longleftrightarrow> j = i"
      using assms(2,4) j(1) by (simp add: nth_eq_iff_index_eq)
    then have "pick P (\<lambda>_. n) w records fqdn qtype ip = Returns (records ! i, w') \<longleftrightarrow> j = i"
      using j(2) by simp
    also have "\<dots> \<longleftrightarrow> sum_list (take i ?ws) \<le> n \<and> n < sum_list (take (Suc i) ?ws)"
      using j(3,4) share_unique [OF nn _ _ j(3,4)] by metis
    finally show ?thesis .
  qed
  have "0 \<le> sum_list (take i ?ws)"
    using sum_list_pos_mono [OF nn, of 0 i] by simp
  moreover have "sum_list (take (Suc i) ?ws) \<le> sum_list ?ws"
    using share_le_sum [OF nn, of i] assms(4) by simp
  ultimately have "{n. 0 \<le> n \<and> n < sum_list ?ws \<and> pick P (\<lambda>_. n) w records fqdn qtype ip =
      Returns (records ! i, w')} = {sum_list (take i ?ws)..<sum_list (take (Suc i) ?ws)}"
    using eq by auto
  then show ?thesis using sum_list_take_Suc [of i ?ws] assms(4) by simp
qed

definition fixedWeights :: "weights option \<Rightarrow> unit WeightProvider" where
  "fixedWeights ws = \<lparr>GetWeights_m = (\<lambda>w fqdn qtype ip. (ws, w))\<rparr>"

definition demo_pair :: "int \<Rightarrow> int \<Rightarrow> Record list" where
  "demo_pair a b = [demo_rec\<lparr>r_Weight := a\<rparr>, demo_rec\<lparr>r_ID := 8, r_Value := ''5.6.7.8'', r_Weight := b\<rparr>]"

theorem pick_proportional_witness:
  "card {n. 0 \<le> n \<and> n < 100 \<and>
     pick (fixedWeights None) (\<lambda>_. n) () (demo_pair 70 30) ''w.b.'' 1 None =
       Returns (demo_rec\<lparr>r_Weight := 70\<rparr>, ())} = 70"
  using pick_proportional [of "demo_pair 70 30" "fixedWeights None" "()" "''w.b.''" 1 None None "()" 0]
  by (simp add: demo_pair_def demo_rec_def fixedWeights_def effectiveWeight_def)

text \<open>
  The selection does not fail while the weights fit: for a non-empty rrset whose effective
  weights sum to less than \<open>2^63\<close>, and a random source that returns a number in range, \<open>pick\<close> returns
  one of the records.
\<close>

lemma pick_safe:
  assumes "records \<noteq> []" and "GetWeights_m P w fqdn qtype ip = (dyn, w')"
    and "sum_list (map (effectiveWeight dyn) records) < 2 ^ 63"
    and "\<forall>t > 0. 0 \<le> intn t \<and> intn t < t"
  shows "\<exists>rec w''. pick P intn w records fqdn qtype ip = Returns (rec, w'') \<and> rec \<in> set records"
proof (cases "length records = 1")
  case True
  then show ?thesis using assms(1) by (simp add: pick_def)
next
  case False
  let ?ws = "map (effectiveWeight dyn) records"
  have pos: "\<forall>w \<in> set ?ws. 1 \<le> w" by (simp add: effectiveWeight_pos)
  then have nn: "\<forall>w \<in> set ?ws. 0 \<le> w" by force
  have "0 < sum_list ?ws"
    using mem_le_sum_list [OF nn, of "effectiveWeight dyn (hd records)"]
      effectiveWeight_pos [of dyn "hd records"] assms(1) by simp
  then have "totalWeight ?ws = sum_list ?ws" "0 < totalWeight ?ws"
    using totalWeight_sum [OF nn assms(3)] by simp_all
  then obtain rec w'' where "pick P intn w records fqdn qtype ip = Returns (rec, w'')"
    using assms(2) False by (cases "pickLoop (intn (totalWeight ?ws)) ?ws 0")
      (auto simp: pick_def Let_def Intn_def)
  then show ?thesis using pick_member [OF _ assms(1)] by simp
qed

lemma totalWeight_wrap: "totalWeight ws = wrap64 (sum_list ws)"
proof -
  have "foldl (\<lambda>total w. wrap64 (total + w)) (wrap64 t) ws = wrap64 (t + sum_list ws)" for t
    by (induction ws arbitrary: t) (simp_all add: wrap64_add add.assoc)
  from this [of 0] show ?thesis by (simp add: totalWeight_def is_int64_def)
qed

text \<open>
  C15: exactly when the selection panics. For an rrset that has not exactly one record, it depends on the sum of the
  effective weights alone: if the sum, taken modulo \<open>2^64\<close>, is zero or at least \<open>2^63\<close>, the total of the code is
  zero or negative and \<^verbatim>\<open>rand.Intn\<close> panics; otherwise one of the records is returned. So two 64-bit weights that
  sum to \<open>2^63\<close> or more panic, while larger sums may wrap back to a positive total. Nacos content is not bounded
  by the code, so pushed weights can do this.
\<close>

theorem pick_panics_iff:
  assumes "length records \<noteq> 1" and "GetWeights_m P w fqdn qtype ip = (dyn, w')"
  shows "if sum_list (map (effectiveWeight dyn) records) mod 2 ^ 64 \<in> insert 0 {2 ^ 63..}
    then pick P intn w records fqdn qtype ip = Panics ''invalid argument to Intn''
    else \<exists>rec \<in> set records. pick P intn w records fqdn qtype ip = Returns (rec, w')"
proof -
  let ?ws = "map (effectiveWeight dyn) records"
  have p: "pick P intn w records fqdn qtype ip = (if wrap64 (sum_list ?ws) \<le> 0 then Panics ''invalid argument to Intn''
      else Returns (case pickLoop (intn (totalWeight ?ws)) ?ws 0 of Some i \<Rightarrow> records ! i | None \<Rightarrow> records ! (length records - 1), w'))"
    using assms by (simp add: pick_def Let_def Intn_def totalWeight_wrap split: option.split)
  have "wrap64 (sum_list ?ws) \<le> 0 \<longleftrightarrow> sum_list ?ws mod 2 ^ 64 \<in> insert 0 {2 ^ 63..}" by (rule wrap64_pos)
  moreover have "records \<noteq> []" if "\<not> wrap64 (sum_list ?ws) \<le> 0" using that by (auto simp: is_int64_def)
  moreover have "rec \<in> set records" if "pick P intn w records fqdn qtype ip = Returns (rec, w')" "records \<noteq> []" for rec
    by (rule pick_member [OF that])
  ultimately show ?thesis unfolding p by auto
qed

theorem pick_panics_iff_witness:
  "pick (fixedWeights (Some (fmupd ''1.2.3.4'' (2 ^ 62) (fmupd ''5.6.7.8'' (2 ^ 62) fmempty))))
     (\<lambda>t. 0) () (demo_pair 70 30) ''w.b.'' 1 None = Panics ''invalid argument to Intn'' \<and>
   (\<exists>rec. pick (fixedWeights None) (\<lambda>t. 0) () (demo_rec\<lparr>r_Value := ''9'', r_Weight := 3\<rparr> # demo_pair (2 ^ 63 - 1) (2 ^ 63 - 1)) ''w.b.'' 1 None =
     Returns (rec, ()))"
proof
  show "pick (fixedWeights (Some (fmupd ''1.2.3.4'' (2 ^ 62) (fmupd ''5.6.7.8'' (2 ^ 62) fmempty))))
     (\<lambda>t. 0) () (demo_pair 70 30) ''w.b.'' 1 None = Panics ''invalid argument to Intn''"
    using pick_panics_iff [of "demo_pair 70 30" "fixedWeights (Some (fmupd ''1.2.3.4'' (2 ^ 62) (fmupd ''5.6.7.8'' (2 ^ 62) fmempty)))"
        "()" "''w.b.''" 1 None _ "()" "\<lambda>_. 0"]
    by (simp add: fixedWeights_def demo_pair_def demo_rec_def effectiveWeight_def)
  show "\<exists>rec. pick (fixedWeights None) (\<lambda>t. 0) () (demo_rec\<lparr>r_Value := ''9'', r_Weight := 3\<rparr> # demo_pair (2 ^ 63 - 1) (2 ^ 63 - 1)) ''w.b.'' 1 None =
     Returns (rec, ())"
    using pick_panics_iff [of "demo_rec\<lparr>r_Value := ''9'', r_Weight := 3\<rparr> # demo_pair (2 ^ 63 - 1) (2 ^ 63 - 1)" "fixedWeights None"
        "()" "''w.b.''" 1 None None "()" "\<lambda>_. 0"]
    by (auto simp: fixedWeights_def demo_pair_def demo_rec_def effectiveWeight_def)
qed

section \<open>Lemmas on the reply\<close>

text \<open>The branches of \<open>handleQuery\<close>, in the source's order.\<close>

lemma handleQuery_any:
  "q_Qtype q = TypeANY \<Longrightarrow> handleQuery L H intn obs w m r q ip =
     Returns (m\<lparr>m_Answer := m_Answer m @ [RR_HINFO \<lparr>h_Name = q_Name q, h_Rrtype = TypeHINFO,
       h_Class = ClassINET, h_Ttl = 60\<rparr> ''RFC8482'' '''']\<rparr>, w)"
  by (simp add: handleQuery_def)

lemma handleQuery_direct:
  "q_Qtype q \<noteq> TypeANY \<Longrightarrow> Lookup_m (hd_store H) (obs 0) (q_Name q) (q_Qtype q) = rs \<Longrightarrow> rs \<noteq> [] \<Longrightarrow>
     handleQuery L H intn obs w m r q ip =
       addAnswers (hd_weights H) intn w m rs (q_Name q) (q_Qtype q) ip"
  by (simp add: handleQuery_def)

definition cnameReply :: "Msg \<Rightarrow> Record \<Rightarrow> Msg" where
  "cnameReply m cn = m\<lparr>m_Answer := m_Answer m @ (case r_RR cn of None \<Rightarrow> [] | Some rr \<Rightarrow> [rr])\<rparr>"

lemma handleQuery_cname:
  assumes "q_Qtype q \<noteq> TypeANY" and "Lookup_m (hd_store H) (obs 0) (q_Name q) (q_Qtype q) = []"
    and "q_Qtype q \<noteq> TypeCNAME" and "Lookup_m (hd_store H) (obs 1) (q_Name q) TypeCNAME = cn # cns"
  shows "handleQuery L H intn obs w m r q ip =
    (let targeted = (if cnameTarget cn = '''' then []
                     else Lookup_m (hd_store H) (obs 2) (cnameTarget cn) (q_Qtype q)) in
     if targeted = [] then Returns (cnameReply m cn, w)
     else addAnswers (hd_weights H) intn w (cnameReply m cn) targeted (cnameTarget cn) (q_Qtype q) ip)"
  using assms by (cases "r_RR cn") (simp_all add: handleQuery_def cnameReply_def Let_def)

lemma handleQuery_negative:
  assumes "q_Qtype q \<noteq> TypeANY" and "Lookup_m (hd_store H) (obs 0) (q_Name q) (q_Qtype q) = []"
    and "q_Qtype q = TypeCNAME \<or> Lookup_m (hd_store H) (obs 1) (q_Name q) TypeCNAME = []"
  shows "handleQuery L H intn obs w m r q ip = Returns
    ((case FindZone_m (hd_store H) (obs 3) (q_Name q) of
        None \<Rightarrow> SetRcode L m r RcodeRefused
      | Some zone \<Rightarrow> addSOA (SetRcode L m r
          (if NameExists_m (hd_store H) (obs 4) (q_Name q) then RcodeSuccess else RcodeNameError)) zone), w)"
  using assms by (auto simp: handleQuery_def Let_def split: option.splits)

lemma handleQuery_cases:
  obtains (any) "q_Qtype q = TypeANY"
  | (direct) "q_Qtype q \<noteq> TypeANY" "Lookup_m (hd_store H) (obs 0) (q_Name q) (q_Qtype q) \<noteq> []"
  | (cname) cn cns where "q_Qtype q \<noteq> TypeANY"
      "Lookup_m (hd_store H) (obs 0) (q_Name q) (q_Qtype q) = []" "q_Qtype q \<noteq> TypeCNAME"
      "Lookup_m (hd_store H) (obs 1) (q_Name q) TypeCNAME = cn # cns"
  | (negative) "q_Qtype q \<noteq> TypeANY" "Lookup_m (hd_store H) (obs 0) (q_Name q) (q_Qtype q) = []"
      "q_Qtype q = TypeCNAME \<or> Lookup_m (hd_store H) (obs 1) (q_Name q) TypeCNAME = []"
  by (metis neq_Nil_conv)

text \<open>A positive reply only gains answers; a negative one is REFUSED or carries a SOA.\<close>

lemma addAnswers_grows:
  "addAnswers P intn w m records fqdn qtype ip = Returns (m', w') \<Longrightarrow> records \<noteq> [] \<Longrightarrow>
     \<exists>rrs. m' = m\<lparr>m_Answer := m_Answer m @ rrs\<rparr>"
  by (drule (1) addAnswers_frame) blast

lemma direct_grows:
  assumes "handleQuery L H intn obs w m r q ip = Returns (m', w')" and "q_Qtype q \<noteq> TypeANY"
    and "Lookup_m (hd_store H) (obs 0) (q_Name q) (q_Qtype q) \<noteq> []"
  shows "\<exists>rrs. m' = m\<lparr>m_Answer := m_Answer m @ rrs\<rparr>"
  by (rule addAnswers_grows [OF assms(1) [unfolded handleQuery_direct [where obs = obs,
        OF assms(2) refl assms(3)]] assms(3)])

lemma cname_grows:
  assumes "handleQuery L H intn obs w m r q ip = Returns (m', w')" and "q_Qtype q \<noteq> TypeANY"
    and "Lookup_m (hd_store H) (obs 0) (q_Name q) (q_Qtype q) = []"
    and "q_Qtype q \<noteq> TypeCNAME" and "Lookup_m (hd_store H) (obs 1) (q_Name q) TypeCNAME = cn # cns"
  shows "\<exists>rrs. m' = m\<lparr>m_Answer := m_Answer m @ rrs\<rparr>"
proof -
  define t where "t = (if cnameTarget cn = '''' then []
    else Lookup_m (hd_store H) (obs 2) (cnameTarget cn) (q_Qtype q))"
  have eq: "(if t = [] then Returns (cnameReply m cn, w)
     else addAnswers (hd_weights H) intn w (cnameReply m cn) t (cnameTarget cn) (q_Qtype q) ip) = Returns (m', w')"
    using assms(1) unfolding handleQuery_cname [where obs = obs, OF assms(2-5)] Let_def t_def [symmetric] .
  have "\<exists>rrs. m' = (cnameReply m cn)\<lparr>m_Answer := m_Answer (cnameReply m cn) @ rrs\<rparr>"
  proof (cases "t = []")
    case True
    then have "m' = cnameReply m cn" using eq by simp
    then show ?thesis by (intro exI [of _ "[]"]) (simp add: cnameReply_def)
  next
    case False
    then show ?thesis using eq addAnswers_grows [OF _ False] by simp
  qed
  then obtain rrs where "m' = (cnameReply m cn)\<lparr>m_Answer := m_Answer (cnameReply m cn) @ rrs\<rparr>" by blast
  then have "m' = m\<lparr>m_Answer := m_Answer m @ ((case r_RR cn of None \<Rightarrow> [] | Some rr \<Rightarrow> [rr]) @ rrs)\<rparr>"
    by (simp add: cnameReply_def)
  then show ?thesis by blast
qed


lemma reflectEdns_frame:
  assumes "mdns_ok L" and "reflectEdns L r m = (m', ip)"
  shows "m' = m\<lparr>m_Edns := m_Edns m'\<rparr>"
  using assms by (auto simp: reflectEdns_def Let_def split: option.splits)

text \<open>The rcode of a reply, from the store's contract: the client's part of \<open>zone_store\<close>.\<close>

context zone_store
begin

lemma lookup_found:
  assumes "invar s" and "Lookup_m I s n t \<noteq> []"
  shows "\<exists>a. covers a n \<and> fmlookup (Snapshot_m I s) a \<noteq> None"
proof -
  obtain z where "FindZone_m I s n = Some z"
    using assms(2) by (cases "FindZone_m I s n") (simp_all add: lookup_zone)
  then show ?thesis using find_Some [OF assms(1)] by fastforce
qed

lemma query_rcode:
  assumes "invar s" and "mdns_ok L" and "hd_store H = I" and "q_Qtype q \<noteq> TypeANY"
    and "m_Rcode m = RcodeSuccess"
    and ret: "handleQuery L H intn (\<lambda>_. s) w m r q ip = Returns (m', w')"
  shows "m_Rcode m' =
    (if \<forall>a. covers a (q_Name q) \<longrightarrow> fmlookup (Snapshot_m I s) a = None then RcodeRefused
     else if \<forall>t. Lookup_m I s (q_Name q) t = [] then RcodeNameError else RcodeSuccess)"
proof (cases rule: handleQuery_cases [where q = q and H = H and obs = "\<lambda>_. s"])
  case any
  then show ?thesis using assms(4) by simp
next
  case direct
  have "m_Rcode m' = RcodeSuccess" using direct_grows [OF ret direct] assms(5) by auto
  then show ?thesis
    using direct(2) lookup_found [OF assms(1), of "q_Name q" "q_Qtype q"] assms(3) by auto
next
  case (cname cn cns)
  have "m_Rcode m' = RcodeSuccess" using cname_grows [OF ret cname] assms(5) by auto
  then show ?thesis using cname(4) lookup_found [OF assms(1), of "q_Name q" TypeCNAME] assms(3) by auto
next
  case negative
  show ?thesis
  proof (cases "FindZone_m I s (q_Name q)")
    case None
    then show ?thesis
      using ret handleQuery_negative [where obs = "\<lambda>_. s", OF negative] assms(2,3) find_None [OF assms(1) None]
      by auto
  next
    case (Some z)
    then show ?thesis
      using ret handleQuery_negative [where obs = "\<lambda>_. s", OF negative] assms(2,3)
        find_Some [OF assms(1) Some] name_exists [OF assms(1), of "q_Name q"]
      by (auto simp: addSOA_def)
  qed
qed

end

text \<open>A query that is no transfer: the reply is what \<open>handleQuery\<close> makes of an empty
  authoritative reply with the client's EDNS0 options reflected.\<close>

lemma ServeDNS_query:
  assumes "ServeDNS L H intn u wr tcp ord obs w r = Returns res" and "m_Question r = q # qs"
    and "q_Qtype q \<noteq> TypeAXFR" and "q_Qtype q \<noteq> TypeIXFR" and "mdns_ok L"
  obtains m0 m ip where
    "handleQuery L H intn obs w m0 r q ip = Returns (m, sr_weights res)" "sr_written res = [m]"
    "m_Id m0 = m_Id r" "m_Response m0" "m_Question m0 = [q]" "m_Authoritative m0"
    "\<not> m_RecursionAvailable m0" "m_Rcode m0 = RcodeSuccess" "m_Answer m0 = []" "m_Ns m0 = []"
    "(m_Edns m0, ip) = (m_Edns (fst (reflectEdns L r new_Msg)), snd (reflectEdns L r new_Msg))"
proof -
  let ?m0 = "(SetReply L new_Msg r)\<lparr>m_Authoritative := True, m_RecursionAvailable := False\<rparr>"
  obtain m1 ip where e: "reflectEdns L r ?m0 = (m1, ip)" by fastforce
  have m1: "m1 = ?m0\<lparr>m_Edns := m_Edns m1\<rparr>" using reflectEdns_frame [OF assms(5) e] .
  obtain m where m: "handleQuery L H intn obs w m1 r q ip = Returns (m, sr_weights res)"
    "sr_written res = [m]"
    using assms(1-4) e by (auto simp: ServeDNS_def bind_outcome_Returns)
  have "m_Edns m1 = m_Edns (fst (reflectEdns L r new_Msg)) \<and> ip = snd (reflectEdns L r new_Msg)"
    using e assms(5) by (auto simp: reflectEdns_def Let_def new_Msg_def split: option.splits)
  moreover have "m_Id m1 = m_Id r" "m_Response m1" "m_Question m1 = [q]" "m_Authoritative m1"
    "\<not> m_RecursionAvailable m1" "m_Rcode m1 = RcodeSuccess" "m_Answer m1 = []" "m_Ns m1 = []"
    by (subst m1; simp add: assms(2,5) new_Msg_def)+
  ultimately show ?thesis using that [OF m] by simp
qed

section \<open>Properties of the replies\<close>

text \<open>
  C1: the response code. For a query that is neither ANY nor a transfer, answered while the
  store does not change, the handler sends one authoritative reply: REFUSED exactly when no stored
  zone covers the name, NXDOMAIN exactly when a zone covers it but the name has no record of any type,
  and NOERROR otherwise (an answer, a CNAME, or NODATA).
\<close>

theorem response_code:
  assumes "store_reachable s" and "mdns_ok L" and "hd_store H = RWMutexStore_iface sord"
    and "m_Question r = q # qs" and "q_Qtype q \<notin> {TypeANY, TypeAXFR, TypeIXFR}"
    and "ServeDNS L H intn u wr tcp ord (\<lambda>_. s) w r = Returns res"
  shows "\<exists>m. sr_written res = [m] \<and> m_Rcode m =
    (if \<forall>a. covers a (q_Name q) \<longrightarrow> fmlookup (zones s) a = None then RcodeRefused
     else if \<forall>t. Lookup s (q_Name q) t = [] then RcodeNameError else RcodeSuccess)"
proof -
  have q: "q_Qtype q \<noteq> TypeANY" "q_Qtype q \<noteq> TypeAXFR" "q_Qtype q \<noteq> TypeIXFR"
    using assms(5) by auto
  obtain m0 m ip where m: "handleQuery L H intn (\<lambda>_. s) w m0 r q ip = Returns (m, sr_weights res)"
    "sr_written res = [m]" "m_Rcode m0 = RcodeSuccess"
    using ServeDNS_query [OF assms(6,4) q(2,3) assms(2)] by metis
  show ?thesis
    using rw.query_rcode [OF store_reachable_wf [OF assms(1)] assms(2,3) q(1) m(3,1)] m(2)
    unfolding store_iface_simps Snapshot_def by blast
qed

definition demo_handler :: "(RWMutexStore, unit) Handler" where
  "demo_handler = \<lparr>hd_store = RWMutexStore_iface sorted_range, hd_weights = fixedWeights None,
     hd_syncer = False, hd_prob = 0\<rparr>"

definition demo_query :: "string \<Rightarrow> u16 \<Rightarrow> Msg" where
  "demo_query n t = new_Msg\<lparr>m_Id := 9, m_Question := [\<lparr>q_Name = n, q_Qtype = t, q_Qclass = 1\<rparr>]\<rparr>"

theorem response_code_witness:
  "\<exists>res m. ServeDNS demo_lib demo_handler (\<lambda>_. 0) 0 (\<lambda>_. True) False (\<lambda>_. []) (\<lambda>_. demo_store) ()
      (demo_query ''x.b.'' 1) = Returns res \<and> sr_written res = [m] \<and> m_Rcode m = RcodeNameError"
proof -
  let ?r = "demo_query ''x.b.'' 1"
  have none: "Lookup demo_store ''x.b.'' t = []" for t
    by (simp add: Lookup_def demo_store_def New_def Update_def lockedFindZone.simps)
  have zone: "fmlookup (zones demo_store) ''b.'' \<noteq> None" "covers ''b.'' ''x.b.''"
    by (simp_all add: demo_store_def New_def Update_def covers_def HasSuffix_def)
  have fz: "FindZone demo_store ''x.b.'' = Some \<lparr>z_Name = ''b.'', z_Records = fmempty, z_SOA = None\<rparr>"
    by (simp add: FindZone_def demo_store_def New_def Update_def lockedFindZone.simps)
  have ne: "\<not> NameExists demo_store ''x.b.''"
    using none NameExists_iff [OF store_reachable_wf [OF demo_store_reachable]] by simp
  obtain res where res: "ServeDNS demo_lib demo_handler (\<lambda>_. 0) 0 (\<lambda>_. True) False (\<lambda>_. [])
      (\<lambda>_. demo_store) () ?r = Returns res"
    by (simp add: ServeDNS_def demo_query_def demo_handler_def new_Msg_def qtype_defs
        reflectEdns_def handleQuery_def Let_def none fz ne)
  have h: "hd_store demo_handler = RWMutexStore_iface sorted_range" by (simp add: demo_handler_def)
  have q: "m_Question ?r = \<lparr>q_Name = ''x.b.'', q_Qtype = 1, q_Qclass = 1\<rparr> # []"
    by (simp add: demo_query_def)
  from response_code [OF demo_store_reachable demo_lib_ok h q _ res, unfolded Question.select_convs]
  obtain m where "sr_written res = [m]" "m_Rcode m =
    (if \<forall>a. covers a ''x.b.'' \<longrightarrow> fmlookup (zones demo_store) a = None then RcodeRefused
     else if \<forall>t. Lookup demo_store ''x.b.'' t = [] then RcodeNameError else RcodeSuccess)"
    by (auto simp: qtype_defs)
  then show ?thesis using res none zone by auto
qed



text \<open>
  C10: the answer of a direct hit. When the first lookup finds an rrset, the reply is NOERROR, and its
  answer section is: for A and AAAA the RR of one record of the rrset (none if that record has no
  RR); for every other type the RRs of all records, in the order of the rrset.
\<close>

theorem direct_answer:
  assumes "mdns_ok L" and "m_Question r = q # qs" and "q_Qtype q \<notin> {TypeANY, TypeAXFR, TypeIXFR}"
    and "Lookup_m (hd_store H) (obs 0) (q_Name q) (q_Qtype q) = rs" and "rs \<noteq> []"
    and "ServeDNS L H intn u wr tcp ord obs w r = Returns res"
  shows "\<exists>m. sr_written res = [m] \<and> m_Rcode m = RcodeSuccess \<and>
    (if q_Qtype q = TypeA \<or> q_Qtype q = TypeAAAA
     then \<exists>rec \<in> set rs. m_Answer m = List.map_filter r_RR [rec]
     else m_Answer m = List.map_filter r_RR rs)"
proof -
  have q: "q_Qtype q \<noteq> TypeANY" "q_Qtype q \<noteq> TypeAXFR" "q_Qtype q \<noteq> TypeIXFR"
    using assms(3) by auto
  obtain m0 m ip where m: "handleQuery L H intn obs w m0 r q ip = Returns (m, sr_weights res)"
    "sr_written res = [m]" "m_Rcode m0 = RcodeSuccess" "m_Answer m0 = []"
    using ServeDNS_query [OF assms(6,2) q(2,3) assms(1)] by metis
  have add: "addAnswers (hd_weights H) intn w m0 rs (q_Name q) (q_Qtype q) ip = Returns (m, sr_weights res)"
    using m(1) handleQuery_direct [where obs = obs, OF q(1) assms(4,5)] by simp
  show ?thesis
  proof (cases "q_Qtype q = TypeA \<or> q_Qtype q = TypeAAAA")
    case True
    then obtain rec where p: "pick (hd_weights H) intn w rs (q_Name q) (q_Qtype q) ip = Returns (rec, sr_weights res)"
      "m = m0\<lparr>m_Answer := m_Answer m0 @ List.map_filter r_RR [rec]\<rparr>"
      using add by (auto simp: addAnswers_def bind_outcome_Returns List.map_filter_def split: option.splits)
    have "rec \<in> set rs" using pick_member [OF p(1) assms(5)] .
    then show ?thesis using True p(2) m(2-4) by auto
  next
    case False
    then show ?thesis using add m(2-4) by (auto simp: addAnswers_def)
  qed
qed

theorem direct_answer_witness:
  "\<exists>res m. ServeDNS demo_lib demo_handler (\<lambda>_. 0) 0 (\<lambda>_. True) False (\<lambda>_. [])
      (\<lambda>_. snd (PutRecord New ''b.'' (demo_rec\<lparr>r_RR := Some (RR_HINFO \<lparr>h_Name = ''w.b.'', h_Rrtype = 1, h_Class = 1, h_Ttl = 0\<rparr> '''' '''')\<rparr>))) ()
      (demo_query ''w.b.'' 1) = Returns res \<and> sr_written res = [m] \<and> length (m_Answer m) = 1"
proof -
  let ?rec = "demo_rec\<lparr>r_RR := Some (RR_HINFO \<lparr>h_Name = ''w.b.'', h_Rrtype = 1, h_Class = 1, h_Ttl = 0\<rparr> '''' '''')\<rparr>"
  let ?s = "snd (PutRecord New ''b.'' ?rec)" and ?r = "demo_query ''w.b.'' 1"
  let ?q = "\<lparr>q_Name = ''w.b.'', q_Qtype = 1, q_Qclass = 1\<rparr>"
  have l: "Lookup ?s ''w.b.'' 1 = [?rec]"
    by (simp add: Lookup_def PutRecord_eq New_def lockedFindZone.simps records_of_def demo_rec_def putSlice_def)
  obtain res where res: "ServeDNS demo_lib demo_handler (\<lambda>_. 0) 0 (\<lambda>_. True) False (\<lambda>_. [])
      (\<lambda>_. ?s) () ?r = Returns res"
    by (simp add: ServeDNS_def demo_query_def demo_handler_def new_Msg_def qtype_defs
        reflectEdns_def handleQuery_def Let_def l addAnswers_def pick_def)
  have "m_Question ?r = ?q # []" by (simp add: demo_query_def)
  moreover have "Lookup_m (hd_store demo_handler) ?s (q_Name ?q) (q_Qtype ?q) = [?rec]"
    using l by (simp add: demo_handler_def)
  ultimately obtain m where "sr_written res = [m]" "\<exists>rec \<in> set [?rec]. m_Answer m = List.map_filter r_RR [rec]"
    using direct_answer [OF demo_lib_ok _ _ _ _ res, of ?q "[]" "[?rec]"] by (auto simp: qtype_defs)
  then show ?thesis using res by (auto simp: List.map_filter_def)
qed

section \<open>Properties of the transfer\<close>

lemma axfrMsg_sel [simp]:
  "mdns_ok L \<Longrightarrow> m_Answer (axfrMsg L r rrs) = rrs"
  "mdns_ok L \<Longrightarrow> m_Authoritative (axfrMsg L r rrs)" "mdns_ok L \<Longrightarrow> reply_to r (axfrMsg L r rrs)"
  by (simp_all add: axfrMsg_def reply_to_def new_Msg_def)

text \<open>The messages of a transfer none of whose writes fails.\<close>

lemma serveAXFR_msgs:
  assumes "FindZone_m (hd_store H) s name = Some z"
  shows "\<exists>chunks. serveAXFR L H (\<lambda>_. True) True ord s r name =
      axfrMsg L r [syntheticSOA z] # map (axfrMsg L r) chunks @ [axfrMsg L r [syntheticSOA z]] \<and>
    concat chunks = List.map_filter r_RR (concat (map (rrset (z_Records z)) (ord (z_Records z)))) \<and>
    (\<forall>c \<in> set chunks. c \<noteq> [] \<and> length c \<le> axfrBatchSize)"
proof -
  let ?recs = "concat (map (rrset (z_Records z)) (ord (z_Records z)))"
  let ?open = "axfrMsg L r [syntheticSOA z]"
  have "length ([] :: RR list) < axfrBatchSize" by (simp add: axfrBatchSize_def)
  from axfrLoop_full [OF this, of "axfrMsg L r" ?recs "[?open]"] obtain chunks batch where
    c: "axfrLoop (\<lambda>_. True) (axfrMsg L r) ?recs [] [?open] = (True, batch, [?open] @ map (axfrMsg L r) chunks)"
    "length batch < axfrBatchSize" "concat chunks @ batch = List.map_filter r_RR ?recs"
    "\<forall>c \<in> set chunks. length c = axfrBatchSize" by auto
  let ?chunks = "chunks @ (if batch = [] then [] else [batch])"
  have "serveAXFR L H (\<lambda>_. True) True ord s r name = ?open # map (axfrMsg L r) ?chunks @ [?open]"
    using assms c(1) by (simp add: serveAXFR_def Let_def)
  moreover have "concat ?chunks = List.map_filter r_RR ?recs"
    using c(3) by (cases "batch = []") simp_all
  moreover have "\<forall>c \<in> set ?chunks. c \<noteq> [] \<and> length c \<le> axfrBatchSize"
    using c(2,4) by (auto simp: axfrBatchSize_def)
  ultimately show ?thesis by blast
qed

text \<open>
  C12: a transfer is complete. Over TCP, for a name in some zone and with no failing write, the
  messages are all authoritative replies to the request, none is empty and none carries more than
  500 records; together they carry the zone's SOA, then the RR of every record of the zone exactly
  once, in the order in which the record map is visited, then the SOA again.
\<close>

theorem axfr_complete:
  assumes "mdns_ok L" and "FindZone_m (hd_store H) s name = Some z"
    and "range_order (ord (z_Records z)) (z_Records z)"
  shows "(\<forall>m \<in> set (serveAXFR L H (\<lambda>_. True) True ord s r name).
      reply_to r m \<and> m_Authoritative m \<and> m_Answer m \<noteq> [] \<and> length (m_Answer m) \<le> axfrBatchSize) \<and>
    (\<exists>rrs. concat (map m_Answer (serveAXFR L H (\<lambda>_. True) True ord s r name)) =
        syntheticSOA z # rrs @ [syntheticSOA z] \<and>
      rrs = concat (map (\<lambda>k. List.map_filter r_RR (rrset (z_Records z) k)) (ord (z_Records z))) \<and>
      set rrs = {rr. \<exists>k rec. rec \<in> set (rrset (z_Records z) k) \<and> r_RR rec = Some rr})"
proof -
  obtain chunks where c: "serveAXFR L H (\<lambda>_. True) True ord s r name =
      axfrMsg L r [syntheticSOA z] # map (axfrMsg L r) chunks @ [axfrMsg L r [syntheticSOA z]]"
    "concat chunks = List.map_filter r_RR (concat (map (rrset (z_Records z)) (ord (z_Records z))))"
    "\<forall>c \<in> set chunks. c \<noteq> [] \<and> length c \<le> axfrBatchSize"
    using serveAXFR_msgs [OF assms(2)] by blast
  have flat: "List.map_filter r_RR (concat (map (rrset (z_Records z)) ks)) =
      concat (map (\<lambda>k. List.map_filter r_RR (rrset (z_Records z) k)) ks)" for ks
    by (induction ks) (auto simp: List.map_filter_def)
  have keys: "k \<in> set (ord (z_Records z))" if "rec \<in> set (rrset (z_Records z) k)" for k rec
    using that range_order_mem [OF assms(3), of k] by (cases "fmlookup (z_Records z) k") (auto simp: rrset_def)
  have "set (concat chunks) = {rr. \<exists>k rec. rec \<in> set (rrset (z_Records z) k) \<and> r_RR rec = Some rr}"
    unfolding c(2) using keys by (force simp: List.map_filter_def)
  moreover have "map m_Answer (map (axfrMsg L r) chunks) = chunks"
    using assms(1) by (simp add: comp_def)
  ultimately show ?thesis
    using c assms(1) by (auto simp: axfrBatchSize_def flat)
qed

theorem axfr_complete_witness:
  "\<exists>soa rr. concat (map m_Answer (serveAXFR demo_lib demo_handler (\<lambda>_. True) True (\<lambda>_. [rkey ''w.b.'' 1])
      (snd (PutRecord New ''b.'' (demo_rec\<lparr>r_RR := Some rr\<rparr>))) (demo_query ''b.'' 252) ''b.'')) = [soa, rr, soa]"
proof -
  let ?rr = "RR_HINFO \<lparr>h_Name = ''w.b.'', h_Rrtype = 1, h_Class = 1, h_Ttl = 0\<rparr> '''' ''''"
  let ?rec = "demo_rec\<lparr>r_RR := Some ?rr\<rparr>"
  let ?s = "snd (PutRecord New ''b.'' ?rec)" and ?z = "\<lparr>z_Name = ''b.'', z_Records = fmupd (rkey ''w.b.'' 1) [?rec] fmempty, z_SOA = None\<rparr>"
  have "FindZone_m (hd_store demo_handler) ?s ''b.'' = Some ?z"
    by (simp add: demo_handler_def FindZone_def PutRecord_def New_def demo_rec_def putSlice_def Let_def lockedFindZone.simps)
  from axfr_complete [OF demo_lib_ok this, of "\<lambda>_. [rkey ''w.b.'' 1]" "demo_query ''b.'' 252"]
  show ?thesis by (auto simp: range_order_def rrset_def List.map_filter_def)
qed

text \<open>A transfer by what its loop returns: with every write done, and with some failing.\<close>

lemma serveAXFR_full:
  assumes "FindZone_m (hd_store H) s name = Some z"
    and "axfrLoop (\<lambda>_. True) (axfrMsg L r) (concat (map (rrset (z_Records z)) (ord (z_Records z)))) [] [axfrMsg L r [syntheticSOA z]] = (ok, b, sent)"
  shows "serveAXFR L H (\<lambda>_. True) True ord s r name = sent @ (if b = [] then [] else [axfrMsg L r b]) @ [axfrMsg L r [syntheticSOA z]]"
proof -
  have "length ([] :: RR list) < axfrBatchSize" by (simp add: axfrBatchSize_def)
  then have "ok" using axfrLoop_full [of "[]" "axfrMsg L r" "concat (map (rrset (z_Records z)) (ord (z_Records z)))" "[axfrMsg L r [syntheticSOA z]]"]
    assms(2) by auto
  then show ?thesis using assms by (simp add: serveAXFR_def Let_def)
qed

lemma serveAXFR_part:
  assumes "FindZone_m (hd_store H) s name = Some z" and "wr 0"
    and "axfrLoop wr (axfrMsg L r) (concat (map (rrset (z_Records z)) (ord (z_Records z)))) [] [axfrMsg L r [syntheticSOA z]] = (ok, b, sent)"
  shows "serveAXFR L H wr True ord s r name =
    (if \<not> ok then sent else if b = [] then sent @ [axfrMsg L r [syntheticSOA z]]
     else if \<not> wr (length sent) then sent @ [axfrMsg L r b] else sent @ [axfrMsg L r b, axfrMsg L r [syntheticSOA z]])"
  unfolding serveAXFR_def Let_def assms(1,3) option.case prod.case using assms(2) by (simp only: simp_thms if_True if_False)

text \<open>
  C13: a transfer that fails is cut off cleanly. With any pattern of failing writes the messages
  passed to \<^verbatim>\<open>WriteMsg\<close> are a prefix of the full transfer, every write but the last succeeded, and
  if the transfer is not complete the last write is the one that failed: nothing is sent after an error.
\<close>

theorem axfr_stops_at_error:
  assumes "FindZone_m (hd_store H) s name = Some z"
  shows "prefix (serveAXFR L H wr True ord s r name) (serveAXFR L H (\<lambda>_. True) True ord s r name) \<and>
    (\<forall>i. i + 1 < length (serveAXFR L H wr True ord s r name) \<longrightarrow> wr i) \<and>
    (serveAXFR L H wr True ord s r name = serveAXFR L H (\<lambda>_. True) True ord s r name \<or>
     \<not> wr (length (serveAXFR L H wr True ord s r name) - 1))"
proof -
  let ?recs = "concat (map (rrset (z_Records z)) (ord (z_Records z)))" and ?open = "axfrMsg L r [syntheticSOA z]"
  obtain ok b s1 where l1: "axfrLoop wr (axfrMsg L r) ?recs [] [?open] = (ok, b, s1)" by (metis prod_cases3)
  obtain ok2 b2 s2 where l2: "axfrLoop (\<lambda>_. True) (axfrMsg L r) ?recs [] [?open] = (ok2, b2, s2)" by (metis prod_cases3)
  note full = serveAXFR_full [where ord = ord, OF assms l2]
  show ?thesis
  proof (cases "wr 0")
    case False
    then have "serveAXFR L H wr True ord s r name = [?open]" using assms by (simp add: serveAXFR_def)
    then show ?thesis unfolding full using axfrLoop_extends [OF l2] False by (simp add: prefix_prefix)
  next
    case True
    have st: "if ok then b = b2 \<and> s1 = s2 \<and> (\<forall>i < length s1. wr i)
      else prefix s1 s2 \<and> s1 \<noteq> [] \<and> \<not> wr (length s1 - 1) \<and> (\<forall>i < length s1 - 1. wr i)"
      by (rule axfrLoop_stop [OF l1 l2]) (simp add: True)
    note part = serveAXFR_part [where wr = wr and ord = ord, OF assms True l1]
    consider "\<not> ok" | "ok" "b = []" | "ok" "b \<noteq> []" "\<not> wr (length s1)" | "ok" "b \<noteq> []" "wr (length s1)" by blast
    then show ?thesis
    proof cases
      case 1
      have p: "serveAXFR L H wr True ord s r name = s1" unfolding part using 1 by simp
      show ?thesis unfolding full p using st 1 by (simp add: prefix_prefix)
    next
      case 2
      have p: "serveAXFR L H wr True ord s r name = s1 @ [?open]" unfolding part using 2 by simp
      show ?thesis unfolding full p using st 2 by simp
    next
      case 3
      have p: "serveAXFR L H wr True ord s r name = s1 @ [axfrMsg L r b]" unfolding part using 3 by simp
      show ?thesis unfolding full p using st 3 by simp
    next
      case 4
      have p: "serveAXFR L H wr True ord s r name = s1 @ [axfrMsg L r b, ?open]" unfolding part using 4 by simp
      show ?thesis unfolding full p using st 4 by (simp add: less_Suc_eq)
    qed
  qed
qed

theorem axfr_stops_at_error_witness:
  "length (serveAXFR demo_lib demo_handler (\<lambda>i. i \<noteq> 0) True (\<lambda>_. []) demo_store (demo_query ''b.'' 252) ''x.b.'') = 1 \<and>
   prefix (serveAXFR demo_lib demo_handler (\<lambda>i. i \<noteq> 0) True (\<lambda>_. []) demo_store (demo_query ''b.'' 252) ''x.b.'')
     (serveAXFR demo_lib demo_handler (\<lambda>_. True) True (\<lambda>_. []) demo_store (demo_query ''b.'' 252) ''x.b.'')"
proof -
  have z: "FindZone_m (hd_store demo_handler) demo_store ''x.b.'' =
      Some \<lparr>z_Name = ''b.'', z_Records = fmempty, z_SOA = None\<rparr>"
    by (simp add: demo_handler_def FindZone_def demo_store_def New_def Update_def lockedFindZone.simps)
  then have "length (serveAXFR demo_lib demo_handler (\<lambda>i. i \<noteq> 0) True (\<lambda>_. []) demo_store (demo_query ''b.'' 252) ''x.b.'') = 1"
    by (simp add: serveAXFR_def)
  then show ?thesis using axfr_stops_at_error [OF z] by blast
qed

section \<open>Every query is answered\<close>

lemma addAnswers_returns:
  assumes "records \<noteq> []" and "\<forall>t > 0. 0 \<le> intn t \<and> intn t < t"
    and "sum_list (map (effectiveWeight (fst (GetWeights_m P w name qtype ip))) records) < 2 ^ 63"
  shows "\<exists>m' w'. addAnswers P intn w m records name qtype ip = Returns (m', w')"
proof (cases "qtype = TypeA \<or> qtype = TypeAAAA")
  case True
  obtain dyn w1 where g: "GetWeights_m P w name qtype ip = (dyn, w1)" by fastforce
  obtain rec w2 where "pick P intn w records name qtype ip = Returns (rec, w2)"
    using pick_safe [OF assms(1) g _ assms(2)] assms(3) g by auto
  then show ?thesis using True by (cases "r_RR rec") (simp_all add: addAnswers_def)
qed (simp add: addAnswers_def)

lemma handleQuery_returns:
  assumes "\<forall>t > 0. 0 \<le> intn t \<and> intn t < t"
    and "\<And>i name. sum_list (map (effectiveWeight (fst (GetWeights_m (hd_weights H) w name (q_Qtype q) ip)))
      (Lookup_m (hd_store H) (obs i) name (q_Qtype q))) < 2 ^ 63"
  shows "\<exists>m' w'. handleQuery L H intn obs w m r q ip = Returns (m', w')"
proof (cases rule: handleQuery_cases [where q = q and H = H and obs = obs])
  case any
  then show ?thesis by (simp add: handleQuery_any)
next
  case direct
  then show ?thesis using addAnswers_returns [OF direct(2) assms] by (simp add: handleQuery_direct [where obs = obs, OF direct(1) refl direct(2)])
next
  case (cname cn cns)
  show ?thesis unfolding handleQuery_cname [OF cname] Let_def using addAnswers_returns [OF _ assms] by simp
next
  case negative
  then show ?thesis by (simp add: handleQuery_negative)
qed

lemma axfrLoop_sent: "axfrLoop wr mk recs batch sent = (ok, batch', sent') \<Longrightarrow> sent \<noteq> [] \<Longrightarrow> sent' \<noteq> []"
proof (induction wr mk recs batch sent rule: axfrLoop.induct)
  case (2 wr mk rec recs batch sent)
  then show ?case by (auto simp: Let_def split: option.splits if_splits)
qed simp

lemma serveAXFR_sent: "serveAXFR L H wr tcp ord s r name \<noteq> []"
proof (cases "FindZone_m (hd_store H) s name")
  case (Some zone)
  obtain ok batch sent where "axfrLoop wr (axfrMsg L r) (concat (map (rrset (z_Records zone)) (ord (z_Records zone)))) []
      [axfrMsg L r [syntheticSOA zone]] = (ok, batch, sent)" by (metis prod.collapse)
  moreover from axfrLoop_sent [OF this] have "sent \<noteq> []" by simp
  ultimately show ?thesis using Some by (simp add: serveAXFR_def Let_def)
qed (simp add: serveAXFR_def)

text \<open>
  C14: every query is answered. While the effective weights of every rrset of the asked type sum to less than
  \<open>2^63\<close>, whatever the store becomes between the calls, the handler returns for every message a client can
  send, malformed ones and transfers included, and it has written something; for anything but a
  transfer it has written exactly one message.
\<close>

theorem query_answered:
  assumes "\<forall>t > 0. 0 \<le> intn t \<and> intn t < t"
    and "\<And>i name qtype ip. sum_list (map (effectiveWeight (fst (GetWeights_m (hd_weights H) w name qtype ip)))
      (Lookup_m (hd_store H) (obs i) name qtype)) < 2 ^ 63"
  shows "\<exists>res. ServeDNS L H intn u wr tcp ord obs w r = Returns res \<and> sr_written res \<noteq> [] \<and>
    (length (sr_written res) = 1 \<or> (\<exists>q qs. m_Question r = q # qs \<and> q_Qtype q \<in> {TypeAXFR, TypeIXFR}))"
proof (cases "m_Question r")
  case Nil
  then show ?thesis by (simp add: ServeDNS_def)
next
  case (Cons q qs)
  obtain m1 ip where e: "reflectEdns L r ((SetReply L new_Msg r)\<lparr>m_Authoritative := True, m_RecursionAvailable := False\<rparr>) = (m1, ip)"
    by fastforce
  obtain m w' where "handleQuery L H intn obs w m1 r q ip = Returns (m, w')"
    using handleQuery_returns [where obs = obs, OF assms] by blast
  then show ?thesis using Cons e by (auto simp: ServeDNS_def serveAXFR_sent Let_def)
qed

theorem query_answered_witness:
  "\<exists>res. ServeDNS demo_lib demo_handler (\<lambda>t. t - 1) 0 (\<lambda>_. True) True (\<lambda>_. []) (\<lambda>_. demo_store) ()
     (demo_query ''x.b.'' 1) = Returns res \<and> sr_written res \<noteq> []"
proof -
  have "z_Records z = fmempty" if z: "lockedFindZone (zones demo_store) n = Some z" for n z
    using lockedFindZone_closest [OF z] by (auto simp: demo_store_def New_def Update_def split: if_splits)
  then have none: "Lookup demo_store n t = []" for n t by (simp add: Lookup_def split: option.split)
  have "\<exists>res. ServeDNS demo_lib demo_handler (\<lambda>t. t - 1) 0 (\<lambda>_. True) True (\<lambda>_. []) (\<lambda>_. demo_store) () (demo_query ''x.b.'' 1) = Returns res \<and>
     sr_written res \<noteq> [] \<and> (length (sr_written res) = 1 \<or>
       (\<exists>q qs. m_Question (demo_query ''x.b.'' 1) = q # qs \<and> q_Qtype q \<in> {TypeAXFR, TypeIXFR}))"
    by (rule query_answered) (simp_all add: none demo_handler_def)
  then show ?thesis by blast
qed

end
