(* ===== verification/Strconv.thy ===== *)
theory Strconv
  imports Prelude
begin

text \<open>
  The part of Go's \<^verbatim>\<open>strconv\<close> that the sources call: \<^verbatim>\<open>ParseUint(s, 10, 64)\<close>,
  \<^verbatim>\<open>ParseInt(s, 10, 64)\<close>, \<^verbatim>\<open>Atoi\<close>, and the decimal printing of \<^verbatim>\<open>fmt.Sprintf("%d")\<close>,
  with the round trip between printing and parsing.
\<close>

datatype num_error = ErrSyntax | ErrRange

definition digit_of :: "char \<Rightarrow> nat option" where
  "digit_of c = (let n = of_char c :: nat in if 48 \<le> n \<and> n \<le> 57 then Some (n - 48) else None)"

definition char_of_digit :: "nat \<Rightarrow> char" where
  "char_of_digit d = char_of (48 + d)"

lemma digit_of_char [simp]: "d < 10 \<Longrightarrow> digit_of (char_of_digit d) = Some d"
  by (simp add: digit_of_def char_of_digit_def)

lemma digit_of_range: "digit_of c = Some d \<Longrightarrow> d < 10"
  by (auto simp: digit_of_def Let_def split: if_splits)

section \<open>Printing\<close>

fun Utoa :: "nat \<Rightarrow> string" where
  "Utoa n = (if n < 10 then [char_of_digit n] else Utoa (n div 10) @ [char_of_digit (n mod 10)])"

declare Utoa.simps [simp del]

definition Itoa :: "int \<Rightarrow> string" where
  "Itoa i = (if i < 0 then CHR ''-'' # Utoa (nat (- i)) else Utoa (nat i))"

lemma Utoa_nonempty [simp]: "Utoa n \<noteq> []"
  by (subst Utoa.simps) simp

lemma Utoa_digits: "c \<in> set (Utoa n) \<Longrightarrow> \<exists>d < 10. c = char_of_digit d"
proof (induction n rule: Utoa.induct)
  case (1 n)
  then show ?case
    by (subst (asm) (2) Utoa.simps) (auto split: if_splits intro: exI [of _ "n mod 10"])
qed

lemma digit_not_sign: "digit_of c = Some d \<Longrightarrow> c \<noteq> CHR ''-'' \<and> c \<noteq> CHR ''+'' \<and> c \<noteq> CHR '':''"
  by (auto simp: digit_of_def)

lemma Utoa_chars:
  assumes "c \<in> set (Utoa n)" shows "c \<noteq> CHR ''-'' \<and> c \<noteq> CHR ''+'' \<and> c \<noteq> CHR '':''"
proof -
  obtain d where "d < 10" "c = char_of_digit d" using Utoa_digits [OF assms] by auto
  then show ?thesis using digit_not_sign [of c d] by simp
qed

section \<open>Parsing\<close>

text \<open>The digit loop of \<^verbatim>\<open>ParseUint\<close>: a non-digit is a syntax error, a value of more than 64 bits
  a range error at the digit where it is exceeded.\<close>

fun uintLoop :: "nat \<Rightarrow> string \<Rightarrow> num_error + nat" where
  "uintLoop n [] = Inr n"
| "uintLoop n (c # cs) =
     (case digit_of c of
        None \<Rightarrow> Inl ErrSyntax
      | Some d \<Rightarrow> if 2 ^ 64 \<le> n * 10 + d then Inl ErrRange else uintLoop (n * 10 + d) cs)"

definition ParseUint :: "string \<Rightarrow> num_error + nat" where
  "ParseUint s = (if s = [] then Inl ErrSyntax else uintLoop 0 s)"

fun signed :: "string \<Rightarrow> bool \<times> string" where
  "signed (c # cs) =
     (if c = CHR ''+'' then (False, cs) else if c = CHR ''-'' then (True, cs) else (False, c # cs))"
| "signed [] = (False, [])"

definition ParseInt :: "string \<Rightarrow> num_error + int" where
  "ParseInt s =
     (let (neg, t) = signed s in
      case ParseUint t of
        Inl e \<Rightarrow> Inl e
      | Inr un \<Rightarrow>
          if \<not> neg \<and> 2 ^ 63 \<le> un then Inl ErrRange
          else if neg \<and> 2 ^ 63 < un then Inl ErrRange
          else Inr (if neg then - int un else int un))"

text \<open>On a 64-bit platform \<^verbatim>\<open>Atoi\<close> agrees with \<^verbatim>\<open>ParseInt(s, 10, 0)\<close>.\<close>

abbreviation Atoi :: "string \<Rightarrow> num_error + int" where
  "Atoi \<equiv> ParseInt"

lemma uintLoop_append:
  "uintLoop n (xs @ ys) = (case uintLoop n xs of Inl e \<Rightarrow> Inl e | Inr k \<Rightarrow> uintLoop k ys)"
  by (induction n xs rule: uintLoop.induct) (auto split: option.splits)

lemma uintLoop_Utoa: "n < 2 ^ 64 \<Longrightarrow> uintLoop 0 (Utoa n) = Inr n"
proof (induction n rule: Utoa.induct)
  case (1 n)
  show ?case
  proof (cases "n < 10")
    case True
    then show ?thesis by (subst Utoa.simps) simp
  next
    case False
    have "n div 10 * 10 + n mod 10 = n" by simp
    moreover have "uintLoop 0 (Utoa (n div 10)) = Inr (n div 10)"
      using 1 False by simp
    ultimately show ?thesis
      using False 1(2) by (subst Utoa.simps) (simp add: uintLoop_append)
  qed
qed

lemma ParseUint_Utoa: "n < 2 ^ 64 \<Longrightarrow> ParseUint (Utoa n) = Inr n"
  by (simp add: ParseUint_def uintLoop_Utoa)

lemma signed_Utoa: "signed (Utoa n) = (False, Utoa n)"
proof (cases "Utoa n")
  case (Cons c cs)
  then show ?thesis using Utoa_chars [of c n] by simp
qed simp

lemma ParseInt_Itoa:
  assumes "is_int64 i" shows "ParseInt (Itoa i) = Inr i"
proof (cases "i < 0")
  case True
  then have "nat (- i) \<le> 2 ^ 63" using assms by (simp add: is_int64_def)
  moreover from this have "ParseUint (Utoa (nat (- i))) = Inr (nat (- i))"
    by (intro ParseUint_Utoa) simp
  ultimately show ?thesis using True by (simp add: ParseInt_def Itoa_def)
next
  case False
  then have "nat i < 2 ^ 63" using assms by (simp add: is_int64_def nat_less_iff)
  moreover from this have "ParseUint (Utoa (nat i)) = Inr (nat i)"
    by (intro ParseUint_Utoa) simp
  ultimately show ?thesis using False by (simp add: ParseInt_def Itoa_def signed_Utoa)
qed

lemma ParseInt_range: "ParseInt s = Inr i \<Longrightarrow> is_int64 i"
  by (auto simp: ParseInt_def is_int64_def split: prod.splits sum.splits if_splits)

lemma Utoa_inject: "n < 2 ^ 64 \<Longrightarrow> m < 2 ^ 64 \<Longrightarrow> Utoa n = Utoa m \<longleftrightarrow> n = m"
  using ParseUint_Utoa by (metis sum.inject(2))

end
