(* ===== verification/Config.thy ===== *)
theory Config
  imports Prelude
begin

text \<open>
  \<^verbatim>\<open>config/config.go\<close>: the configuration record and its defaults. Durations are int64
  nanoseconds; a float64 is the rational number it stands for, so the default probability is the
  double nearest to 0.01.
\<close>

record APIConfig =
  ac_Listen :: string

record PGConfig =
  pc_DSN :: string

record NacosConfig =
  nc_Addr :: string
  nc_Namespace :: string
  nc_Group :: string
  nc_DataIDPrefix :: string
  nc_Username :: string
  nc_Password :: string

record SyncConfig =
  sc_Interval :: int
  sc_Prob :: rat
  sc_RateLimit :: int

record Config =
  cf_Listen :: string
  cf_Workers :: int
  cf_TCP :: bool
  cf_EDNS0 :: bool
  cf_API :: APIConfig
  cf_PG :: PGConfig
  cf_Nacos :: NacosConfig
  cf_Sync :: SyncConfig

definition Second :: int where
  "Second = 1000000000"

definition Defaults :: Config where
  "Defaults =
     \<lparr>cf_Listen = '':5300'', cf_Workers = 0, cf_TCP = True, cf_EDNS0 = True,
      cf_API = \<lparr>ac_Listen = '':8080''\<rparr>,
      cf_PG = \<lparr>pc_DSN = ''''\<rparr>,
      cf_Nacos = \<lparr>nc_Addr = '''', nc_Namespace = '''', nc_Group = ''DEFAULT_GROUP'',
        nc_DataIDPrefix = ''dns_weights:'', nc_Username = '''', nc_Password = ''''\<rparr>,
      cf_Sync = \<lparr>sc_Interval = 30 * Second, sc_Prob = 5764607523034235 / 2 ^ 59, sc_RateLimit = 100\<rparr>\<rparr>"

end
