(* ===== verification/Weight_Providers.thy ===== *)
theory Weight_Providers
  imports DNS_Handler Strconv Config
begin

text \<open>
  \<^verbatim>\<open>internal/weight\<close>: the four weight providers. \<open>Null\<close> and the static provider have no state
  of their own (the static one reads the zone store, which is its state here); the composite one
  has the states of its two providers; the Nacos provider has a cache, the set of watched keys, the
  goroutines started by \<^verbatim>\<open>go p.watch\<close> that have not finished, and the listeners registered with
  the client. The Nacos SDK and \<^verbatim>\<open>json.Unmarshal\<close> are arguments: what \<^verbatim>\<open>GetConfig\<close> returns for a
  data ID, whether \<^verbatim>\<open>ListenConfig\<close> succeeds, and what a document decodes to.
\<close>

section \<open>The stateless providers\<close>

definition Null_GetWeights :: "unit \<Rightarrow> string \<Rightarrow> u16 \<Rightarrow> IP option \<Rightarrow> weights option \<times> unit" where
  "Null_GetWeights w fqdn qtype clientIP = (None, w)"

definition Null :: "unit WeightProvider" where
  "Null = \<lparr>GetWeights_m = Null_GetWeights\<rparr>"

definition Static_GetWeights :: "'s ZoneStore \<Rightarrow> 's \<Rightarrow> string \<Rightarrow> u16 \<Rightarrow> IP option \<Rightarrow> weights option \<times> 's" where
  "Static_GetWeights S s fqdn qtype clientIP =
     (let records = Lookup_m S s fqdn qtype;
          ws = foldl (\<lambda>ws r. if 0 < r_Weight r then fmupd (r_Value r) (r_Weight r) ws else ws) fmempty records
      in if ws = fmempty then (None, s) else (Some ws, s))"

definition NewStatic :: "'s ZoneStore \<Rightarrow> 's WeightProvider" where
  "NewStatic S = \<lparr>GetWeights_m = Static_GetWeights S\<rparr>"

definition Composite_GetWeights :: "'a WeightProvider \<Rightarrow> 'b WeightProvider \<Rightarrow> 'a \<times> 'b \<Rightarrow> string \<Rightarrow> u16 \<Rightarrow> IP option \<Rightarrow>
    weights option \<times> 'a \<times> 'b" where
  "Composite_GetWeights primary secondary w fqdn qtype clientIP =
     (case GetWeights_m primary (fst w) fqdn qtype clientIP of
        (Some ws, a) \<Rightarrow> (Some ws, a, snd w)
      | (None, a) \<Rightarrow>
          (case GetWeights_m secondary (snd w) fqdn qtype clientIP of (ws, b) \<Rightarrow> (ws, a, b)))"

definition NewComposite :: "'a WeightProvider \<Rightarrow> 'b WeightProvider \<Rightarrow> ('a \<times> 'b) WeightProvider" where
  "NewComposite primary secondary = \<lparr>GetWeights_m = Composite_GetWeights primary secondary\<rparr>"

section \<open>The Nacos provider\<close>

definition typeStr :: "mdns_lib \<Rightarrow> u16 \<Rightarrow> string" where
  "typeStr L qtype =
     (if TypeToString L qtype \<noteq> '''' then TypeToString L qtype else ''TYPE'' @ Utoa (unat qtype))"

definition cacheKey :: "mdns_lib \<Rightarrow> string \<Rightarrow> u16 \<Rightarrow> string" where
  "cacheKey L fqdn qtype = fqdn @ '':'' @ typeStr L qtype"

text \<open>The steps a watching goroutine still has to do: pull and listen, or listen only.\<close>

datatype watcher = WPull string string u16 | WListen string string u16

primrec w_key :: "watcher \<Rightarrow> string" where
  "w_key (WPull key fqdn qtype) = key"
| "w_key (WListen key fqdn qtype) = key"

record NacosWeightProvider =
  np_group :: string
  np_prefix :: string
  np_weights :: "(string, weights) fmap"
  np_watched :: "string fset"
  np_pending :: "watcher list"
  np_listeners :: "(string \<times> string) list"

definition dataID :: "mdns_lib \<Rightarrow> NacosWeightProvider \<Rightarrow> string \<Rightarrow> u16 \<Rightarrow> string" where
  "dataID L p fqdn qtype = np_prefix p @ fqdn @ '':'' @ typeStr L qtype"

type_synonym unmarshal = "string \<Rightarrow> weights option"

text \<open>The client, by group and data ID: \<^verbatim>\<open>GetConfig\<close> returns the content or fails, \<^verbatim>\<open>ListenConfig\<close>
  succeeds or fails.\<close>

record nacos_client =
  GetConfig :: "string \<Rightarrow> string \<Rightarrow> string option"
  ListenConfig :: "string \<Rightarrow> string \<Rightarrow> bool"

definition update :: "unmarshal \<Rightarrow> string \<Rightarrow> string \<Rightarrow> NacosWeightProvider \<Rightarrow> NacosWeightProvider" where
  "update J key data p =
     (case J data of
        None \<Rightarrow> p
      | Some ws \<Rightarrow>
          if ws = fmempty then p\<lparr>np_weights := fmdrop key (np_weights p)\<rparr>
          else p\<lparr>np_weights := fmupd key ws (np_weights p)\<rparr>)"

definition watch_pull :: "unmarshal \<Rightarrow> nacos_client \<Rightarrow> string \<Rightarrow> string \<Rightarrow> NacosWeightProvider \<Rightarrow> NacosWeightProvider" where
  "watch_pull J K key did p =
     (case GetConfig K (np_group p) did of
        None \<Rightarrow> p
      | Some content \<Rightarrow> if content \<noteq> '''' then update J key content p else p)"

definition watch_listen :: "nacos_client \<Rightarrow> string \<Rightarrow> string \<Rightarrow> NacosWeightProvider \<Rightarrow> NacosWeightProvider" where
  "watch_listen K key did p =
     (if ListenConfig K (np_group p) did then p\<lparr>np_listeners := np_listeners p @ [(did, key)]\<rparr> else p)"

definition watch :: "mdns_lib \<Rightarrow> unmarshal \<Rightarrow> nacos_client \<Rightarrow> string \<Rightarrow> string \<Rightarrow> u16 \<Rightarrow>
    NacosWeightProvider \<Rightarrow> NacosWeightProvider" where
  "watch L J K key fqdn qtype p =
     (let did = dataID L p fqdn qtype
      in watch_listen K key did (watch_pull J K key did p))"

definition Nacos_GetWeights :: "mdns_lib \<Rightarrow> NacosWeightProvider \<Rightarrow> string \<Rightarrow> u16 \<Rightarrow> IP option \<Rightarrow>
    weights option \<times> NacosWeightProvider" where
  "Nacos_GetWeights L p fqdn qtype clientIP =
     (let key = cacheKey L fqdn qtype;
          p' = (if key |\<in>| np_watched p then p
                else p\<lparr>np_watched := finsert key (np_watched p),
                       np_pending := np_pending p @ [WPull key fqdn qtype]\<rparr>)
      in (fmlookup (np_weights p') key, p'))"

definition NacosProvider :: "mdns_lib \<Rightarrow> NacosWeightProvider WeightProvider" where
  "NacosProvider L = \<lparr>GetWeights_m = Nacos_GetWeights L\<rparr>"

text \<open>The body of the loop of \<open>Start\<close>, and the two nested loops over the snapshot, in the orders
  \<open>zord\<close> and \<open>rord\<close> the two maps are ranged over.\<close>

definition startKey :: "mdns_lib \<Rightarrow> unmarshal \<Rightarrow> nacos_client \<Rightarrow>
    RecordKey \<Rightarrow> NacosWeightProvider \<Rightarrow> NacosWeightProvider" where
  "startKey L J K k p =
     (let key = cacheKey L (k_Name k) (k_Qtype k) in
      if key |\<in>| np_watched p then p
      else watch L J K key (k_Name k) (k_Qtype k)
             (p\<lparr>np_watched := finsert key (np_watched p)\<rparr>))"

definition snapshotKeys :: "((string, Zone) fmap \<Rightarrow> string list) \<Rightarrow> (Records \<Rightarrow> RecordKey list) \<Rightarrow>
    (string, Zone) fmap \<Rightarrow> RecordKey list" where
  "snapshotKeys zord rord snap =
     concat (map (\<lambda>a. case fmlookup snap a of None \<Rightarrow> [] | Some zone \<Rightarrow> rord (z_Records zone)) (zord snap))"

definition Nacos_Start :: "mdns_lib \<Rightarrow> unmarshal \<Rightarrow> nacos_client \<Rightarrow>
    ((string, Zone) fmap \<Rightarrow> string list) \<Rightarrow> (Records \<Rightarrow> RecordKey list) \<Rightarrow>
    's ZoneStore \<Rightarrow> 's \<Rightarrow> NacosWeightProvider \<Rightarrow> NacosWeightProvider" where
  "Nacos_Start L J K zord rord S s p =
     fold (startKey L J K) (snapshotKeys zord rord (Snapshot_m S s)) p"

section \<open>Connecting to Nacos\<close>

datatype nacos_error = InvalidAddr string | InvalidPort string num_error | ClientError string

text \<open>\<^verbatim>\<open>strings.LastIndex(s, ":")\<close>\<close>

definition LastColon :: "string \<Rightarrow> int" where
  "LastColon s = (let i = IndexByte (rev s) CHR '':'' in if i < 0 then -1 else int (length s) - 1 - i)"

text \<open>The arguments the SDK's constructor gets: host, port, namespace, user and password.\<close>

definition newNacosClient :: "(string \<Rightarrow> nat \<Rightarrow> string \<Rightarrow> string \<Rightarrow> string \<Rightarrow> string + nacos_client) \<Rightarrow> NacosConfig \<Rightarrow> nacos_error + nacos_client" where
  "newNacosClient NewConfigClient cfg =
     (let idx = LastColon (nc_Addr cfg) in
      if idx < 0 then Inl (InvalidAddr (nc_Addr cfg))
      else
        (let host = take (nat idx) (nc_Addr cfg) in
         case ParseUint (drop (nat idx + 1) (nc_Addr cfg)) of
           Inl e \<Rightarrow> Inl (InvalidPort (nc_Addr cfg) e)
         | Inr port \<Rightarrow>
             (case NewConfigClient host port (nc_Namespace cfg) (nc_Username cfg) (nc_Password cfg) of
                Inl e \<Rightarrow> Inl (ClientError e)
              | Inr c \<Rightarrow> Inr c)))"

definition NewNacosWeightProvider :: "(string \<Rightarrow> nat \<Rightarrow> string \<Rightarrow> string \<Rightarrow> string \<Rightarrow> string + nacos_client) \<Rightarrow> NacosConfig \<Rightarrow>
    nacos_error + nacos_client \<times> NacosWeightProvider" where
  "NewNacosWeightProvider NewConfigClient cfg =
     (case newNacosClient NewConfigClient cfg of
        Inl e \<Rightarrow> Inl e
      | Inr c \<Rightarrow> Inr (c, \<lparr>np_group = nc_Group cfg, np_prefix = nc_DataIDPrefix cfg, np_weights = fmempty,
            np_watched = {||}, np_pending = [], np_listeners = []\<rparr>))"

section \<open>The providers keep the contract\<close>

lemma provider_simps [simp]:
  "GetWeights_m Null = Null_GetWeights" "GetWeights_m (NewStatic S) = Static_GetWeights S"
  "GetWeights_m (NewComposite A B) = Composite_GetWeights A B"
  "GetWeights_m (NacosProvider L) = Nacos_GetWeights L"
  by (simp_all add: Null_def NewStatic_def NewComposite_def NacosProvider_def)

lemma Static_state [simp]: "snd (Static_GetWeights S s f q ip) = s"
  by (simp add: Static_GetWeights_def Let_def)

lemma Static_nonempty: "fst (Static_GetWeights S s f q ip) \<noteq> Some fmempty"
  by (simp add: Static_GetWeights_def Let_def)

lemma Composite_fst:
  "fst (Composite_GetWeights A B w f q ip) =
     (case fst (GetWeights_m A (fst w) f q ip) of
        Some ws \<Rightarrow> Some ws | None \<Rightarrow> fst (GetWeights_m B (snd w) f q ip))"
  by (simp add: Composite_GetWeights_def split: prod.split option.split)

definition cache_wf :: "NacosWeightProvider \<Rightarrow> bool" where
  "cache_wf p \<longleftrightarrow> (\<forall>k. fmlookup (np_weights p) k \<noteq> Some fmempty)"

lemma Nacos_GetWeights_frame [simp]:
  "np_weights (snd (Nacos_GetWeights L p f q ip)) = np_weights p"
  "np_listeners (snd (Nacos_GetWeights L p f q ip)) = np_listeners p"
  "np_prefix (snd (Nacos_GetWeights L p f q ip)) = np_prefix p"
  "fst (Nacos_GetWeights L p f q ip) = fmlookup (np_weights p) (cacheKey L f q)"
  by (simp_all add: Nacos_GetWeights_def Let_def)

interpretation null_wp: weight_provider Null "\<lambda>_. True"
  by unfold_locales (simp_all add: Null_GetWeights_def)

interpretation static_wp: weight_provider "NewStatic S" "\<lambda>_. True" for S :: "'s ZoneStore"
  by unfold_locales (simp_all add: Static_nonempty, simp add: Static_GetWeights_def)

interpretation nacos_wp: weight_provider "NacosProvider L" cache_wf for L
  by unfold_locales (simp_all add: cache_wf_def, simp add: Nacos_GetWeights_def)

text \<open>A composite of two providers that keep the contract keeps it.\<close>

locale provider_pair = a: weight_provider A ainv + b: weight_provider B binv
  for A :: "'a WeightProvider" and ainv and B :: "'b WeightProvider" and binv

sublocale provider_pair \<subseteq> comp: weight_provider "NewComposite A B" "\<lambda>w. ainv (fst w) \<and> binv (snd w)"
proof unfold_locales
  fix w f q ip assume w: "ainv (fst w) \<and> binv (snd w)"
  show "ainv (fst (snd (GetWeights_m (NewComposite A B) w f q ip))) \<and>
      binv (snd (snd (GetWeights_m (NewComposite A B) w f q ip)))"
    using w a.get_inv [of "fst w" f q ip] b.get_inv [of "snd w" f q ip]
    by (auto simp: Composite_GetWeights_def split: prod.splits option.splits)
  show "fst (GetWeights_m (NewComposite A B) w f q ip) \<noteq> Some fmempty"
    using w a.get_nonempty [of "fst w" f q ip] b.get_nonempty [of "snd w" f q ip]
    by (auto simp: Composite_GetWeights_def split: prod.splits option.splits)
next
  fix w f q ip f' q' ip' assume w: "ainv (fst w) \<and> binv (snd w)"
  show "fst (GetWeights_m (NewComposite A B) (snd (GetWeights_m (NewComposite A B) w f q ip)) f' q' ip') =
      fst (GetWeights_m (NewComposite A B) w f' q' ip')"
    using w a.get_stable [of "fst w" f q ip f' q' ip'] b.get_stable [of "snd w" f q ip f' q' ip']
    by (auto simp: Composite_GetWeights_def split: prod.splits option.splits)
next
  fix w f q ip ip'
  show "GetWeights_m (NewComposite A B) w f q ip = GetWeights_m (NewComposite A B) w f q ip'"
    using a.client_blind [of "fst w" f q ip ip'] b.client_blind [of "snd w" f q ip ip']
    by (simp add: Composite_GetWeights_def split: prod.split option.split)
qed

interpretation deployed: provider_pair "NacosProvider L" cache_wf "NewStatic S" "\<lambda>_. True"
  for L and S :: "'s ZoneStore"
  by unfold_locales

section \<open>What the handler gets from the contract\<close>

text \<open>The record picked depends on the provider only through the effective weights.\<close>

lemma pick_weights_cong:
  assumes "map (effectiveWeight (fst (GetWeights_m P w f q ip))) records =
    map (effectiveWeight (fst (GetWeights_m P' v f q ip'))) records"
  shows "map_outcome fst (pick P intn w records f q ip) = map_outcome fst (pick P' intn v records f q ip')"
proof -
  obtain dyn w1 dyn' v1 where g: "GetWeights_m P w f q ip = (dyn, w1)" "GetWeights_m P' v f q ip' = (dyn', v1)"
    by (metis surj_pair)
  let ?ws = "map (effectiveWeight dyn') records"
  have ws: "map (effectiveWeight dyn) records = ?ws" using assms unfolding g fst_conv .
  show ?thesis unfolding pick_def g Let_def prod.case ws
    by (cases "Intn intn (totalWeight ?ws)") (auto split: option.split)
qed

context weight_provider
begin

lemma pick_blind: "pick P intn w records f q ip = pick P intn w records f q ip'"
  by (simp add: pick_def client_blind [of w f q ip ip'])

lemma addAnswers_blind: "addAnswers P intn w m records f q ip = addAnswers P intn w m records f q ip'"
  by (simp add: addAnswers_def pick_blind [of intn w records f q ip ip'])

lemma handleQuery_blind:
  assumes "hd_weights H = P"
  shows "handleQuery L H intn obs w m r q ip = handleQuery L H intn obs w m r q ip'"
  by (simp add: handleQuery_def Let_def assms addAnswers_blind [where ip = ip and ip' = ip'] split: list.split)

lemma pick_repeat:
  assumes "winv w" and "pick P intn w records f q ip = Returns (rec, w')"
  shows "\<exists>w''. pick P intn w' records f q ip' = Returns (rec, w'')"
proof (cases "length records = 1")
  case False
  obtain dyn w1 where g: "GetWeights_m P w f q ip = (dyn, w1)" by fastforce
  have w1: "w1 = w'"
    using assms(2) False g by (auto simp: pick_def Let_def bind_outcome_Returns split: option.splits)
  have "fst (GetWeights_m P w' f q ip') = fst (GetWeights_m P w f q ip)"
    using get_stable [OF assms(1), of f q ip f q ip'] client_blind [of w f q ip' ip] g w1 by simp
  then have "map_outcome fst (pick P intn w' records f q ip') = map_outcome fst (pick P intn w records f q ip)"
    by (intro pick_weights_cong) simp
  then show ?thesis using assms(2) by (cases "pick P intn w' records f q ip'") auto
qed (use assms in \<open>simp add: pick_def\<close>)

end

section \<open>The static weights\<close>

lemma static_fold_other:
  "v \<notin> r_Value ` set records \<Longrightarrow>
     fmlookup (foldl (\<lambda>ws r. if 0 < r_Weight r then fmupd (r_Value r) (r_Weight r) ws else ws) ws records) v =
     fmlookup ws v"
  by (induction records arbitrary: ws) auto

lemma static_fold:
  "distinct (map r_Value records) \<Longrightarrow> r \<in> set records \<Longrightarrow> fmlookup ws (r_Value r) = None \<Longrightarrow>
     fmlookup (foldl (\<lambda>ws r. if 0 < r_Weight r then fmupd (r_Value r) (r_Weight r) ws else ws) ws records)
       (r_Value r) = (if 0 < r_Weight r then Some (r_Weight r) else None)"
proof (induction records arbitrary: ws)
  case (Cons a records)
  show ?case
  proof (cases "r = a")
    case True
    then show ?thesis using Cons.prems static_fold_other [of "r_Value r" records] by simp
  next
    case False
    then have "r \<in> set records" using Cons.prems by simp
    moreover from this have "r_Value r \<in> r_Value ` set records" by simp
    then have "r_Value r \<noteq> r_Value a" using Cons.prems(1) by force
    ultimately have "r \<in> set records" "r_Value r \<noteq> r_Value a" by simp_all
    then show ?thesis using Cons.IH Cons.prems by simp
  qed
qed simp

text \<open>
  C36: the static provider changes nothing. When the values of an rrset are distinct, every record
  gets from the static provider's map the same weight as from no map at all, its own \<open>Weight\<close> with 1
  for zero or less, so the selection among its records is the one the null provider gives.
\<close>

theorem static_same_as_null:
  assumes "distinct (map r_Value (Lookup_m S s f q))"
  shows "map_outcome fst (pick (NewStatic S) intn s (Lookup_m S s f q) f q ip) =
    map_outcome fst (pick Null intn () (Lookup_m S s f q) f q ip)"
proof -
  let ?rs = "Lookup_m S s f q"
  let ?fold = "foldl (\<lambda>ws r. if 0 < r_Weight r then fmupd (r_Value r) (r_Weight r) ws else ws) fmempty ?rs"
  let ?dyn = "if ?fold = fmempty then None else Some ?fold"
  have g: "Static_GetWeights S s f q ip = (?dyn, s)" by (simp add: Static_GetWeights_def)
  have w: "effectiveWeight ?dyn r = effectiveWeight None r" if "r \<in> set ?rs" for r
    using static_fold [OF assms that, of fmempty] by (auto simp: effectiveWeight_def)
  have "map (effectiveWeight ?dyn) ?rs = map (effectiveWeight None) ?rs"
    by (rule map_cong [OF refl]) (rule w)
  then show ?thesis
    by (intro pick_weights_cong) (simp_all only: provider_simps g Null_GetWeights_def fst_conv)
qed

theorem static_same_as_null_witness:
  "map_outcome fst (pick (NewStatic (RWMutexStore_iface sorted_range)) (\<lambda>_. 75)
      (snd (PutRecord (snd (PutRecord New ''b.'' (demo_pair 70 30 ! 0))) ''b.'' (demo_pair 70 30 ! 1)))
      (demo_pair 70 30) ''w.b.'' 1 None) = Returns (demo_pair 70 30 ! 1)"
proof -
  let ?S = "RWMutexStore_iface sorted_range" and ?s = "snd (PutRecord (snd (PutRecord New ''b.'' (demo_pair 70 30 ! 0))) ''b.'' (demo_pair 70 30 ! 1))"
  have l: "Lookup_m ?S ?s ''w.b.'' 1 = demo_pair 70 30"
    by (simp add: Lookup_def PutRecord_eq New_def lockedFindZone.simps records_of_def demo_pair_def demo_rec_def putSlice_def)
  have "distinct (map r_Value (Lookup_m ?S ?s ''w.b.'' 1))" unfolding l by (simp add: demo_pair_def demo_rec_def)
  from static_same_as_null [OF this, of "\<lambda>_. 75" None]
  have "map_outcome fst (pick (NewStatic ?S) (\<lambda>_. 75) ?s (demo_pair 70 30) ''w.b.'' 1 None) =
      map_outcome fst (pick Null (\<lambda>_. 75) () (demo_pair 70 30) ''w.b.'' 1 None)" unfolding l .
  also have "\<dots> = Returns (demo_pair 70 30 ! 1)"
    by (simp add: pick_def Null_GetWeights_def demo_pair_def demo_rec_def effectiveWeight_def totalWeight_def Intn_def is_int64_def)
  finally show ?thesis .
qed

section \<open>The Nacos cache\<close>

lemma cacheKey_dataID: "dataID L p f q = np_prefix p @ cacheKey L f q"
  by (simp add: dataID_def cacheKey_def)

lemma update_frame [simp]:
  "np_prefix (update J key d p) = np_prefix p" "np_group (update J key d p) = np_group p"
  "np_watched (update J key d p) = np_watched p" "np_pending (update J key d p) = np_pending p"
  "np_listeners (update J key d p) = np_listeners p"
  by (simp_all add: update_def split: option.split)

lemma update_lookup:
  "fmlookup (np_weights (update J key d p)) k =
     (if k = key then (case J d of None \<Rightarrow> fmlookup (np_weights p) k
        | Some ws \<Rightarrow> if ws = fmempty then None else Some ws)
      else fmlookup (np_weights p) k)"
  by (simp add: update_def split: option.split)

lemma watch_pull_frame [simp]:
  "np_prefix (watch_pull J K key did p) = np_prefix p" "np_group (watch_pull J K key did p) = np_group p"
  "np_watched (watch_pull J K key did p) = np_watched p" "np_pending (watch_pull J K key did p) = np_pending p"
  "np_listeners (watch_pull J K key did p) = np_listeners p"
  by (simp_all add: watch_pull_def split: option.split)

lemma watch_listen_frame [simp]:
  "np_prefix (watch_listen K key did p) = np_prefix p" "np_group (watch_listen K key did p) = np_group p"
  "np_watched (watch_listen K key did p) = np_watched p" "np_pending (watch_listen K key did p) = np_pending p"
  "np_weights (watch_listen K key did p) = np_weights p"
  "np_listeners (watch_listen K key did p) =
     np_listeners p @ (if ListenConfig K (np_group p) did then [(did, key)] else [])"
  by (simp_all add: watch_listen_def)

text \<open>The weight map a configuration stands for: nothing when it is missing, empty, malformed or
  has no entry.\<close>

definition configWeights :: "unmarshal \<Rightarrow> string option \<Rightarrow> weights option" where
  "configWeights J c =
     (case c of None \<Rightarrow> None
      | Some d \<Rightarrow> if d = '''' then None
          else (case J d of None \<Rightarrow> None | Some ws \<Rightarrow> if ws = fmempty then None else Some ws))"

lemma watch_pull_lookup:
  assumes "fmlookup (np_weights p) key = None"
  shows "fmlookup (np_weights (watch_pull J K key did p)) k =
    (if k = key then configWeights J (GetConfig K (np_group p) did) else fmlookup (np_weights p) k)"
  using assms by (auto simp: watch_pull_def configWeights_def update_lookup split: option.splits)

subsection \<open>Invariant of the provider\<close>

text \<open>
  Cached keys, running goroutines and listeners belong to watched keys, no two of the latter two to
  the same key, a goroutine works on the key of its rrset, a listener's data ID is the prefix and
  its key, and no cached map is empty.
\<close>

primrec w_ok :: "mdns_lib \<Rightarrow> watcher \<Rightarrow> bool" where
  "w_ok L (WPull key f q) \<longleftrightarrow> key = cacheKey L f q"
| "w_ok L (WListen key f q) \<longleftrightarrow> key = cacheKey L f q"

definition nacos_wf :: "mdns_lib \<Rightarrow> NacosWeightProvider \<Rightarrow> bool" where
  "nacos_wf L p \<longleftrightarrow>
     distinct (map w_key (np_pending p) @ map snd (np_listeners p)) \<and>
     set (map w_key (np_pending p) @ map snd (np_listeners p)) \<subseteq> fset (np_watched p) \<and>
     fmdom' (np_weights p) \<subseteq> fset (np_watched p) \<and>
     (\<forall>w \<in> set (np_pending p). w_ok L w) \<and>
     (\<forall>l \<in> set (np_listeners p). fst l = np_prefix p @ snd l) \<and>
     cache_wf p"

inductive nacos_step :: "mdns_lib \<Rightarrow> unmarshal \<Rightarrow> NacosWeightProvider \<Rightarrow> NacosWeightProvider \<Rightarrow> bool" for L J where
  get: "nacos_step L J p (snd (Nacos_GetWeights L p f q ip))"
| pull: "np_pending p = a @ WPull key f q # b \<Longrightarrow>
    nacos_step L J p (watch_pull J K key (dataID L p f q) (p\<lparr>np_pending := a @ WListen key f q # b\<rparr>))"
| listen: "np_pending p = a @ WListen key f q # b \<Longrightarrow>
    nacos_step L J p (watch_listen K key (dataID L p f q) (p\<lparr>np_pending := a @ b\<rparr>))"
| push: "(did, key) \<in> set (np_listeners p) \<Longrightarrow> nacos_step L J p (update J key d p)"
| start: "nacos_step L J p (startKey L J K k p)"

lemma cache_wf_update: "cache_wf p \<Longrightarrow> cache_wf (update J key d p)"
  by (auto simp: cache_wf_def update_lookup split: option.split)

lemma cache_wf_pull: "cache_wf p \<Longrightarrow> cache_wf (watch_pull J K key did p)"
  by (simp add: watch_pull_def cache_wf_update split: option.split)

lemma update_dom: "key |\<in>| np_watched p \<Longrightarrow> fmdom' (np_weights p) \<subseteq> fset (np_watched p) \<Longrightarrow>
    fmdom' (np_weights (update J key d p)) \<subseteq> fset (np_watched p)"
  by (auto simp: update_def fmdom'_drop split: option.split)

lemma pull_dom: "key |\<in>| np_watched p \<Longrightarrow> fmdom' (np_weights p) \<subseteq> fset (np_watched p) \<Longrightarrow>
    fmdom' (np_weights (watch_pull J K key did p)) \<subseteq> fset (np_watched p)"
  using update_dom [of key p J] by (simp add: watch_pull_def split: option.split)

lemma nacos_wf_update:
  assumes "nacos_wf L p" and "key |\<in>| np_watched p" shows "nacos_wf L (update J key d p)"
  using assms update_dom [of key p J d] cache_wf_update [of p J key d] by (simp add: nacos_wf_def)

lemma nacos_wf_pull:
  assumes "nacos_wf L p" and "key |\<in>| np_watched p" shows "nacos_wf L (watch_pull J K key did p)"
  using assms pull_dom [of key p J K did] cache_wf_pull [of p J K key did] by (simp add: nacos_wf_def)

lemma nacos_wf_listen:
  assumes "nacos_wf L p" and "key |\<in>| np_watched p" and "did = np_prefix p @ key"
    and "key \<notin> set (map w_key (np_pending p) @ map snd (np_listeners p))"
  shows "nacos_wf L (watch_listen K key did p)"
  using assms by (auto simp: nacos_wf_def cache_wf_def)

lemma nacos_wf_watched:
  assumes "nacos_wf L p" shows "nacos_wf L (p\<lparr>np_watched := finsert key (np_watched p)\<rparr>)"
  using assms by (auto simp: nacos_wf_def cache_wf_def)

lemma nacos_wf_get:
  assumes "nacos_wf L p" shows "nacos_wf L (snd (Nacos_GetWeights L p f q ip))"
  using assms by (auto simp: nacos_wf_def cache_wf_def Nacos_GetWeights_def Let_def)

lemma nacos_wf_startKey:
  assumes "nacos_wf L p" shows "nacos_wf L (startKey L J K k p)"
proof (cases "cacheKey L (k_Name k) (k_Qtype k) |\<in>| np_watched p")
  case False
  let ?key = "cacheKey L (k_Name k) (k_Qtype k)"
  let ?p = "p\<lparr>np_watched := finsert ?key (np_watched p)\<rparr>"
  have "nacos_wf L (watch_pull J K ?key (dataID L ?p (k_Name k) (k_Qtype k)) ?p)"
    by (intro nacos_wf_pull nacos_wf_watched assms) simp
  moreover have "?key \<notin> set (map w_key (np_pending p) @ map snd (np_listeners p))"
    using assms False by (auto simp: nacos_wf_def)
  ultimately show ?thesis
    using False by (auto simp: startKey_def watch_def Let_def cacheKey_dataID intro!: nacos_wf_listen)
qed (use assms in \<open>simp add: startKey_def Let_def\<close>)

lemma nacos_wf_step: "nacos_step L J p p' \<Longrightarrow> nacos_wf L p \<Longrightarrow> nacos_wf L p'"
proof (induction rule: nacos_step.induct)
  case (pull p a key f q b K)
  then have "key |\<in>| np_watched p" and "nacos_wf L (p\<lparr>np_pending := a @ WListen key f q # b\<rparr>)"
    by (auto simp: nacos_wf_def cache_wf_def)
  then show ?case by (intro nacos_wf_pull) simp_all
next
  case (listen p a key f q b K)
  let ?p = "p\<lparr>np_pending := a @ b\<rparr>"
  have "key |\<in>| np_watched p" "key = cacheKey L f q" "nacos_wf L ?p"
    "key \<notin> set (map w_key (np_pending ?p) @ map snd (np_listeners ?p))"
    using listen by (auto simp: nacos_wf_def cache_wf_def)
  then show ?case by (intro nacos_wf_listen) (simp_all add: cacheKey_dataID)
next
  case (push did key p d)
  then have "key \<in> snd ` set (np_listeners p)" by (metis image_eqI snd_conv)
  then have "key \<in> set (map w_key (np_pending p) @ map snd (np_listeners p))" by simp
  then have "key |\<in>| np_watched p" using push.prems unfolding nacos_wf_def by (meson subsetD)
  then show ?case using push.prems by (intro nacos_wf_update)
qed (simp_all add: nacos_wf_get nacos_wf_startKey)

lemma startKeys_steps: "(nacos_step L J)\<^sup>*\<^sup>* p (fold (startKey L J K) ks p)"
proof (induction ks arbitrary: p)
  case (Cons k ks)
  have "nacos_step L J p (startKey L J K k p)" by (rule nacos_step.start)
  with Cons [of "startKey L J K k p"] show ?case by (simp add: converse_rtranclp_into_rtranclp)
qed simp

lemma nacos_wf_reachable: "(nacos_step L J)\<^sup>*\<^sup>* p p' \<Longrightarrow> nacos_wf L p \<Longrightarrow> nacos_wf L p'"
  by (induction rule: rtranclp_induct) (auto intro: nacos_wf_step)

lemma nacos_wf_new: "NewNacosWeightProvider C cfg = Inr (K, p) \<Longrightarrow> nacos_wf L p"
  by (auto simp: NewNacosWeightProvider_def nacos_wf_def cache_wf_def split: sum.splits)

lemma nacos_step_prefix: "nacos_step L J p p' \<Longrightarrow> np_prefix p' = np_prefix p"
  by (induction rule: nacos_step.induct) (simp_all add: startKey_def watch_def Let_def)

lemma nacos_steps_prefix: "(nacos_step L J)\<^sup>*\<^sup>* p p' \<Longrightarrow> np_prefix p' = np_prefix p"
  by (induction rule: rtranclp_induct) (simp_all add: nacos_step_prefix)

subsection \<open>Properties of the Nacos provider\<close>

text \<open>
  C34: listeners are not duplicated. In every state a newly connected provider reaches through lookups,
  the start-up pass, the goroutines it starts and pushes from the server, in any order, every data ID
  has at most one listener, each listener updates the cache entry its data ID is named after, no key
  with a listener has a watching goroutine left, and a cached weight map has an entry and belongs to a
  watched key.
\<close>

theorem nacos_one_listener:
  assumes "NewNacosWeightProvider C cfg = Inr (K, p0)" and "(nacos_step L J)\<^sup>*\<^sup>* p0 p"
  shows "distinct (map fst (np_listeners p)) \<and>
    (\<forall>l \<in> set (np_listeners p). fst l = nc_DataIDPrefix cfg @ snd l \<and> snd l \<notin> w_key ` set (np_pending p)) \<and>
    (\<forall>k ws. fmlookup (np_weights p) k = Some ws \<longrightarrow> ws \<noteq> fmempty \<and> k |\<in>| np_watched p)"
proof -
  have wf: "nacos_wf L p" using nacos_wf_reachable [OF assms(2) nacos_wf_new [OF assms(1)]] .
  have pre: "np_prefix p = nc_DataIDPrefix cfg"
    using assms nacos_steps_prefix [OF assms(2)] by (auto simp: NewNacosWeightProvider_def split: sum.splits)
  have l: "fst l = nc_DataIDPrefix cfg @ snd l" if "l \<in> set (np_listeners p)" for l
    using wf pre that by (simp add: nacos_wf_def)
  then have "map fst (np_listeners p) = map (\<lambda>k. nc_DataIDPrefix cfg @ k) (map snd (np_listeners p))"
    by simp
  moreover have "distinct (map snd (np_listeners p))" using wf by (simp add: nacos_wf_def)
  ultimately have d: "distinct (map fst (np_listeners p))"
    by (simp only: distinct_map inj_on_def) simp
  have g: "snd l \<notin> w_key ` set (np_pending p)" if "l \<in> set (np_listeners p)" for l
  proof -
    have "set (map w_key (np_pending p)) \<inter> set (map snd (np_listeners p)) = {}"
      using wf by (simp add: nacos_wf_def)
    moreover have "snd l \<in> set (map snd (np_listeners p))" using that by simp
    ultimately show ?thesis by auto
  qed
  have c: "ws \<noteq> fmempty \<and> k |\<in>| np_watched p" if "fmlookup (np_weights p) k = Some ws" for k ws
  proof -
    have "k \<in> fmdom' (np_weights p)" using that by (rule fmdom'I)
    moreover have "fmdom' (np_weights p) \<subseteq> fset (np_watched p)" "cache_wf p"
      using wf by (simp_all add: nacos_wf_def)
    ultimately show ?thesis using that by (auto simp: cache_wf_def)
  qed
  show ?thesis using d l g c by blast
qed

definition demo_client :: nacos_client where
  "demo_client = \<lparr>GetConfig = \<lambda>g d. Some ''{}'', ListenConfig = \<lambda>g d. True\<rparr>"

definition demo_nacos :: NacosWeightProvider where
  "demo_nacos = \<lparr>np_group = '''', np_prefix = ''p'', np_weights = fmempty, np_watched = {||},
     np_pending = [], np_listeners = []\<rparr>"

definition demo_cfg :: NacosConfig where
  "demo_cfg = \<lparr>nc_Addr = ''h:1'', nc_Namespace = '''', nc_Group = '''', nc_DataIDPrefix = ''p'',
     nc_Username = '''', nc_Password = ''''\<rparr>"

theorem nacos_one_listener_witness:
  "\<exists>p0 p. NewNacosWeightProvider (\<lambda>_ _ _ _ _. Inr demo_client) demo_cfg = Inr (demo_client, p0) \<and>
     (nacos_step demo_lib (\<lambda>_. Some (fmupd ''v'' 7 fmempty)))\<^sup>*\<^sup>* p0 p \<and>
     map snd (np_listeners p) = [cacheKey demo_lib ''f'' 1, cacheKey demo_lib ''g'' 1] \<and> distinct (map fst (np_listeners p)) \<and>
     cacheKey demo_lib ''f'' 1 \<notin> w_key ` set (np_pending p) \<and> fmlookup (np_weights p) (cacheKey demo_lib ''f'' 1) = Some (fmupd ''v'' 7 fmempty)"
proof -
  let ?J = "\<lambda>_. Some (fmupd ''v'' 7 fmempty)" and ?f = "cacheKey demo_lib ''f'' 1" and ?g = "cacheKey demo_lib ''g'' 1"
  let ?K = "\<lambda>p. dataID demo_lib p ''f'' 1"
  have n: "NewNacosWeightProvider (\<lambda>_ _ _ _ _. Inr demo_client) demo_cfg = Inr (demo_client, demo_nacos)"
    by (simp add: NewNacosWeightProvider_def newNacosClient_def demo_cfg_def demo_nacos_def LastColon_def
        ParseUint_def digit_of_def)
  have fg: "?f \<noteq> ?g" by (simp add: cacheKey_def)
  define p1 where "p1 = snd (Nacos_GetWeights demo_lib demo_nacos ''f'' 1 None)"
  define p2 where "p2 = watch_pull ?J demo_client ?f (?K p1) (p1\<lparr>np_pending := [] @ WListen ?f ''f'' 1 # []\<rparr>)"
  define p3 where "p3 = snd (Nacos_GetWeights demo_lib p2 ''f'' 1 None)"
  define p4 where "p4 = watch_listen demo_client ?f (?K p3) (p3\<lparr>np_pending := [] @ []\<rparr>)"
  define p5 where "p5 = startKey demo_lib ?J demo_client (rkey ''g'' 1) p4"
  have f1: "np_pending p1 = [] @ WPull ?f ''f'' 1 # []" "np_watched p1 = {|?f|}" "np_listeners p1 = []" "np_prefix p1 = ''p''" "np_weights p1 = fmempty"
    by (simp_all add: p1_def Nacos_GetWeights_def demo_nacos_def Let_def)
  have f2: "np_pending p2 = [WListen ?f ''f'' 1]" "np_watched p2 = {|?f|}" "np_listeners p2 = []" "np_prefix p2 = ''p''"
    "fmlookup (np_weights p2) ?f = Some (fmupd ''v'' 7 fmempty)"
    using f1 by (simp_all add: p2_def watch_pull_def demo_client_def update_def)
  have f3: "p3 = p2" using f2(2) by (simp add: p3_def Nacos_GetWeights_def Let_def)
  have f4: "np_pending p4 = []" "np_watched p4 = {|?f|}" "np_listeners p4 = [(?K p2, ?f)]" "np_prefix p4 = ''p''"
    "fmlookup (np_weights p4) ?f = Some (fmupd ''v'' 7 fmempty)"
    using f2 by (simp_all add: p4_def f3 watch_listen_def demo_client_def)
  have f5: "map snd (np_listeners p5) = [?f, ?g]" "fmlookup (np_weights p5) ?f = Some (fmupd ''v'' 7 fmempty)"
    using f4 fg by (simp_all add: p5_def startKey_def watch_def watch_pull_def watch_listen_def Let_def demo_client_def update_def)
  have "nacos_step demo_lib ?J demo_nacos p1" "nacos_step demo_lib ?J p2 p3" "nacos_step demo_lib ?J p4 p5"
    unfolding p1_def p3_def p5_def by (rule nacos_step.get nacos_step.start)+
  moreover have "nacos_step demo_lib ?J p1 p2" unfolding p2_def by (rule nacos_step.pull [OF f1(1)])
  moreover have "np_pending p3 = [] @ WListen ?f ''f'' 1 # []" using f2(1) f3 by simp
  then have "nacos_step demo_lib ?J p3 p4" unfolding p4_def by (rule nacos_step.listen)
  ultimately have r: "(nacos_step demo_lib ?J)\<^sup>*\<^sup>* demo_nacos p5" by (meson converse_rtranclp_into_rtranclp rtranclp.rtrancl_refl)
  from nacos_one_listener [OF n r] have "distinct (map fst (np_listeners p5))" "\<forall>l \<in> set (np_listeners p5). snd l \<notin> w_key ` set (np_pending p5)"
    by blast+
  moreover from this(2) have "?f \<notin> w_key ` set (np_pending p5)" using f5(1) by (cases "np_listeners p5") auto
  ultimately show ?thesis using n r f5 by (intro exI [of _ demo_nacos] exI [of _ p5] conjI) assumption+
qed

text \<open>What a listener has made of the documents pushed to it, oldest first.\<close>

fun lastValid :: "unmarshal \<Rightarrow> string list \<Rightarrow> weights option \<Rightarrow> weights option" where
  "lastValid J [] cur = cur"
| "lastValid J (d # ds) cur =
     lastValid J ds (case J d of None \<Rightarrow> cur | Some ws \<Rightarrow> if ws = fmempty then None else Some ws)"

lemma updates_lookup:
  "fmlookup (np_weights (fold (update J key) ds p)) key = lastValid J ds (fmlookup (np_weights p) key)"
  by (induction ds arbitrary: p) (simp_all add: update_lookup)

text \<open>
  C33: the last valid push wins. After the documents \<open>ds\<close> have been pushed for an rrset, the
  composite provider of the deployed server returns the weights of the last document that decodes,
  malformed ones being ignored; when that one has no entry, or none ever decoded and nothing was
  cached before, it returns the static weights of the rrset.
\<close>

theorem composite_last_push:
  "fst (Composite_GetWeights (NacosProvider L) (NewStatic S) (fold (update J (cacheKey L f q)) ds p, s) f q ip) =
    (case lastValid J ds (fmlookup (np_weights p) (cacheKey L f q)) of
       Some ws \<Rightarrow> Some ws
     | None \<Rightarrow> fst (Static_GetWeights S s f q ip))"
  by (simp add: Composite_fst updates_lookup split: option.split)

subsection \<open>Start-up\<close>

lemma startKey_frame [simp]:
  "np_prefix (startKey L J K k p) = np_prefix p" "np_group (startKey L J K k p) = np_group p"
  "np_pending (startKey L J K k p) = np_pending p"
  "np_watched (startKey L J K k p) = finsert (cacheKey L (k_Name k) (k_Qtype k)) (np_watched p)"
  by (auto simp: startKey_def watch_def Let_def)

text \<open>During the start-up pass the watched keys have the weights of their configuration cached,
  and the other keys have none.\<close>

definition prefetched :: "unmarshal \<Rightarrow> nacos_client \<Rightarrow> NacosWeightProvider \<Rightarrow> bool" where
  "prefetched J K p \<longleftrightarrow>
     (\<forall>key. fmlookup (np_weights p) key =
        (if key |\<in>| np_watched p then configWeights J (GetConfig K (np_group p) (np_prefix p @ key)) else None))"

lemma prefetched_startKey:
  assumes "prefetched J K p" shows "prefetched J K (startKey L J K k p)"
proof (cases "cacheKey L (k_Name k) (k_Qtype k) |\<in>| np_watched p")
  case True
  then show ?thesis using assms by (simp add: startKey_def Let_def)
next
  case False
  let ?key = "cacheKey L (k_Name k) (k_Qtype k)"
  let ?p = "p\<lparr>np_watched := finsert ?key (np_watched p)\<rparr>"
  have "fmlookup (np_weights ?p) ?key = None" using assms False by (simp add: prefetched_def)
  from watch_pull_lookup [OF this, of J K "np_prefix p @ ?key"] show ?thesis
    using assms False unfolding prefetched_def startKey_frame
    by (simp add: startKey_def watch_def Let_def cacheKey_dataID)
qed

lemma prefetched_fold:
  "prefetched J K p \<Longrightarrow> prefetched J K (fold (startKey L J K) ks p)"
  by (induction ks arbitrary: p) (simp_all add: prefetched_startKey)

lemma startKeys_watched:
  "fset (np_watched (fold (startKey L J K) ks p)) =
     fset (np_watched p) \<union> (\<lambda>k. cacheKey L (k_Name k) (k_Qtype k)) ` set ks"
  "np_prefix (fold (startKey L J K) ks p) = np_prefix p"
  "np_group (fold (startKey L J K) ks p) = np_group p"
  by (induction ks arbitrary: p) auto

text \<open>
  C35: the start-up pass leaves no gap. After \<open>Start\<close> on a newly connected provider, a lookup for
  any rrset of the zone store returns exactly the weights its Nacos configuration stands for (none
  when the pull failed, the document is empty or malformed, or has no entry), and starts no further
  goroutine, whatever orders the zones and the record maps are visited in.
\<close>

theorem nacos_prefetch:
  assumes "NewNacosWeightProvider C cfg = Inr (K, p0)"
    and "fmlookup (Snapshot_m S s) a = Some zone" and "fmlookup (z_Records zone) k \<noteq> None"
    and "range_order (zord (Snapshot_m S s)) (Snapshot_m S s)"
    and "range_order (rord (z_Records zone)) (z_Records zone)"
  shows "Nacos_GetWeights L (Nacos_Start L J K zord rord S s p0) (k_Name k) (k_Qtype k) ip =
    (configWeights J (GetConfig K (nc_Group cfg) (nc_DataIDPrefix cfg @ cacheKey L (k_Name k) (k_Qtype k))),
     Nacos_Start L J K zord rord S s p0)"
proof -
  let ?ks = "snapshotKeys zord rord (Snapshot_m S s)" and ?key = "cacheKey L (k_Name k) (k_Qtype k)"
  let ?p = "Nacos_Start L J K zord rord S s p0"
  have p0: "prefetched J K p0" "np_group p0 = nc_Group cfg" "np_prefix p0 = nc_DataIDPrefix cfg"
    using assms(1) by (auto simp: NewNacosWeightProvider_def prefetched_def split: sum.splits)
  have "a \<in> set (zord (Snapshot_m S s))" using range_order_mem [OF assms(4)] assms(2) by simp
  moreover have "k \<in> set (rord (z_Records zone))" using range_order_mem [OF assms(5)] assms(3) by simp
  ultimately have "k \<in> set ?ks" using assms(2) unfolding snapshotKeys_def by force
  then have w: "?key |\<in>| np_watched ?p" by (simp add: Nacos_Start_def startKeys_watched)
  have "prefetched J K ?p" unfolding Nacos_Start_def using prefetched_fold [OF p0(1)] .
  then have "fmlookup (np_weights ?p) ?key =
      configWeights J (GetConfig K (np_group ?p) (np_prefix ?p @ ?key))"
    using w by (simp add: prefetched_def)
  then show ?thesis
    using w p0 by (simp add: Nacos_GetWeights_def Let_def Nacos_Start_def startKeys_watched)
qed

theorem nacos_prefetch_witness:
  "fst (Nacos_GetWeights demo_lib (Nacos_Start demo_lib (\<lambda>_. Some (fmupd ''v'' 7 fmempty)) demo_client
      (\<lambda>_. [''b.'']) (\<lambda>_. [rkey ''w.b.'' 1]) (RWMutexStore_iface sorted_range) (snd (PutRecord New ''b.'' demo_rec))
      demo_nacos) ''w.b.'' 1 None) = Some (fmupd ''v'' 7 fmempty)"
proof -
  let ?S = "RWMutexStore_iface sorted_range" and ?s = "snd (PutRecord New ''b.'' demo_rec)"
  let ?J = "\<lambda>_. Some (fmupd ''v'' 7 fmempty)" and ?k = "rkey ''w.b.'' 1"
  have n: "NewNacosWeightProvider (\<lambda>_ _ _ _ _. Inr demo_client) demo_cfg = Inr (demo_client, demo_nacos)"
    by (simp add: NewNacosWeightProvider_def newNacosClient_def demo_cfg_def demo_nacos_def LastColon_def
        ParseUint_def digit_of_def)
  obtain z where z: "fmlookup (Snapshot_m ?S ?s) ''b.'' = Some z" "fmdom' (z_Records z) = {rkey ''w.b.'' 1}"
    "fmdom' (Snapshot_m ?S ?s) = {''b.''}"
    by (simp add: PutRecord_def New_def Snapshot_def demo_rec_def Let_def)
  have k: "fmlookup (z_Records z) ?k \<noteq> None"
    using z(2) fmdom'_notI [of "z_Records z" ?k] by auto
  have eq: "Nacos_GetWeights demo_lib (Nacos_Start demo_lib ?J demo_client (\<lambda>_. [''b.'']) (\<lambda>_. [?k]) ?S ?s demo_nacos)
      (k_Name ?k) (k_Qtype ?k) None =
    (configWeights ?J (GetConfig demo_client (nc_Group demo_cfg)
       (nc_DataIDPrefix demo_cfg @ cacheKey demo_lib (k_Name ?k) (k_Qtype ?k))),
     Nacos_Start demo_lib ?J demo_client (\<lambda>_. [''b.'']) (\<lambda>_. [?k]) ?S ?s demo_nacos)"
    by (rule nacos_prefetch [OF n z(1) k]) (use z in \<open>simp_all add: range_order_def\<close>)
  show ?thesis using arg_cong [OF eq, of fst] unfolding fst_conv RecordKey.select_convs
    by (simp add: configWeights_def demo_client_def)
qed

subsection \<open>Cache keys\<close>

text \<open>
  The names in the DNS library's type table have no colon and none looks like the generic
  \<^verbatim>\<open>TYPE<number>\<close>.
\<close>

definition type_names_ok :: "mdns_lib \<Rightarrow> bool" where
  "type_names_ok L \<longleftrightarrow>
     (\<forall>t. CHR '':'' \<notin> set (TypeToString L t)) \<and> (\<forall>t n. TypeToString L t \<noteq> ''TYPE'' @ Utoa n)"

lemma typeStr_inj:
  assumes "mdns_ok L" and "type_names_ok L" and "typeStr L q = typeStr L q'" shows "q = q'"
proof -
  have t: "unat x < 2 ^ 64" for x :: u16 using unsigned_less [of x, where ?'a = nat] by simp
  consider "TypeToString L q \<noteq> ''''" "TypeToString L q' \<noteq> ''''" | "TypeToString L q = ''''" "TypeToString L q' = ''''"
    | "TypeToString L q \<noteq> ''''" "TypeToString L q' = ''''" | "TypeToString L q = ''''" "TypeToString L q' \<noteq> ''''"
    by blast
  then show ?thesis
  proof cases
    case 1
    then have "TypeToString L q = TypeToString L q'" using assms(3) by (simp add: typeStr_def)
    moreover have "StringToType L (TypeToString L q) = Some q" "StringToType L (TypeToString L q') = Some q'"
      by (rule mdns_ok_types(2) [OF assms(1)], rule 1)+
    ultimately have "Some q = Some q'" by (simp only:)
    then show ?thesis by (rule option.inject [THEN iffD1])
  next
    case 2
    then have "Utoa (unat q) = Utoa (unat q')" using assms(3) by (simp add: typeStr_def)
    then show ?thesis using Utoa_inject [OF t t] by (simp add: word_unat_eq_iff)
  next
    case 3
    then show ?thesis using assms(2,3) unfolding typeStr_def type_names_ok_def by simp
  next
    case 4
    then have "TypeToString L q' = ''TYPE'' @ Utoa (unat q)" using assms(3) unfolding typeStr_def by simp
    then show ?thesis using assms(2) unfolding type_names_ok_def by blast
  qed
qed

lemma typeStr_colon: "type_names_ok L \<Longrightarrow> CHR '':'' \<notin> set (typeStr L q)"
  using Utoa_chars [of "CHR '':''"] by (auto simp: typeStr_def type_names_ok_def)

lemma last_split:
  "xs @ c # ys = xs' @ c # ys' \<Longrightarrow> c \<notin> set ys \<Longrightarrow> c \<notin> set ys' \<Longrightarrow> xs = xs' \<and> ys = ys'"
proof (induction xs arbitrary: xs')
  case Nil
  then show ?case by (cases xs') auto
next
  case (Cons x xs)
  then show ?case by (cases xs') auto
qed

text \<open>
  Two rrsets never share a cache entry or a Nacos data ID: the key determines the owner name and
  the type, whatever characters the owner name has.
\<close>

lemma cacheKey_injective:
  assumes "mdns_ok L" and "type_names_ok L"
  shows "(cacheKey L f q = cacheKey L f' q' \<longleftrightarrow> f = f' \<and> q = q') \<and>
    (dataID L p f q = dataID L p f' q' \<longleftrightarrow> f = f' \<and> q = q')"
proof -
  have "f = f' \<and> q = q'" if "cacheKey L f q = cacheKey L f' q'"
    using last_split [of f "CHR '':''" "typeStr L q" f' "typeStr L q'"] that assms typeStr_inj typeStr_colon
    by (auto simp: cacheKey_def)
  then show ?thesis by (auto simp: cacheKey_dataID)
qed

subsection \<open>Client subnets\<close>

text \<open>
  The answer does not depend on the client's subnet, as the scope 0 the handler sends back
  says: with the providers of the deployed server, \<open>handleQuery\<close> builds the same message and
  leaves the same state for every client address.
\<close>

lemma answer_ignores_subnet:
  assumes "hd_weights H = NewComposite (NacosProvider L) (NewStatic S)"
  shows "handleQuery L H intn obs w m r q ip = handleQuery L H intn obs w m r q ip'"
  using deployed.comp.handleQuery_blind [OF assms] .

end
