(* ===== verification/PG_Store.thy ===== *)
theory PG_Store
  imports Zone_Store Strconv "HOL-Library.Multiset"
begin

text \<open>
  \<^verbatim>\<open>internal/pg\<close>: the PostgreSQL-backed store. The two tables of the schema are lists of rows, each
  SQL statement of the source is a function on them, and each method is the Go code around its
  statements. \<open>now\<close> is the time of the statement (\<^verbatim>\<open>NOW()\<close>), in microseconds.

  A statement meets one of three fates: it is executed and its result arrives, it fails before it
  is executed, or it is executed and the connection breaks before the result arrives. A query whose
  rows are read one by one may break off after any number of them. The order in which a query
  without a complete \<^verbatim>\<open>ORDER BY\<close> returns its rows is the argument \<open>scan\<close>, and \<open>le\<close> is the collation
  of the database.
\<close>

section \<open>Tables\<close>

record zone_row =
  zr_id :: int
  zr_name :: string
  zr_updated :: int
  zr_deleted :: "int option"

record rec_row =
  rr_id :: int
  rr_zone :: int
  rr_name :: string
  rr_type :: string
  rr_ttl :: int
  rr_value :: string
  rr_weight :: int
  rr_updated :: int
  rr_deleted :: "int option"

text \<open>The rows, the next values of the two \<^verbatim>\<open>BIGSERIAL\<close> sequences, and the names in the schema.\<close>

record DB =
  db_zones :: "zone_row list"
  db_records :: "rec_row list"
  db_zseq :: int
  db_rseq :: int
  db_tables :: "string list"
  db_constraints :: "string list"
  db_indexes :: "string list"
  db_triggers :: "string list"

datatype sql_error =
    ErrNoRows
  | ConnError
  | UniqueViolation string
  | UndefinedTable string
  | UndefinedConstraint string
  | NoArbiter
  | ForeignKeyViolation string
  | OutOfRange
  | ScanError

datatype pg_error =
    ErrNotFound
  | ErrConflict
  | PgError sql_error
  | PgParse string
  | PgStore store_error

datatype fate = Done | Failed | Lost

type_synonym 'a stmt = "DB \<Rightarrow> (sql_error + 'a) \<times> DB"

definition run_stmt :: "fate \<Rightarrow> 'a stmt \<Rightarrow> 'a stmt" where
  "run_stmt fate f db =
     (case fate of
        Done \<Rightarrow> f db
      | Failed \<Rightarrow> (Inl ConnError, db)
      | Lost \<Rightarrow> (Inl ConnError, snd (f db)))"

text \<open>Whether a value fits the column type \<^verbatim>\<open>INTEGER\<close>.\<close>

definition fits_int4 :: "int \<Rightarrow> bool" where
  "fits_int4 x \<longleftrightarrow> - (2 ^ 31) \<le> x \<and> x < 2 ^ 31"

definition isConflict :: "sql_error \<Rightarrow> bool" where
  "isConflict e = (case e of UniqueViolation _ \<Rightarrow> True | _ \<Rightarrow> False)"

section \<open>The schema\<close>

definition empty_db :: DB where
  "empty_db = \<lparr>db_zones = [], db_records = [], db_zseq = 1, db_rseq = 1, db_tables = [],
     db_constraints = [], db_indexes = [], db_triggers = []\<rparr>"

definition active_key :: "rec_row \<Rightarrow> (int \<times> string \<times> string \<times> string) option" where
  "active_key r = (if rr_deleted r = None then Some (rr_zone r, rr_name r, rr_type r, rr_value r) else None)"

definition active_keys :: "rec_row list \<Rightarrow> (int \<times> string \<times> string \<times> string) list" where
  "active_keys rs = List.map_filter active_key rs"

text \<open>\<^verbatim>\<open>CREATE TABLE IF NOT EXISTS\<close> creates the constraints of the table with it.\<close>

definition create_table :: "string \<Rightarrow> string list \<Rightarrow> DB \<Rightarrow> DB" where
  "create_table t cs db =
     (if t \<in> set (db_tables db) then db
      else db\<lparr>db_tables := t # db_tables db, db_constraints := cs @ db_constraints db\<rparr>)"

definition create_index :: "string \<Rightarrow> DB \<Rightarrow> DB" where
  "create_index i db = (if i \<in> set (db_indexes db) then db else db\<lparr>db_indexes := i # db_indexes db\<rparr>)"

definition create_trigger :: "string \<Rightarrow> DB \<Rightarrow> DB" where
  "create_trigger t db = (if t \<in> set (db_triggers db) then db else db\<lparr>db_triggers := t # db_triggers db\<rparr>)"

text \<open>The statements of \<open>schemaSQL\<close> in order; building the unique index fails, and with it the whole
  script, when the active rows have duplicates.\<close>

definition schemaSQL :: "unit stmt" where
  "schemaSQL db =
     (let db1 = create_index ''idx_zones_updated_at'' (create_table ''zones'' [''zones_pkey'', ''zones_name_key''] db);
          db2 = create_table ''records'' [''records_pkey'', ''records_zone_id_fkey''] db1;
          db3 = create_index ''idx_records_zone_lookup'' (create_index ''idx_records_updated_at'' db2)
      in if ''records_unique_active_rrset'' \<notin> set (db_indexes db3) \<and> \<not> distinct (active_keys (db_records db3))
         then (Inl (UniqueViolation ''records_unique_active_rrset''), db)
         else (Inr (), create_trigger ''trg_records_updated_at'' (create_trigger ''trg_zones_updated_at''
                 (create_index ''records_unique_active_rrset'' db3))))"

definition EnsureSchema :: "fate \<Rightarrow> DB \<Rightarrow> pg_error option \<times> DB" where
  "EnsureSchema fate db =
     (case run_stmt fate schemaSQL db of
        (Inl e, db') \<Rightarrow> (Some (PgError e), db')
      | (Inr _, db') \<Rightarrow> (None, db'))"

text \<open>The trigger \<open>set_updated_at\<close> of a table stamps every updated row.\<close>

definition stamp_zone :: "DB \<Rightarrow> int \<Rightarrow> zone_row \<Rightarrow> zone_row" where
  "stamp_zone db now z = (if ''trg_zones_updated_at'' \<in> set (db_triggers db) then z\<lparr>zr_updated := now\<rparr> else z)"

definition stamp_record :: "DB \<Rightarrow> int \<Rightarrow> rec_row \<Rightarrow> rec_row" where
  "stamp_record db now r = (if ''trg_records_updated_at'' \<in> set (db_triggers db) then r\<lparr>rr_updated := now\<rparr> else r)"

section \<open>Zones\<close>

definition active_zone :: "string \<Rightarrow> zone_row \<Rightarrow> bool" where
  "active_zone name z \<longleftrightarrow> zr_name z = name \<and> zr_deleted z = None"

text \<open>The \<^verbatim>\<open>INSERT\<close> of \<open>CreateZone\<close> needs a unique constraint on the name to infer; it takes a number
  from the sequence even when the row conflicts.\<close>

definition insert_zone :: "int \<Rightarrow> string \<Rightarrow> int stmt" where
  "insert_zone now name db =
     (if ''zones'' \<notin> set (db_tables db) then (Inl (UndefinedTable ''zones''), db)
      else if ''zones_name_key'' \<notin> set (db_constraints db) then (Inl NoArbiter, db)
      else
        (let zid = db_zseq db; db1 = db\<lparr>db_zseq := zid + 1\<rparr> in
         if \<exists>z \<in> set (db_zones db). zr_name z = name then (Inl ErrNoRows, db1)
         else (Inr zid, db1\<lparr>db_zones := db_zones db @
                 [\<lparr>zr_id = zid, zr_name = name, zr_updated = now, zr_deleted = None\<rparr>]\<rparr>)))"

definition select_zone :: "string \<Rightarrow> ZoneMeta stmt" where
  "select_zone name db =
     (if ''zones'' \<notin> set (db_tables db) then (Inl (UndefinedTable ''zones''), db)
      else case filter (active_zone name) (db_zones db) of
        [] \<Rightarrow> (Inl ErrNoRows, db)
      | z # _ \<Rightarrow> (Inr \<lparr>zm_ID = zr_id z, zm_Name = zr_name z\<rparr>, db))"

definition CreateZone :: "(nat \<Rightarrow> fate) \<Rightarrow> int \<Rightarrow> DB \<Rightarrow> string \<Rightarrow> (pg_error + ZoneMeta \<times> bool) \<times> DB" where
  "CreateZone fate now db name =
     (case run_stmt (fate 0) (insert_zone now name) db of
        (Inr zid, db1) \<Rightarrow> (Inr (\<lparr>zm_ID = zid, zm_Name = name\<rparr>, True), db1)
      | (Inl e, db1) \<Rightarrow>
          if e \<noteq> ErrNoRows then (Inl (PgError e), db1)
          else
            (case run_stmt (fate 1) (select_zone name) db1 of
               (Inl e', db2) \<Rightarrow> (Inl (PgError e'), db2)
             | (Inr z, db2) \<Rightarrow> (Inr (\<lparr>zm_ID = zm_ID z, zm_Name = name\<rparr>, False), db2)))"

definition GetZone :: "fate \<Rightarrow> DB \<Rightarrow> string \<Rightarrow> pg_error + ZoneMeta" where
  "GetZone fate db apex =
     (case fst (run_stmt fate (select_zone apex) db) of
        Inl e \<Rightarrow> if e = ErrNoRows then Inl ErrNotFound else Inl (PgError e)
      | Inr z \<Rightarrow> Inr z)"

definition delete_zone :: "int \<Rightarrow> string \<Rightarrow> nat stmt" where
  "delete_zone now apex db =
     (if ''zones'' \<notin> set (db_tables db) then (Inl (UndefinedTable ''zones''), db)
      else (Inr (length (filter (active_zone apex) (db_zones db))),
        db\<lparr>db_zones := map (\<lambda>z. if active_zone apex z then stamp_zone db now (z\<lparr>zr_deleted := Some now\<rparr>) else z)
             (db_zones db)\<rparr>))"

definition SoftDeleteZone :: "fate \<Rightarrow> int \<Rightarrow> DB \<Rightarrow> string \<Rightarrow> pg_error option \<times> DB" where
  "SoftDeleteZone fate now db apex =
     (case run_stmt fate (delete_zone now apex) db of
        (Inl e, db') \<Rightarrow> (Some (PgError e), db')
      | (Inr n, db') \<Rightarrow> (if n = 0 then Some ErrNotFound else None, db'))"

text \<open>\<^verbatim>\<open>ORDER BY\<close>: a stable insertion sort of the rows as scanned.\<close>

primrec insort_by :: "('a \<Rightarrow> 'a \<Rightarrow> bool) \<Rightarrow> 'a \<Rightarrow> 'a list \<Rightarrow> 'a list" where
  "insort_by le x [] = [x]"
| "insort_by le x (y # ys) = (if le x y then x # y # ys else y # insort_by le x ys)"

definition order_by :: "('a \<Rightarrow> 'a \<Rightarrow> bool) \<Rightarrow> 'a list \<Rightarrow> 'a list" where
  "order_by le xs = foldr (insort_by le) xs []"

text \<open>The rows a query delivers before it ends or breaks off: \<open>brk\<close> is the number of rows after
  which it breaks.\<close>

definition delivered :: "nat option \<Rightarrow> 'a list \<Rightarrow> 'a list" where
  "delivered brk rows = (case brk of None \<Rightarrow> rows | Some n \<Rightarrow> take n rows)"

definition ListZones :: "fate \<Rightarrow> nat option \<Rightarrow> (string \<Rightarrow> string \<Rightarrow> bool) \<Rightarrow> (zone_row list \<Rightarrow> zone_row list) \<Rightarrow>
    DB \<Rightarrow> pg_error + ZoneMeta list" where
  "ListZones fate brk le scan db =
     (if fate \<noteq> Done then Inl (PgError ConnError)
      else if ''zones'' \<notin> set (db_tables db) then Inl (PgError (UndefinedTable ''zones''))
      else
        (let rows = order_by (\<lambda>a b. le (zr_name a) (zr_name b)) (scan (filter (\<lambda>z. zr_deleted z = None) (db_zones db)));
             out = map (\<lambda>z. \<lparr>zm_ID = zr_id z, zm_Name = zr_name z\<rparr>) (delivered brk rows)
         in if brk = None then Inr out else Inl (PgError ConnError)))"

section \<open>Records\<close>

text \<open>\<^verbatim>\<open>fmt.Sprintf("%s %d IN %s %s", name, ttl, typ, value)\<close>, with the number already printed.\<close>

definition rrText :: "string \<Rightarrow> string \<Rightarrow> string \<Rightarrow> string \<Rightarrow> string" where
  "rrText name ttl typ value = name @ '' '' @ ttl @ '' IN '' @ typ @ '' '' @ value"

definition parseRR :: "mdns_lib \<Rightarrow> string \<Rightarrow> u32 \<Rightarrow> string \<Rightarrow> string \<Rightarrow> string + RR option" where
  "parseRR L name ttl typStr value = NewRR L (rrText name (Utoa (unat ttl)) typStr value)"

definition typeName :: "mdns_lib \<Rightarrow> u16 \<Rightarrow> string" where
  "typeName L t = (if TypeToString L t = '''' then ''TYPE'' @ Utoa (unat t) else TypeToString L t)"

text \<open>A missing key of \<^verbatim>\<open>mdns.StringToType\<close> reads as the type 0.\<close>

definition typeOf :: "mdns_lib \<Rightarrow> string \<Rightarrow> u16" where
  "typeOf L s = (case StringToType L s of None \<Rightarrow> 0 | Some t \<Rightarrow> t)"

text \<open>Scanning a row into a \<open>Record\<close>: the TTL has to fit a \<^verbatim>\<open>uint32\<close>. The RR is parsed afterwards.\<close>

definition scan_record :: "mdns_lib \<Rightarrow> rec_row \<Rightarrow> pg_error + Record" where
  "scan_record L r =
     (if rr_ttl r < 0 then Inl (PgError ScanError)
      else
        (let ttl = word_of_int (rr_ttl r) :: u32 in
         case parseRR L (rr_name r) ttl (rr_type r) (rr_value r) of
           Inl e \<Rightarrow> Inl (PgParse e)
         | Inr rr \<Rightarrow> Inr \<lparr>r_ID = rr_id r, r_Name = rr_name r, r_Type = typeOf L (rr_type r), r_TTL = ttl,
             r_Value = rr_value r, r_Weight = rr_weight r, r_RR = rr\<rparr>))"

definition same_rrset :: "int \<Rightarrow> string \<Rightarrow> string \<Rightarrow> string \<Rightarrow> rec_row \<Rightarrow> bool" where
  "same_rrset zid name typ value r \<longleftrightarrow> active_key r = Some (zid, name, typ, value)"

text \<open>
  \<open>queryCreateRecord\<close>. The conflict target is a constraint by name; the arguments are converted to
  the column types first. A constraint of that name arbitrates over the active rows.
\<close>

definition insert_record :: "int \<Rightarrow> int \<Rightarrow> string \<Rightarrow> string \<Rightarrow> int \<Rightarrow> string \<Rightarrow> int \<Rightarrow> rec_row stmt" where
  "insert_record now zid name typ ttl value weight db =
     (if ''records'' \<notin> set (db_tables db) then (Inl (UndefinedTable ''records''), db)
      else if ''records_unique_active_rrset'' \<notin> set (db_constraints db)
        then (Inl (UndefinedConstraint ''records_unique_active_rrset''), db)
      else if \<not> fits_int4 ttl \<or> \<not> fits_int4 weight then (Inl OutOfRange, db)
      else
        (let rid = db_rseq db; db1 = db\<lparr>db_rseq := rid + 1\<rparr>;
             row = \<lparr>rr_id = rid, rr_zone = zid, rr_name = name, rr_type = typ, rr_ttl = ttl, rr_value = value,
                    rr_weight = weight, rr_updated = now, rr_deleted = None\<rparr>
         in if \<exists>r \<in> set (db_records db). same_rrset zid name typ value r then (Inl ErrNoRows, db1)
            else if ''records_zone_id_fkey'' \<in> set (db_constraints db) \<and> zid \<notin> zr_id ` set (db_zones db) then (Inl (ForeignKeyViolation ''records_zone_id_fkey''), db1)
            else (Inr row, db1\<lparr>db_records := db_records db @ [row]\<rparr>)))"

definition select_record :: "int \<Rightarrow> string \<Rightarrow> string \<Rightarrow> string \<Rightarrow> rec_row stmt" where
  "select_record zid name typ value db =
     (if ''records'' \<notin> set (db_tables db) then (Inl (UndefinedTable ''records''), db)
      else case filter (same_rrset zid name typ value) (db_records db) of
        [] \<Rightarrow> (Inl ErrNoRows, db)
      | r # _ \<Rightarrow> (Inr r, db))"

definition CreateRecord :: "mdns_lib \<Rightarrow> (nat \<Rightarrow> fate) \<Rightarrow> int \<Rightarrow> DB \<Rightarrow> int \<Rightarrow> Record \<Rightarrow> (pg_error + Record \<times> bool) \<times> DB" where
  "CreateRecord L fate now db zoneID rec =
     (let typStr = typeName L (r_Type rec) in
      case run_stmt (fate 0) (insert_record now zoneID (r_Name rec) typStr (uint (r_TTL rec)) (r_Value rec) (r_Weight rec)) db of
        (Inr row, db1) \<Rightarrow>
          (case scan_record L row of Inl e \<Rightarrow> (Inl e, db1) | Inr out \<Rightarrow> (Inr (out, True), db1))
      | (Inl e, db1) \<Rightarrow>
          if e \<noteq> ErrNoRows then (Inl (PgError e), db1)
          else
            (case run_stmt (fate 1) (select_record zoneID (r_Name rec) typStr (r_Value rec)) db1 of
               (Inl e', db2) \<Rightarrow> (Inl (PgError e'), db2)
             | (Inr row, db2) \<Rightarrow>
                 (case scan_record L row of Inl e' \<Rightarrow> (Inl e', db2) | Inr out \<Rightarrow> (Inr (out, False), db2))))"

text \<open>\<open>queryUpdateRecord\<close>: the row may be a deleted one, which it makes active again.\<close>

definition set_fields :: "string \<Rightarrow> string \<Rightarrow> int \<Rightarrow> string \<Rightarrow> int \<Rightarrow> rec_row \<Rightarrow> rec_row" where
  "set_fields name typ ttl value weight r =
     r\<lparr>rr_name := name, rr_type := typ, rr_ttl := ttl, rr_value := value, rr_weight := weight, rr_deleted := None\<rparr>"

definition update_record :: "int \<Rightarrow> int \<Rightarrow> int \<Rightarrow> string \<Rightarrow> string \<Rightarrow> int \<Rightarrow> string \<Rightarrow> int \<Rightarrow> rec_row stmt" where
  "update_record now rid zid name typ ttl value weight db =
     (if ''records'' \<notin> set (db_tables db) then (Inl (UndefinedTable ''records''), db)
      else if \<not> fits_int4 ttl \<or> \<not> fits_int4 weight then (Inl OutOfRange, db)
      else
        (case filter (\<lambda>r. rr_id r = rid \<and> rr_zone r = zid) (db_records db) of
           [] \<Rightarrow> (Inl ErrNoRows, db)
         | r # _ \<Rightarrow>
             (let row = stamp_record db now (set_fields name typ ttl value weight r);
                  rows = map (\<lambda>x. if rr_id x = rid \<and> rr_zone x = zid then row else x) (db_records db)
              in if ''records_unique_active_rrset'' \<in> set (db_indexes db) \<and>
                    (\<exists>x \<in> set (db_records db). \<not> (rr_id x = rid \<and> rr_zone x = zid) \<and> same_rrset zid name typ value x)
                 then (Inl (UniqueViolation ''records_unique_active_rrset''), db)
                 else (Inr row, db\<lparr>db_records := rows\<rparr>))))"

definition UpdateRecord :: "mdns_lib \<Rightarrow> fate \<Rightarrow> int \<Rightarrow> DB \<Rightarrow> int \<Rightarrow> int \<Rightarrow> Record \<Rightarrow> (pg_error + Record) \<times> DB" where
  "UpdateRecord L fate now db zoneID rid rec =
     (case run_stmt fate (update_record now rid zoneID (r_Name rec) (typeName L (r_Type rec)) (uint (r_TTL rec))
             (r_Value rec) (r_Weight rec)) db of
        (Inl e, db') \<Rightarrow>
          (Inl (if e = ErrNoRows then ErrNotFound else if isConflict e then ErrConflict else PgError e), db')
      | (Inr row, db') \<Rightarrow> (scan_record L row, db'))"

definition active_record :: "int \<Rightarrow> int \<Rightarrow> rec_row \<Rightarrow> bool" where
  "active_record rid zid r \<longleftrightarrow> rr_id r = rid \<and> rr_zone r = zid \<and> rr_deleted r = None"

definition delete_record :: "int \<Rightarrow> int \<Rightarrow> int \<Rightarrow> nat stmt" where
  "delete_record now rid zid db =
     (if ''records'' \<notin> set (db_tables db) then (Inl (UndefinedTable ''records''), db)
      else (Inr (length (filter (active_record rid zid) (db_records db))),
        db\<lparr>db_records := map (\<lambda>r. if active_record rid zid r then stamp_record db now (r\<lparr>rr_deleted := Some now\<rparr>) else r)
             (db_records db)\<rparr>))"

definition SoftDeleteRecord :: "fate \<Rightarrow> int \<Rightarrow> DB \<Rightarrow> int \<Rightarrow> int \<Rightarrow> pg_error option \<times> DB" where
  "SoftDeleteRecord fate now db zoneID rid =
     (case run_stmt fate (delete_record now rid zoneID) db of
        (Inl e, db') \<Rightarrow> (Some (PgError e), db')
      | (Inr n, db') \<Rightarrow> (if n = 0 then Some ErrNotFound else None, db'))"

text \<open>The loop of \<open>ListRecords\<close>: a row that cannot be scanned ends it, a malformed RR is skipped.\<close>

fun collect :: "mdns_lib \<Rightarrow> rec_row list \<Rightarrow> pg_error + Record list" where
  "collect L [] = Inr []"
| "collect L (row # rows) =
     (case scan_record L row of
        Inl (PgParse e) \<Rightarrow> collect L rows
      | Inl e \<Rightarrow> Inl e
      | Inr r \<Rightarrow> map_sum id (Cons r) (collect L rows))"

definition rec_le :: "(string \<Rightarrow> string \<Rightarrow> bool) \<Rightarrow> rec_row \<Rightarrow> rec_row \<Rightarrow> bool" where
  "rec_le le a b \<longleftrightarrow> le (rr_name a) (rr_name b) \<and> (le (rr_name b) (rr_name a) \<longrightarrow> le (rr_type a) (rr_type b))"

definition ListRecords :: "mdns_lib \<Rightarrow> fate \<Rightarrow> nat option \<Rightarrow> (string \<Rightarrow> string \<Rightarrow> bool) \<Rightarrow> (rec_row list \<Rightarrow> rec_row list) \<Rightarrow>
    DB \<Rightarrow> string \<Rightarrow> pg_error + Record list" where
  "ListRecords L fate brk le scan db apex =
     (if fate \<noteq> Done then Inl (PgError ConnError)
      else if ''records'' \<notin> set (db_tables db) then Inl (PgError (UndefinedTable ''records''))
      else
        (let zids = map zr_id (filter (active_zone apex) (db_zones db));
             rows = order_by (rec_le le) (scan (filter (\<lambda>r. rr_zone r \<in> set zids \<and> rr_deleted r = None) (db_records db)))
         in case collect L (delivered brk rows) of
              Inl e \<Rightarrow> Inl e
            | Inr out \<Rightarrow> if brk = None then Inr out else Inl (PgError ConnError)))"

section \<open>Invariant of the database\<close>

definition schema_ok :: "DB \<Rightarrow> bool" where
  "schema_ok db \<longleftrightarrow> {''zones'', ''records''} \<subseteq> set (db_tables db) \<and>
     {''zones_name_key'', ''records_zone_id_fkey''} \<subseteq> set (db_constraints db) \<and>
     ''records_unique_active_rrset'' \<in> set (db_indexes db) \<and>
     {''trg_zones_updated_at'', ''trg_records_updated_at''} \<subseteq> set (db_triggers db)"

text \<open>
  Identifiers are positive, unique and below the sequences, and TTLs are not negative; zone names are unique, deleted zones
  included; no two active records agree in zone, name, type and value; every record has its zone.
\<close>

definition zones_wf :: "zone_row list \<Rightarrow> int \<Rightarrow> bool" where
  "zones_wf zs n \<longleftrightarrow> distinct (map zr_id zs) \<and> distinct (map zr_name zs) \<and> (\<forall>z \<in> set zs. 0 < zr_id z \<and> zr_id z < n)"

definition recs_wf :: "rec_row list \<Rightarrow> int set \<Rightarrow> int \<Rightarrow> bool" where
  "recs_wf rs zids n \<longleftrightarrow> distinct (map rr_id rs) \<and>
     (\<forall>r \<in> set rs. 0 < rr_id r \<and> rr_id r < n \<and> rr_zone r \<in> zids \<and> 0 \<le> rr_ttl r \<and> fits_int4 (rr_ttl r) \<and> fits_int4 (rr_weight r)) \<and>
     (\<forall>r \<in> set rs. \<forall>r' \<in> set rs. active_key r \<noteq> None \<longrightarrow> active_key r = active_key r' \<longrightarrow> r = r')"

definition db_wf :: "DB \<Rightarrow> bool" where
  "db_wf db \<longleftrightarrow> schema_ok db \<and> zones_wf (db_zones db) (db_zseq db) \<and> 0 < db_zseq db \<and> 0 < db_rseq db \<and>
     recs_wf (db_records db) (zr_id ` set (db_zones db)) (db_rseq db)"

lemma stamp_simps [simp]:
  "zr_id (stamp_zone db now z) = zr_id z" "zr_name (stamp_zone db now z) = zr_name z"
  "zr_deleted (stamp_zone db now z) = zr_deleted z"
  "rr_id (stamp_record db now r) = rr_id r" "rr_zone (stamp_record db now r) = rr_zone r"
  "rr_name (stamp_record db now r) = rr_name r" "rr_type (stamp_record db now r) = rr_type r"
  "rr_value (stamp_record db now r) = rr_value r" "rr_deleted (stamp_record db now r) = rr_deleted r"
  "rr_ttl (stamp_record db now r) = rr_ttl r" "rr_weight (stamp_record db now r) = rr_weight r"
  by (simp_all add: stamp_zone_def stamp_record_def)

lemma schema_ok_simps:
  assumes "schema_ok db"
  shows "''zones'' \<in> set (db_tables db)" "''records'' \<in> set (db_tables db)"
    "''zones_name_key'' \<in> set (db_constraints db)" "''records_zone_id_fkey'' \<in> set (db_constraints db)"
    "''records_unique_active_rrset'' \<in> set (db_indexes db)"
    "''trg_zones_updated_at'' \<in> set (db_triggers db)" "''trg_records_updated_at'' \<in> set (db_triggers db)"
  using assms by (simp_all add: schema_ok_def)

text \<open>Rows change in place by a function that keeps the identifier.\<close>

lemma zones_wf_map:
  assumes "zones_wf zs n" and "\<And>z. zr_id (f z) = zr_id z" and "\<And>z. zr_name (f z) = zr_name z"
  shows "zones_wf (map f zs) n"
  using assms by (simp add: zones_wf_def comp_def)

lemma zones_wf_snoc:
  assumes "zones_wf zs n" and "zr_id z = n" and "0 < n" and "zr_name z \<notin> zr_name ` set zs"
  shows "zones_wf (zs @ [z]) (n + 1)"
  using assms by (auto simp: zones_wf_def)

lemma recs_wf_snoc:
  assumes "recs_wf rs zids n" and "rr_id r = n" and "0 < n" and "rr_zone r \<in> zids"
    and "0 \<le> rr_ttl r" and "fits_int4 (rr_ttl r)" and "fits_int4 (rr_weight r)"
    and "\<And>x. x \<in> set rs \<Longrightarrow> active_key x \<noteq> active_key r"
  shows "recs_wf (rs @ [r]) zids (n + 1)"
proof -
  have "rr_id r \<notin> rr_id ` set rs" using assms(1,2) by (auto simp: recs_wf_def)
  then show ?thesis using assms unfolding recs_wf_def by (auto dest: less_trans)
qed

lemma recs_wf_map:
  assumes "recs_wf rs zids n" and "\<And>r. r \<in> set rs \<Longrightarrow> rr_id (f r) = rr_id r \<and> rr_zone (f r) = rr_zone r \<and>
      0 \<le> rr_ttl (f r) \<and> fits_int4 (rr_ttl (f r)) \<and> fits_int4 (rr_weight (f r))"
    and "\<And>r r'. r \<in> set rs \<Longrightarrow> r' \<in> set rs \<Longrightarrow> active_key (f r) \<noteq> None \<Longrightarrow> active_key (f r) = active_key (f r') \<Longrightarrow> r = r'"
  shows "recs_wf (map f rs) zids n"
proof -
  have d: "distinct (map rr_id rs)" using assms(1) by (simp add: recs_wf_def)
  have "map rr_id (map f rs) = map rr_id rs" using assms(2) by simp
  with d have d': "distinct (map rr_id (map f rs))" by (simp only:)
  have u: "x = y" if xy: "x \<in> set (map f rs)" "y \<in> set (map f rs)" "active_key x \<noteq> None" "active_key x = active_key y"
    for x y
  proof -
    obtain r r' where "r \<in> set rs" "x = f r" "r' \<in> set rs" "y = f r'" using xy(1,2) by auto
    then show ?thesis using assms(3) [of r r'] xy(3,4) by simp
  qed
  have "\<forall>r \<in> set (map f rs). 0 < rr_id r \<and> rr_id r < n \<and> rr_zone r \<in> zids \<and>
      0 \<le> rr_ttl r \<and> fits_int4 (rr_ttl r) \<and> fits_int4 (rr_weight r)"
    using assms(1,2) unfolding recs_wf_def by simp
  then show ?thesis using d' u unfolding recs_wf_def by blast
qed

lemma recs_wf_zids: "recs_wf rs zids n \<Longrightarrow> zids \<subseteq> zids' \<Longrightarrow> n \<le> n' \<Longrightarrow> recs_wf rs zids' n'"
  unfolding recs_wf_def by force

subsection \<open>The statements keep it\<close>

lemma db_wf_insert_zone: "db_wf db \<Longrightarrow> db_wf (snd (insert_zone now name db))"
proof -
  assume wf: "db_wf db"
  then have s: "''zones'' \<in> set (db_tables db)" "''zones_name_key'' \<in> set (db_constraints db)"
    by (simp_all add: db_wf_def schema_ok_simps)
  let ?z = "\<lparr>zr_id = db_zseq db, zr_name = name, zr_updated = now, zr_deleted = None\<rparr>"
  show ?thesis
  proof (cases "\<exists>z \<in> set (db_zones db). zr_name z = name")
    case True
    then show ?thesis using wf s by (auto simp: insert_zone_def Let_def db_wf_def schema_ok_def zones_wf_def)
  next
    case False
    then have "zones_wf (db_zones db @ [?z]) (db_zseq db + 1)"
      using wf unfolding db_wf_def by (intro zones_wf_snoc) auto
    moreover have "recs_wf (db_records db) (zr_id ` set (db_zones db @ [?z])) (db_rseq db)"
      by (rule recs_wf_zids [of _ "zr_id ` set (db_zones db)" "db_rseq db"]) (use wf in \<open>simp_all add: db_wf_def subset_insertI\<close>)
    ultimately show ?thesis using wf s False by (simp add: insert_zone_def Let_def db_wf_def schema_ok_def)
  qed
qed

lemma select_zone_state [simp]: "snd (select_zone name db) = db"
  by (simp add: select_zone_def split: list.split)

lemma select_record_state [simp]: "snd (select_record zid name typ value db) = db"
  by (simp add: select_record_def split: list.split)

lemma db_wf_delete_zone: "db_wf db \<Longrightarrow> db_wf (snd (delete_zone now apex db))"
proof -
  assume wf: "db_wf db"
  let ?f = "\<lambda>z. if active_zone apex z then stamp_zone db now (z\<lparr>zr_deleted := Some now\<rparr>) else z"
  have "zones_wf (map ?f (db_zones db)) (db_zseq db)"
    using wf by (intro zones_wf_map) (auto simp: db_wf_def)
  moreover have "zr_id ` set (map ?f (db_zones db)) = zr_id ` set (db_zones db)"
  proof -
    have "zr_id (?f z) = zr_id z" for z by simp
    then show ?thesis by (simp only: set_map image_image)
  qed
  ultimately show ?thesis using wf by (simp add: delete_zone_def db_wf_def schema_ok_def)
qed

lemma insert_record_cases:
  obtains (early) e where "insert_record now zid name typ ttl value weight db = (Inl e, db)" "e \<noteq> ErrNoRows"
  | (bumped) e where "insert_record now zid name typ ttl value weight db = (Inl e, db\<lparr>db_rseq := db_rseq db + 1\<rparr>)"
      "e = ErrNoRows \<longleftrightarrow> (\<exists>r \<in> set (db_records db). same_rrset zid name typ value r)"
  | (inserted) row where "fits_int4 ttl" "fits_int4 weight" "\<not> (\<exists>r \<in> set (db_records db). same_rrset zid name typ value r)"
      "''records_zone_id_fkey'' \<in> set (db_constraints db) \<Longrightarrow> zid \<in> zr_id ` set (db_zones db)"
      "row = \<lparr>rr_id = db_rseq db, rr_zone = zid, rr_name = name, rr_type = typ, rr_ttl = ttl, rr_value = value,
         rr_weight = weight, rr_updated = now, rr_deleted = None\<rparr>"
      "insert_record now zid name typ ttl value weight db =
         (Inr row, db\<lparr>db_rseq := db_rseq db + 1, db_records := db_records db @ [row]\<rparr>)"
proof -
  let ?dup = "\<exists>r \<in> set (db_records db). same_rrset zid name typ value r"
  let ?fk = "''records_zone_id_fkey'' \<in> set (db_constraints db) \<and> zid \<notin> zr_id ` set (db_zones db)"
  let ?early = "''records'' \<notin> set (db_tables db) \<or> ''records_unique_active_rrset'' \<notin> set (db_constraints db) \<or>
    \<not> fits_int4 ttl \<or> \<not> fits_int4 weight"
  consider ?early | "\<not> ?early" ?dup | "\<not> ?early" "\<not> ?dup" ?fk | "\<not> ?early" "\<not> ?dup" "\<not> ?fk" by blast
  then show ?thesis
  proof cases
    case 1
    then have "insert_record now zid name typ ttl value weight db =
        (Inl (if ''records'' \<notin> set (db_tables db) then UndefinedTable ''records''
          else if ''records_unique_active_rrset'' \<notin> set (db_constraints db)
          then UndefinedConstraint ''records_unique_active_rrset'' else OutOfRange), db)"
      by (simp add: insert_record_def)
    then show ?thesis by (rule early) simp
  next
    case 2
    then have "insert_record now zid name typ ttl value weight db = (Inl ErrNoRows, db\<lparr>db_rseq := db_rseq db + 1\<rparr>)"
      by (simp add: insert_record_def Let_def)
    then show ?thesis by (rule bumped) (use 2 in \<open>simp\<close>)
  next
    case 3
    then have "insert_record now zid name typ ttl value weight db =
        (Inl (ForeignKeyViolation ''records_zone_id_fkey''), db\<lparr>db_rseq := db_rseq db + 1\<rparr>)"
      by (simp add: insert_record_def Let_def)
    then show ?thesis by (rule bumped) (use 3 in \<open>simp\<close>)
  next
    case 4
    show ?thesis
    proof (rule inserted [OF _ _ _ _ refl])
      show "insert_record now zid name typ ttl value weight db =
        (Inr \<lparr>rr_id = db_rseq db, rr_zone = zid, rr_name = name, rr_type = typ, rr_ttl = ttl, rr_value = value,
         rr_weight = weight, rr_updated = now, rr_deleted = None\<rparr>,
         db\<lparr>db_rseq := db_rseq db + 1, db_records := db_records db @ [\<lparr>rr_id = db_rseq db, rr_zone = zid, rr_name = name,
         rr_type = typ, rr_ttl = ttl, rr_value = value, rr_weight = weight, rr_updated = now, rr_deleted = None\<rparr>]\<rparr>)"
        using 4 by (auto simp: insert_record_def Let_def)
    qed (use 4 in \<open>blast+\<close>)
  qed
qed

lemma db_wf_insert_record: "db_wf db \<Longrightarrow> 0 \<le> ttl \<Longrightarrow> db_wf (snd (insert_record now zid name typ ttl value weight db))"
proof (cases rule: insert_record_cases [of now zid name "typ" ttl "value" weight db])
  case (bumped e)
  assume "db_wf db"
  then show ?thesis using bumped(1) recs_wf_zids [of "db_records db" "zr_id ` set (db_zones db)" "db_rseq db" _ "db_rseq db + 1"]
    by (simp add: db_wf_def schema_ok_def)
next
  case (inserted row)
  assume wf: "db_wf db" and ttl: "0 \<le> ttl"
  then have "schema_ok db" by (simp add: db_wf_def)
  note z = inserted(4) [OF schema_ok_simps(4) [OF this]]
  have "recs_wf (db_records db @ [row]) (zr_id ` set (db_zones db)) (db_rseq db + 1)"
  proof (rule recs_wf_snoc)
    fix x assume "x \<in> set (db_records db)"
    then have "\<not> same_rrset zid name typ value x" using inserted(3) by blast
    moreover have "active_key row = Some (zid, name, typ, value)" by (simp add: inserted(5) active_key_def)
    ultimately show "active_key x \<noteq> active_key row" by (simp add: same_rrset_def)
  qed (use wf inserted(1,2,5) z ttl in \<open>simp_all add: db_wf_def\<close>)
  then show ?thesis using wf unfolding inserted(6) by (simp add: db_wf_def schema_ok_def)
qed simp

lemma recs_wf_id: "recs_wf rs zids n \<Longrightarrow> r \<in> set rs \<Longrightarrow> r' \<in> set rs \<Longrightarrow> rr_id r = rr_id r' \<Longrightarrow> r = r'"
  unfolding recs_wf_def by (meson inj_onD distinct_map)

text \<open>The outcome of the update statement: nothing changes, or the row with the identifier does.\<close>

lemma update_record_cases:
  obtains (same) e where "update_record now rid zid name typ ttl value weight db = (Inl e, db)"
  | (changed) r where "r \<in> set (db_records db)" "rr_id r = rid" "rr_zone r = zid" "fits_int4 ttl" "fits_int4 weight"
      "''records_unique_active_rrset'' \<in> set (db_indexes db) \<Longrightarrow>
        \<forall>x \<in> set (db_records db). rr_id x \<noteq> rid \<or> rr_zone x \<noteq> zid \<longrightarrow> \<not> same_rrset zid name typ value x"
      "update_record now rid zid name typ ttl value weight db =
         (Inr (stamp_record db now (set_fields name typ ttl value weight r)),
          db\<lparr>db_records := map (\<lambda>x. if rr_id x = rid \<and> rr_zone x = zid
            then stamp_record db now (set_fields name typ ttl value weight r) else x) (db_records db)\<rparr>)"
proof (cases "filter (\<lambda>r. rr_id r = rid \<and> rr_zone r = zid) (db_records db)")
  case Nil
  then have "update_record now rid zid name typ ttl value weight db =
      (Inl (if ''records'' \<notin> set (db_tables db) then UndefinedTable ''records''
        else if \<not> fits_int4 ttl \<or> \<not> fits_int4 weight then OutOfRange else ErrNoRows), db)"
    by (simp add: update_record_def)
  then show ?thesis by (rule same)
next
  case (Cons r rs)
  then have "r \<in> set (filter (\<lambda>r. rr_id r = rid \<and> rr_zone r = zid) (db_records db))" by simp
  then have r: "r \<in> set (db_records db)" "rr_id r = rid" "rr_zone r = zid" by simp_all
  let ?dup = "''records_unique_active_rrset'' \<in> set (db_indexes db) \<and>
    (\<exists>x \<in> set (db_records db). \<not> (rr_id x = rid \<and> rr_zone x = zid) \<and> same_rrset zid name typ value x)"
  let ?bad = "''records'' \<notin> set (db_tables db) \<or> \<not> fits_int4 ttl \<or> \<not> fits_int4 weight \<or> ?dup"
  show ?thesis
  proof (cases ?bad)
    case True
    then have "update_record now rid zid name typ ttl value weight db =
        (Inl (if ''records'' \<notin> set (db_tables db) then UndefinedTable ''records''
          else if \<not> fits_int4 ttl \<or> \<not> fits_int4 weight then OutOfRange
          else UniqueViolation ''records_unique_active_rrset''), db)"
      unfolding update_record_def Let_def Cons list.case by auto
    then show ?thesis by (rule same)
  next
    case False
    then show ?thesis using Cons by (intro changed [OF r]) (auto simp: update_record_def Let_def)
  qed
qed

lemma set_fields_simps [simp]:
  "rr_id (set_fields name t ttl v w r) = rr_id r" "rr_zone (set_fields name t ttl v w r) = rr_zone r"
  "rr_ttl (set_fields name t ttl v w r) = ttl" "rr_weight (set_fields name t ttl v w r) = w"
  "rr_deleted (set_fields name t ttl v w r) = None" "rr_name (set_fields name t ttl v w r) = name"
  "rr_type (set_fields name t ttl v w r) = t" "rr_value (set_fields name t ttl v w r) = v"
  by (simp_all add: set_fields_def)

lemma db_wf_update_record:
  assumes wf: "db_wf db" and ttl: "0 \<le> ttl" shows "db_wf (snd (update_record now rid zid name t ttl v w db))"
proof (cases rule: update_record_cases [of now rid zid name t ttl v w db])
  case (same e)
  then show ?thesis using wf by simp
next
  case (changed r)
  let ?row = "stamp_record db now (set_fields name t ttl v w r)"
  let ?f = "\<lambda>x. if rr_id x = rid \<and> rr_zone x = zid then ?row else x"
  have rw: "recs_wf (db_records db) (zr_id ` set (db_zones db)) (db_rseq db)" using wf by (simp add: db_wf_def)
  have key: "active_key ?row = Some (zid, name, t, v)" using changed(3) by (simp add: active_key_def)
  have free: "\<not> same_rrset zid name t v x" if "x \<in> set (db_records db)" "rr_id x \<noteq> rid \<or> rr_zone x \<noteq> zid" for x
    using changed(6) that wf by (auto simp: db_wf_def schema_ok_simps)
  have fr: "?f x = ?row" if "rr_id x = rid \<and> rr_zone x = zid" for x using that by simp
  have fs: "?f x = x" if "rr_id x \<noteq> rid \<or> rr_zone x \<noteq> zid" for x using that by auto
  have "recs_wf (map ?f (db_records db)) (zr_id ` set (db_zones db)) (db_rseq db)"
  proof (rule recs_wf_map [OF rw])
    fix x assume "x \<in> set (db_records db)"
    then show "rr_id (?f x) = rr_id x \<and> rr_zone (?f x) = rr_zone x \<and> 0 \<le> rr_ttl (?f x) \<and> fits_int4 (rr_ttl (?f x)) \<and> fits_int4 (rr_weight (?f x))"
      using changed(2-5) rw ttl by (simp add: recs_wf_def)
  next
    fix x y assume x: "x \<in> set (db_records db)" and y: "y \<in> set (db_records db)"
      and a: "active_key (?f x) \<noteq> None" "active_key (?f x) = active_key (?f y)"
    consider "rr_id x = rid \<and> rr_zone x = zid" "rr_id y = rid \<and> rr_zone y = zid"
      | "rr_id x = rid \<and> rr_zone x = zid" "rr_id y \<noteq> rid \<or> rr_zone y \<noteq> zid"
      | "rr_id x \<noteq> rid \<or> rr_zone x \<noteq> zid" "rr_id y = rid \<and> rr_zone y = zid"
      | "rr_id x \<noteq> rid \<or> rr_zone x \<noteq> zid" "rr_id y \<noteq> rid \<or> rr_zone y \<noteq> zid" by blast
    then show "x = y"
    proof cases
      case 1 then show ?thesis using recs_wf_id [OF rw x y] by simp
    next
      case 2
      have "active_key y = Some (zid, name, t, v)"
        using a(2) key unfolding fr [OF 2(1)] fs [OF 2(2)] by (simp only:)
      then show ?thesis using free [OF y 2(2)] by (simp add: same_rrset_def)
    next
      case 3
      have "active_key x = Some (zid, name, t, v)"
        using a(2) key unfolding fr [OF 3(2)] fs [OF 3(1)] by (simp only:)
      then show ?thesis using free [OF x 3(1)] by (simp add: same_rrset_def)
    next
      case 4
      have "active_key x \<noteq> None" "active_key x = active_key y"
        using a unfolding fs [OF 4(1)] fs [OF 4(2)] by (simp_all only: not_False_eq_True)
      then show ?thesis using rw x y unfolding recs_wf_def by blast
    qed
  qed
  then show ?thesis using wf unfolding changed(7) by (simp add: db_wf_def schema_ok_def)
qed

lemma db_wf_delete_record:
  assumes wf: "db_wf db" shows "db_wf (snd (delete_record now rid zid db))"
proof -
  let ?f = "\<lambda>r. if active_record rid zid r then stamp_record db now (r\<lparr>rr_deleted := Some now\<rparr>) else r"
  have rw: "recs_wf (db_records db) (zr_id ` set (db_zones db)) (db_rseq db)" using wf by (simp add: db_wf_def)
  have k: "active_key (?f r) = (if active_record rid zid r then None else active_key r)" for r
    by (simp add: active_key_def)
  have "recs_wf (map ?f (db_records db)) (zr_id ` set (db_zones db)) (db_rseq db)"
  proof (rule recs_wf_map [OF rw])
    fix r assume "r \<in> set (db_records db)"
    then show "rr_id (?f r) = rr_id r \<and> rr_zone (?f r) = rr_zone r \<and> 0 \<le> rr_ttl (?f r) \<and> fits_int4 (rr_ttl (?f r)) \<and> fits_int4 (rr_weight (?f r))"
      using rw by (simp add: recs_wf_def)
  next
    fix x y assume "x \<in> set (db_records db)" "y \<in> set (db_records db)"
      and a: "active_key (?f x) \<noteq> None" "active_key (?f x) = active_key (?f y)"
    moreover from this have "active_key x \<noteq> None" "active_key x = active_key y"
      unfolding k by (metis)+
    ultimately show "x = y" using rw unfolding recs_wf_def by blast
  qed
  then show ?thesis using wf by (simp add: delete_record_def db_wf_def schema_ok_def)
qed

text \<open>The three fates of a statement.\<close>

lemma run_stmt_state: "snd (run_stmt fate f db) \<in> {db, snd (f db)}"
  by (cases fate) (simp_all add: run_stmt_def)

lemma db_wf_run_stmt: "db_wf db \<Longrightarrow> db_wf (snd (f db)) \<Longrightarrow> db_wf (snd (run_stmt fate f db))"
  using run_stmt_state [of fate f db] by auto

lemma run_stmt_Done [simp]: "run_stmt Done f db = f db"
  by (simp add: run_stmt_def)

lemma db_wf_SoftDeleteZone: "db_wf db \<Longrightarrow> db_wf (snd (SoftDeleteZone fate now db apex))"
  using db_wf_run_stmt [of db "delete_zone now apex" fate, OF _ db_wf_delete_zone]
  by (auto simp: SoftDeleteZone_def split: prod.splits sum.splits)

lemma db_wf_SoftDeleteRecord: "db_wf db \<Longrightarrow> db_wf (snd (SoftDeleteRecord fate now db zid rid))"
  using db_wf_run_stmt [of db "delete_record now rid zid" fate, OF _ db_wf_delete_record]
  by (auto simp: SoftDeleteRecord_def split: prod.splits sum.splits)

lemma run_stmt_cases:
  obtains (ran) "run_stmt fate f db = f db" | (lost) db' where "run_stmt fate f db = (Inl ConnError, db')" "db' \<in> {db, snd (f db)}"
  by (cases fate) (simp_all add: run_stmt_def)

lemma run_stmt_select [simp]:
  "snd (f db) = db \<Longrightarrow> snd (run_stmt fate f db) = db"
  using run_stmt_state [of fate f db] by simp

lemma db_wf_CreateZone:
  assumes "db_wf db" shows "db_wf (snd (CreateZone fate now db name))"
proof -
  obtain res db1 where r: "run_stmt (fate 0) (insert_zone now name) db = (res, db1)" by fastforce
  have "db_wf db1"
    using db_wf_run_stmt [where f = "insert_zone now name" and fate = "fate 0", OF assms db_wf_insert_zone [OF assms]] r by simp
  moreover obtain res2 where "run_stmt (fate 1) (select_zone name) db1 = (res2, db1)"
    by (metis run_stmt_select select_zone_state prod.collapse)
  ultimately show ?thesis using r by (auto simp: CreateZone_def split: sum.split)
qed

lemma db_wf_CreateRecord:
  assumes "db_wf db" shows "db_wf (snd (CreateRecord L fate now db zid rec))"
proof -
  let ?ins = "insert_record now zid (r_Name rec) (typeName L (r_Type rec)) (uint (r_TTL rec)) (r_Value rec) (r_Weight rec)"
  obtain res db1 where r: "run_stmt (fate 0) ?ins db = (res, db1)" by fastforce
  have "db_wf db1"
    using db_wf_run_stmt [where f = ?ins and fate = "fate 0", OF assms db_wf_insert_record [OF assms uint_ge_0]] r by simp
  moreover obtain res2 where "run_stmt (fate 1) (select_record zid (r_Name rec) (typeName L (r_Type rec)) (r_Value rec)) db1 = (res2, db1)"
    by (metis run_stmt_select select_record_state prod.collapse)
  ultimately show ?thesis using r by (auto simp: CreateRecord_def Let_def split: sum.split)
qed

lemma db_wf_UpdateRecord:
  assumes "db_wf db" shows "db_wf (snd (UpdateRecord L fate now db zid rid rec))"
proof -
  let ?upd = "update_record now rid zid (r_Name rec) (typeName L (r_Type rec)) (uint (r_TTL rec)) (r_Value rec) (r_Weight rec)"
  obtain res db1 where r: "run_stmt fate ?upd db = (res, db1)" by fastforce
  have "db_wf db1"
    using db_wf_run_stmt [where f = ?upd and fate = fate, OF assms db_wf_update_record [OF assms uint_ge_0]] r by simp
  then show ?thesis using r by (auto simp: UpdateRecord_def split: sum.split)
qed

lemma ddl_simps [simp]:
  "db_zones (create_table n cs db) = db_zones db" "db_zones (create_index n db) = db_zones db"
  "db_zones (create_trigger n db) = db_zones db"
  "db_records (create_table n cs db) = db_records db" "db_records (create_index n db) = db_records db"
  "db_records (create_trigger n db) = db_records db"
  "db_zseq (create_table n cs db) = db_zseq db" "db_zseq (create_index n db) = db_zseq db"
  "db_zseq (create_trigger n db) = db_zseq db"
  "db_rseq (create_table n cs db) = db_rseq db" "db_rseq (create_index n db) = db_rseq db"
  "db_rseq (create_trigger n db) = db_rseq db"
  "set (db_tables (create_table n cs db)) = insert n (set (db_tables db))" "db_tables (create_index n db) = db_tables db"
  "db_tables (create_trigger n db) = db_tables db"
  "db_constraints (create_index n db) = db_constraints db" "db_constraints (create_trigger n db) = db_constraints db"
  "db_constraints (create_table n cs db) =
     (if n \<in> set (db_tables db) then db_constraints db else cs @ db_constraints db)"
  "db_indexes (create_table n cs db) = db_indexes db" "set (db_indexes (create_index n db)) = insert n (set (db_indexes db))"
  "db_indexes (create_trigger n db) = db_indexes db"
  "db_triggers (create_table n cs db) = db_triggers db" "db_triggers (create_index n db) = db_triggers db"
  "set (db_triggers (create_trigger n db)) = insert n (set (db_triggers db))"
  by (auto simp: create_table_def create_index_def create_trigger_def)

text \<open>The script on a database without duplicates, and what it leaves as it is.\<close>

lemma schemaSQL_result:
  assumes "''records_unique_active_rrset'' \<in> set (db_indexes db) \<or> distinct (active_keys (db_records db))"
  shows "fst (schemaSQL db) = Inr ()" and "db_zones (snd (schemaSQL db)) = db_zones db"
    and "db_records (snd (schemaSQL db)) = db_records db" and "db_zseq (snd (schemaSQL db)) = db_zseq db"
    and "db_rseq (snd (schemaSQL db)) = db_rseq db"
    and "set (db_tables (snd (schemaSQL db))) = {''zones'', ''records''} \<union> set (db_tables db)"
    and "db_constraints (snd (schemaSQL db)) =
      (if ''records'' \<in> set (db_tables db) then [] else [''records_pkey'', ''records_zone_id_fkey'']) @
      (if ''zones'' \<in> set (db_tables db) then [] else [''zones_pkey'', ''zones_name_key'']) @ db_constraints db"
    and "set (db_indexes (snd (schemaSQL db))) = {''idx_zones_updated_at'', ''idx_records_updated_at'',
      ''idx_records_zone_lookup'', ''records_unique_active_rrset''} \<union> set (db_indexes db)"
    and "set (db_triggers (snd (schemaSQL db))) = {''trg_zones_updated_at'', ''trg_records_updated_at''} \<union> set (db_triggers db)"
  using assms by (auto simp: schemaSQL_def Let_def)

lemma db_wf_schemaSQL:
  assumes "db_wf db" shows "db_wf (snd (schemaSQL db))"
proof -
  have s: "schema_ok db" using assms by (simp add: db_wf_def)
  then have i: "''records_unique_active_rrset'' \<in> set (db_indexes db) \<or> distinct (active_keys (db_records db))"
    by (simp add: schema_ok_simps)
  show ?thesis
    using assms schema_ok_simps [OF s] unfolding db_wf_def schema_ok_def
    by (simp add: schemaSQL_result [OF i])
qed

lemma db_wf_EnsureSchema:
  assumes "db_wf db" shows "db_wf (snd (EnsureSchema fate db))"
  using db_wf_run_stmt [where f = schemaSQL and fate = fate, OF assms db_wf_schemaSQL [OF assms]]
  by (auto simp: EnsureSchema_def split: prod.splits sum.splits)

lemma EnsureSchema_fresh: "snd (EnsureSchema Done empty_db) = snd (schemaSQL empty_db)"
  by (simp add: EnsureSchema_def split: prod.split sum.split)

lemma db_wf_fresh: "db_wf (snd (EnsureSchema Done empty_db))"
  unfolding EnsureSchema_fresh db_wf_def schema_ok_def zones_wf_def recs_wf_def
  by (subst schemaSQL_result, simp add: empty_db_def active_keys_def List.map_filter_def)+
    (simp add: empty_db_def)

section \<open>Runs of the database\<close>

text \<open>
  The databases the methods of the store can produce, each call at any time and with any fate of its
  statements, starting from an empty database with the schema applied. In the runs with \<open>arb\<close> someone
  may also have added a constraint with the name the insertion of records refers to.
\<close>

inductive db_reachable :: "bool \<Rightarrow> DB \<Rightarrow> bool" for arb where
  fresh: "db_reachable arb (snd (EnsureSchema Done empty_db))"
| schema: "db_reachable arb db \<Longrightarrow> db_reachable arb (snd (EnsureSchema fate db))"
| create_zone: "db_reachable arb db \<Longrightarrow> db_reachable arb (snd (CreateZone fates now db name))"
| delete_zone: "db_reachable arb db \<Longrightarrow> db_reachable arb (snd (SoftDeleteZone fate now db name))"
| create_record: "db_reachable arb db \<Longrightarrow> db_reachable arb (snd (CreateRecord L fates now db zid rec))"
| update_record: "db_reachable arb db \<Longrightarrow> db_reachable arb (snd (UpdateRecord L fate now db zid rid rec))"
| delete_record: "db_reachable arb db \<Longrightarrow> db_reachable arb (snd (SoftDeleteRecord fate now db zid rid))"
| arbiter: "db_reachable arb db \<Longrightarrow> arb \<Longrightarrow>
    db_reachable arb (db\<lparr>db_constraints := ''records_unique_active_rrset'' # db_constraints db\<rparr>)"

lemma db_reachable_wf: "db_reachable arb db \<Longrightarrow> db_wf db"
proof (induction rule: db_reachable.induct)
  case (arbiter db)
  then show ?case by (simp add: db_wf_def schema_ok_def)
qed (simp_all add: db_wf_fresh db_wf_EnsureSchema db_wf_CreateZone db_wf_SoftDeleteZone db_wf_CreateRecord
    db_wf_UpdateRecord db_wf_SoftDeleteRecord)

subsection \<open>The schema has no constraint for the insertion of records\<close>

lemma stmt_constraints [simp]:
  "db_constraints (snd (insert_zone now name db)) = db_constraints db"
  "db_constraints (snd (delete_zone now name db)) = db_constraints db"
  "db_constraints (snd (delete_record now rid zid db)) = db_constraints db"
  by (simp_all add: insert_zone_def delete_zone_def delete_record_def Let_def)

lemma insert_record_constraints [simp]:
  "db_constraints (snd (insert_record now zid name t ttl v w db)) = db_constraints db"
  by (cases rule: insert_record_cases [of now zid name t ttl v w db]) simp_all

lemma update_record_constraints [simp]:
  "db_constraints (snd (update_record now rid zid name t ttl v w db)) = db_constraints db"
  by (cases rule: update_record_cases [of now rid zid name t ttl v w db]) simp_all

lemma run_stmt_constraints:
  "db_constraints (snd (f db)) = db_constraints db \<Longrightarrow> db_constraints (snd (run_stmt fate f db)) = db_constraints db"
  using run_stmt_state [of fate f db] by auto

lemma op_constraints:
  "db_constraints (snd (CreateZone fates now db name)) = db_constraints db"
  "db_constraints (snd (SoftDeleteZone fate now db name)) = db_constraints db"
  "db_constraints (snd (CreateRecord L fates now db zid rec)) = db_constraints db"
  "db_constraints (snd (UpdateRecord L fate now db zid rid rec)) = db_constraints db"
  "db_constraints (snd (SoftDeleteRecord fate now db zid rid)) = db_constraints db"
proof -
  show "db_constraints (snd (CreateZone fates now db name)) = db_constraints db"
  proof -
    obtain res db1 where r: "run_stmt (fates 0) (insert_zone now name) db = (res, db1)" by fastforce
    obtain res2 where "run_stmt (fates 1) (select_zone name) db1 = (res2, db1)"
      by (metis run_stmt_select select_zone_state prod.collapse)
    with r show ?thesis
      using run_stmt_constraints [of "insert_zone now name" db "fates 0"] by (auto simp: CreateZone_def split: sum.split)
  qed
  show "db_constraints (snd (CreateRecord L fates now db zid rec)) = db_constraints db"
  proof -
    let ?ins = "insert_record now zid (r_Name rec) (typeName L (r_Type rec)) (uint (r_TTL rec)) (r_Value rec) (r_Weight rec)"
    obtain res db1 where r: "run_stmt (fates 0) ?ins db = (res, db1)" by fastforce
    obtain res2 where "run_stmt (fates 1) (select_record zid (r_Name rec) (typeName L (r_Type rec)) (r_Value rec)) db1 = (res2, db1)"
      by (metis run_stmt_select select_record_state prod.collapse)
    with r show ?thesis
      using run_stmt_constraints [of ?ins db "fates 0"] by (auto simp: CreateRecord_def Let_def split: sum.split)
  qed
  show "db_constraints (snd (UpdateRecord L fate now db zid rid rec)) = db_constraints db"
  proof -
    let ?upd = "update_record now rid zid (r_Name rec) (typeName L (r_Type rec)) (uint (r_TTL rec)) (r_Value rec) (r_Weight rec)"
    obtain res db1 where "run_stmt fate ?upd db = (res, db1)" by fastforce
    then show ?thesis
      using run_stmt_constraints [of ?upd db fate] by (auto simp: UpdateRecord_def split: sum.split)
  qed
  show "db_constraints (snd (SoftDeleteZone fate now db name)) = db_constraints db"
    using run_stmt_constraints [of "delete_zone now name" db fate]
    by (auto simp: SoftDeleteZone_def split: prod.split sum.split)
  show "db_constraints (snd (SoftDeleteRecord fate now db zid rid)) = db_constraints db"
    using run_stmt_constraints [of "delete_record now rid zid" db fate]
    by (auto simp: SoftDeleteRecord_def split: prod.split sum.split)
qed

lemma EnsureSchema_constraints:
  assumes "schema_ok db" shows "db_constraints (snd (EnsureSchema fate db)) = db_constraints db"
proof -
  have "db_constraints (snd (schemaSQL db)) = db_constraints db"
    using assms by (subst schemaSQL_result) (simp_all add: schema_ok_simps)
  with run_stmt_constraints [of schemaSQL db fate] show ?thesis
    by (auto simp: EnsureSchema_def split: prod.split sum.split)
qed

lemma no_arbiter:
  assumes "db_reachable False db" shows "''records_unique_active_rrset'' \<notin> set (db_constraints db)"
  using assms
proof (induction rule: db_reachable.induct)
  case fresh
  show ?case unfolding EnsureSchema_fresh
    by (subst schemaSQL_result) (simp_all add: empty_db_def active_keys_def List.map_filter_def)
next
  case (schema db fate)
  then have "schema_ok db" using db_reachable_wf by (simp add: db_wf_def)
  then show ?case using schema by (simp add: EnsureSchema_constraints)
qed (simp_all add: op_constraints)

text \<open>
  C27: with the schema of the repository no record can be inserted. The insertion names a constraint
  \<open>records_unique_active_rrset\<close>, which the schema declares as a partial unique index only: whatever
  calls ran before, every \<open>CreateRecord\<close> fails, with the server's complaint about the missing
  constraint when the statement gets through, and leaves the database as it was.
\<close>

theorem CreateRecord_needs_constraint:
  assumes "db_reachable False db"
  shows "\<exists>e. CreateRecord L fate now db zid rec = (Inl (PgError e), db) \<and>
    (e = ConnError \<or> e = UndefinedConstraint ''records_unique_active_rrset'') \<and>
    (fate 0 = Done \<longrightarrow> e = UndefinedConstraint ''records_unique_active_rrset'')"
proof -
  let ?ins = "insert_record now zid (r_Name rec) (typeName L (r_Type rec)) (uint (r_TTL rec)) (r_Value rec) (r_Weight rec)"
  have "db_wf db" using assms by (rule db_reachable_wf)
  then have "''records'' \<in> set (db_tables db)" by (simp add: db_wf_def schema_ok_simps)
  then have i: "?ins db = (Inl (UndefinedConstraint ''records_unique_active_rrset''), db)"
    using no_arbiter [OF assms] by (simp add: insert_record_def)
  show ?thesis
    by (cases "fate 0") (simp_all add: CreateRecord_def run_stmt_def i)
qed

definition demo_db :: DB where
  "demo_db = snd (CreateZone (\<lambda>_. Done) 5 (snd (EnsureSchema Done empty_db)) ''b.'')"

lemma demo_db_reachable: "db_reachable arb demo_db"
  unfolding demo_db_def by (intro db_reachable.intros)

lemma demo_db_tables:
  "db_zones demo_db = [\<lparr>zr_id = 1, zr_name = ''b.'', zr_updated = 5, zr_deleted = None\<rparr>]" "db_records demo_db = []"
  "schema_ok demo_db"
proof -
  have "schema_ok (snd (schemaSQL empty_db))" using db_wf_fresh unfolding EnsureSchema_fresh by (simp add: db_wf_def)
  moreover have "distinct (active_keys (db_records empty_db))" by (simp add: empty_db_def active_keys_def List.map_filter_def)
  ultimately show "db_zones demo_db = [\<lparr>zr_id = 1, zr_name = ''b.'', zr_updated = 5, zr_deleted = None\<rparr>]"
    "db_records demo_db = []"
    unfolding demo_db_def EnsureSchema_fresh
    by (simp_all add: CreateZone_def insert_zone_def Let_def schema_ok_simps schemaSQL_result, simp_all add: empty_db_def)
  show "schema_ok demo_db" using db_reachable_wf [OF demo_db_reachable] by (simp add: db_wf_def)
qed

theorem CreateRecord_needs_constraint_witness:
  "CreateRecord demo_lib (\<lambda>_. Done) 6 demo_db 1 demo_rec =
     (Inl (PgError (UndefinedConstraint ''records_unique_active_rrset'')), demo_db)"
  using CreateRecord_needs_constraint [OF demo_db_reachable, of demo_lib "\<lambda>_. Done" 6 1 demo_rec] by auto

text \<open>With a constraint for the insertion, a database with the records \<open>w.b.\<close> and \<open>v.b.\<close>.\<close>

definition demo_two :: DB where
  "demo_two = snd (CreateRecord demo_lib (\<lambda>_. Done) 7 (snd (CreateRecord demo_lib (\<lambda>_. Done) 6
     (demo_db\<lparr>db_constraints := ''records_unique_active_rrset'' # db_constraints demo_db\<rparr>) 1 demo_rec)) 1
     (demo_rec\<lparr>r_Name := ''v.b.''\<rparr>))"

definition demo_row :: "int \<Rightarrow> string \<Rightarrow> int \<Rightarrow> rec_row" where
  "demo_row i name t = \<lparr>rr_id = i, rr_zone = 1, rr_name = name, rr_type = ''A'', rr_ttl = 60, rr_value = ''1.2.3.4'',
     rr_weight = 0, rr_updated = t, rr_deleted = None\<rparr>"

lemma demo_two_reachable: "db_reachable True demo_two"
  unfolding demo_two_def by (intro db_reachable.create_record db_reachable.arbiter demo_db_reachable) simp

lemma demo_scan:
  "typeName demo_lib 1 = ''A''" "StringToType demo_lib ''A'' = Some 1"
  "NewRR demo_lib t = Inr (Some (RR_other \<lparr>h_Name = t, h_Rrtype = 1, h_Class = 1, h_Ttl = 0\<rparr> t))"
  by (simp_all add: typeName_def demo_lib_def)

lemma demo_two_tables: "db_zones demo_two = db_zones demo_db" "db_records demo_two = [demo_row 1 ''w.b.'' 6, demo_row 2 ''v.b.'' 7]"
proof -
  have sch: "schema_ok (snd (schemaSQL empty_db))" using db_wf_fresh unfolding EnsureSchema_fresh by (simp add: db_wf_def)
  have act: "distinct (active_keys (db_records empty_db))" by (simp add: empty_db_def active_keys_def List.map_filter_def)
  from sch act have q: "db_rseq demo_db = 1"
    unfolding demo_db_def EnsureSchema_fresh
    by (simp_all add: CreateZone_def insert_zone_def Let_def schema_ok_simps schemaSQL_result, simp_all add: empty_db_def)
  have t: "''records'' \<in> set (db_tables demo_db)" using demo_db_tables(3) by (simp add: schema_ok_simps)
  show "db_zones demo_two = db_zones demo_db" "db_records demo_two = [demo_row 1 ''w.b.'' 6, demo_row 2 ''v.b.'' 7]"
    by (simp_all add: demo_two_def demo_row_def CreateRecord_def demo_rec_def demo_scan insert_record_def t q demo_db_tables fits_int4_def
        same_rrset_def active_key_def scan_record_def parseRR_def Let_def)
qed

section \<open>Properties of the tables\<close>

text \<open>
  C23: the database stays consistent. Whatever calls ran, with statements failing or their results
  getting lost, record and zone identifiers are unique and positive, zone names are unique, no two
  active records agree in zone, name, type and value, every record belongs to a zone, and no stored
  TTL is negative.
\<close>

theorem db_invariant:
  assumes "db_reachable arb db"
  shows "distinct (map zr_id (db_zones db)) \<and> distinct (map zr_name (db_zones db)) \<and>
    distinct (map rr_id (db_records db)) \<and>
    (\<forall>r \<in> set (db_records db). 0 < rr_id r \<and> rr_zone r \<in> zr_id ` set (db_zones db) \<and> 0 \<le> rr_ttl r \<and>
      (\<forall>r' \<in> set (db_records db). rr_deleted r = None \<and> rr_deleted r' = None \<and> rr_zone r = rr_zone r' \<and>
         rr_name r = rr_name r' \<and> rr_type r = rr_type r' \<and> rr_value r = rr_value r' \<longrightarrow> r = r'))"
proof -
  have "db_wf db" using assms by (rule db_reachable_wf)
  then have z: "zones_wf (db_zones db) (db_zseq db)"
    and r: "recs_wf (db_records db) (zr_id ` set (db_zones db)) (db_rseq db)"
    by (simp_all add: db_wf_def)
  have "x = y" if "x \<in> set (db_records db)" "y \<in> set (db_records db)" "rr_deleted x = None" "rr_deleted y = None"
    "rr_zone x = rr_zone y" "rr_name x = rr_name y" "rr_type x = rr_type y" "rr_value x = rr_value y" for x y
  proof -
    have "active_key x \<noteq> None" "active_key x = active_key y" using that by (simp_all add: active_key_def)
    then show ?thesis using r that(1,2) unfolding recs_wf_def by blast
  qed
  then show ?thesis using z r unfolding zones_wf_def recs_wf_def by blast
qed

theorem db_invariant_witness:
  "db_zones demo_db \<noteq> [] \<and> distinct (map zr_name (db_zones demo_db))"
proof
  show "db_zones demo_db \<noteq> []" by (simp add: demo_db_tables)
  show "distinct (map zr_name (db_zones demo_db))" using db_invariant [OF demo_db_reachable] by blast
qed

subsection \<open>Zones\<close>

lemma filter_unique:
  assumes "distinct (map f xs)" and "x \<in> set xs" and "P x" and "\<And>y. P y \<Longrightarrow> f y = f x"
  shows "filter P xs = [x]"
proof -
  obtain as bs where s: "xs = as @ x # bs" using assms(2) split_list by fastforce
  have "f x \<notin> f ` set as" "f x \<notin> f ` set bs" using assms(1) unfolding s by auto
  then have "\<not> P y" if "y \<in> set as \<union> set bs" for y using assms(4) [of y] that by (metis UnE image_eqI)
  then show ?thesis using assms(3) unfolding s by (simp add: filter_empty_conv)
qed

lemma select_zone_found:
  assumes "db_wf db" and "z \<in> set (db_zones db)" and "active_zone name z"
  shows "select_zone name db = (Inr \<lparr>zm_ID = zr_id z, zm_Name = name\<rparr>, db)"
proof -
  have "filter (active_zone name) (db_zones db) = [z]"
    using assms by (intro filter_unique [where f = zr_name]) (auto simp: db_wf_def zones_wf_def active_zone_def)
  then show ?thesis using assms by (simp add: select_zone_def db_wf_def schema_ok_simps active_zone_def)
qed

lemma select_zone_absent:
  assumes "schema_ok db" and "\<And>z. z \<in> set (db_zones db) \<Longrightarrow> \<not> active_zone name z"
  shows "select_zone name db = (Inl ErrNoRows, db)"
  using assms by (simp add: select_zone_def schema_ok_simps filter_empty_conv)

lemma insert_zone_new:
  assumes "schema_ok db" and "name \<notin> zr_name ` set (db_zones db)"
  shows "insert_zone now name db = (Inr (db_zseq db), db\<lparr>db_zseq := db_zseq db + 1, db_zones := db_zones db @
    [\<lparr>zr_id = db_zseq db, zr_name = name, zr_updated = now, zr_deleted = None\<rparr>]\<rparr>)"
  using assms by (auto simp: insert_zone_def Let_def schema_ok_simps)

lemma insert_zone_taken:
  assumes "schema_ok db" and "z \<in> set (db_zones db)" and "zr_name z = name"
  shows "insert_zone now name db = (Inl ErrNoRows, db\<lparr>db_zseq := db_zseq db + 1\<rparr>)"
  using assms by (auto simp: insert_zone_def Let_def schema_ok_simps)

lemma CreateZone_existing:
  assumes "db_wf db" and "z \<in> set (db_zones db)" and "active_zone name z"
  shows "fst (CreateZone (\<lambda>_. Done) now db name) = Inr (\<lparr>zm_ID = zr_id z, zm_Name = name\<rparr>, False)"
proof -
  let ?db = "db\<lparr>db_zseq := db_zseq db + 1\<rparr>"
  have "insert_zone now name db = (Inl ErrNoRows, ?db)"
    using insert_zone_taken [of db z name] assms by (simp add: db_wf_def active_zone_def)
  moreover have "db_wf ?db" using assms(1) by (auto simp: db_wf_def schema_ok_def zones_wf_def)
  then have "select_zone name ?db = (Inr \<lparr>zm_ID = zr_id z, zm_Name = name\<rparr>, ?db)"
    using select_zone_found [of ?db z name] assms by simp
  ultimately show ?thesis by (simp add: CreateZone_def)
qed

text \<open>
  C26: creating zones. A name no zone ever had is created: \<open>GetZone\<close> then finds the new zone, and
  creating it again returns the same zone with the flag false. A zone that is deleted is no longer
  found, but its row keeps the name: creating the zone again fails, and it cannot be brought back.
\<close>

theorem zone_lifecycle:
  assumes "db_reachable arb db"
  shows "(name \<notin> zr_name ` set (db_zones db) \<longrightarrow>
      (\<exists>m db'. CreateZone (\<lambda>_. Done) now db name = (Inr (m, True), db') \<and> zm_Name m = name \<and>
        GetZone Done db' name = Inr m \<and> fst (CreateZone (\<lambda>_. Done) now' db' name) = Inr (m, False))) \<and>
    (\<forall>db'. SoftDeleteZone Done now db name = (None, db') \<longrightarrow>
        GetZone Done db' name = Inl ErrNotFound \<and>
        fst (CreateZone (\<lambda>_. Done) now' db' name) = Inl (PgError ErrNoRows))"
proof (intro conjI impI allI)
  have wf: "db_wf db" and s: "schema_ok db" using db_reachable_wf [OF assms] by (simp_all add: db_wf_def)
  {
    assume new: "name \<notin> zr_name ` set (db_zones db)"
    let ?z = "\<lparr>zr_id = db_zseq db, zr_name = name, zr_updated = now, zr_deleted = None\<rparr>"
    let ?m = "\<lparr>zm_ID = db_zseq db, zm_Name = name\<rparr>"
    let ?db = "db\<lparr>db_zseq := db_zseq db + 1, db_zones := db_zones db @ [?z]\<rparr>"
    have c: "CreateZone (\<lambda>_. Done) now db name = (Inr (?m, True), ?db)"
      by (simp add: CreateZone_def insert_zone_new [OF s new])
    have wf': "db_wf ?db" using db_wf_CreateZone [OF wf, of "\<lambda>_. Done" now name] unfolding c by simp
    have z: "?z \<in> set (db_zones ?db)" "active_zone name ?z" by (simp_all add: active_zone_def)
    have "GetZone Done ?db name = Inr ?m" "fst (CreateZone (\<lambda>_. Done) now' ?db name) = Inr (?m, False)"
      using select_zone_found [OF wf' z] CreateZone_existing [OF wf' z] by (simp_all add: GetZone_def)
    with c show "\<exists>m db'. CreateZone (\<lambda>_. Done) now db name = (Inr (m, True), db') \<and> zm_Name m = name \<and>
        GetZone Done db' name = Inr m \<and> fst (CreateZone (\<lambda>_. Done) now' db' name) = Inr (m, False)"
      by (intro exI conjI) simp_all
  }
  fix db' assume d: "SoftDeleteZone Done now db name = (None, db')"
  let ?f = "\<lambda>z. if active_zone name z then stamp_zone db now (z\<lparr>zr_deleted := Some now\<rparr>) else z"
  have db': "db' = db\<lparr>db_zones := map ?f (db_zones db)\<rparr>"
    and some: "filter (active_zone name) (db_zones db) \<noteq> []"
    using d s by (auto simp: SoftDeleteZone_def delete_zone_def schema_ok_simps split: if_splits)
  have s': "schema_ok db'" using s unfolding db' by (simp add: schema_ok_def)
  then have sb: "schema_ok (db'\<lparr>db_zseq := n\<rparr>)" for n by (simp add: schema_ok_def)
  have f: "\<not> active_zone name (?f y)" for y
    by (cases "active_zone name y") (simp_all, simp add: active_zone_def)
  have no: "\<not> active_zone name z" if "z \<in> set (db_zones db')" for z
  proof -
    have "z \<in> ?f ` set (db_zones db)" using that unfolding db' by simp
    then obtain y where "z = ?f y" by (rule imageE)
    then show ?thesis using f by (simp only: not_False_eq_True)
  qed
  show "GetZone Done db' name = Inl ErrNotFound"
    by (simp add: GetZone_def select_zone_absent [OF s' no])
  obtain z where "z \<in> set (db_zones db)" "active_zone name z" using some by (auto simp: filter_empty_conv)
  then have "?f z \<in> set (db_zones db')" "zr_name (?f z) = name" unfolding db' by (simp_all add: active_zone_def)
  from insert_zone_taken [OF s' this] select_zone_absent [OF sb, of "db_zseq db' + 1" name] no
  show "fst (CreateZone (\<lambda>_. Done) now' db' name) = Inl (PgError ErrNoRows)"
    by (simp add: CreateZone_def)
qed

theorem zone_lifecycle_witness:
  "\<exists>db'. SoftDeleteZone Done 7 demo_db ''b.'' = (None, db') \<and>
     fst (CreateZone (\<lambda>_. Done) 8 db' ''b.'') = Inl (PgError ErrNoRows)"
proof -
  have "fst (SoftDeleteZone Done 7 demo_db ''b.'') = None"
    by (simp add: SoftDeleteZone_def delete_zone_def active_zone_def schema_ok_simps demo_db_tables)
  then obtain db' where "SoftDeleteZone Done 7 demo_db ''b.'' = (None, db')" by (metis prod.collapse)
  with zone_lifecycle [OF demo_db_reachable, of "''b.''" 7 8] show ?thesis by blast
qed

subsection \<open>Records\<close>

lemma update_record_done:
  assumes "db_wf db" and "r \<in> set (db_records db)" and "rr_id r = rid" and "rr_zone r = zid"
    and "fits_int4 ttl" and "fits_int4 w"
    and "\<And>x. x \<in> set (db_records db) \<Longrightarrow> rr_id x \<noteq> rid \<Longrightarrow> \<not> same_rrset zid name t v x"
  shows "update_record now rid zid name t ttl v w db =
    (Inr ((set_fields name t ttl v w r)\<lparr>rr_updated := now\<rparr>),
     db\<lparr>db_records := map (\<lambda>x. if rr_id x = rid then (set_fields name t ttl v w r)\<lparr>rr_updated := now\<rparr> else x) (db_records db)\<rparr>)"
proof -
  have rw: "recs_wf (db_records db) (zr_id ` set (db_zones db)) (db_rseq db)" and s: "schema_ok db"
    using assms(1) by (simp_all add: db_wf_def)
  have iff: "rr_id x = rid \<and> rr_zone x = zid \<longleftrightarrow> rr_id x = rid" if "x \<in> set (db_records db)" for x
    using recs_wf_id [OF rw that assms(2)] assms(3,4) by auto
  have f: "filter (\<lambda>r. rr_id r = rid \<and> rr_zone r = zid) (db_records db) = [r]"
    using assms(2-4) rw by (intro filter_unique [where f = rr_id]) (auto simp: recs_wf_def)
  have dup: "\<not> (\<exists>x \<in> set (db_records db). \<not> (rr_id x = rid \<and> rr_zone x = zid) \<and> same_rrset zid name t v x)"
    using assms(7) iff by blast
  have "stamp_record db now x = x\<lparr>rr_updated := now\<rparr>" for x using s by (simp add: stamp_record_def schema_ok_simps)
  then have "update_record now rid zid name t ttl v w db =
    (Inr ((set_fields name t ttl v w r)\<lparr>rr_updated := now\<rparr>),
     db\<lparr>db_records := map (\<lambda>x. if rr_id x = rid \<and> rr_zone x = zid
        then (set_fields name t ttl v w r)\<lparr>rr_updated := now\<rparr> else x) (db_records db)\<rparr>)"
    using s assms(5,6) dup unfolding update_record_def Let_def f list.case by (simp add: schema_ok_simps)
  also have "map (\<lambda>x. if rr_id x = rid \<and> rr_zone x = zid then y else x) (db_records db) =
      map (\<lambda>x. if rr_id x = rid then y else x) (db_records db)" for y
    by (rule map_cong [OF refl]) (simp only: iff)
  finally show ?thesis .
qed

text \<open>
  C24: what an update does. When the statement gets through and TTL and weight fit their columns: a
  record that is not in the zone is reported missing, one that would equal another active record of
  the zone is reported as a conflict, and nothing changes; otherwise the row with the identifier gets
  the new fields, the time of the update and is active afterwards, even if it had been deleted, and
  no other row changes.
\<close>

theorem UpdateRecord_effect:
  assumes "db_reachable arb db" and "fits_int4 (uint (r_TTL rec))" and "fits_int4 (r_Weight rec)"
  shows "((\<nexists>r. r \<in> set (db_records db) \<and> rr_id r = rid \<and> rr_zone r = zid) \<longrightarrow>
      UpdateRecord L Done now db zid rid rec = (Inl ErrNotFound, db)) \<and>
    (\<forall>r \<in> set (db_records db). rr_id r = rid \<and> rr_zone r = zid \<longrightarrow>
      (if \<exists>x \<in> set (db_records db). rr_id x \<noteq> rid \<and> same_rrset zid (r_Name rec) (typeName L (r_Type rec)) (r_Value rec) x
       then UpdateRecord L Done now db zid rid rec = (Inl ErrConflict, db)
       else (let row = r\<lparr>rr_name := r_Name rec, rr_type := typeName L (r_Type rec), rr_ttl := uint (r_TTL rec),
               rr_value := r_Value rec, rr_weight := r_Weight rec, rr_updated := now, rr_deleted := None\<rparr>
             in UpdateRecord L Done now db zid rid rec = (scan_record L row,
                  db\<lparr>db_records := map (\<lambda>x. if rr_id x = rid then row else x) (db_records db)\<rparr>))))"
proof (intro conjI impI ballI)
  have wf: "db_wf db" using assms(1) by (rule db_reachable_wf)
  then have s: "schema_ok db" by (simp add: db_wf_def)
  {
    assume "\<nexists>r. r \<in> set (db_records db) \<and> rr_id r = rid \<and> rr_zone r = zid"
    then have "filter (\<lambda>r. rr_id r = rid \<and> rr_zone r = zid) (db_records db) = []" by (auto simp: filter_empty_conv)
    then show "UpdateRecord L Done now db zid rid rec = (Inl ErrNotFound, db)"
      using assms(2,3) s by (simp add: UpdateRecord_def update_record_def schema_ok_simps)
  }
  fix r assume r: "r \<in> set (db_records db)" "rr_id r = rid \<and> rr_zone r = zid"
  let ?same = "same_rrset zid (r_Name rec) (typeName L (r_Type rec)) (r_Value rec)"
  let ?row = "r\<lparr>rr_name := r_Name rec, rr_type := typeName L (r_Type rec), rr_ttl := uint (r_TTL rec),
    rr_value := r_Value rec, rr_weight := r_Weight rec, rr_updated := now, rr_deleted := None\<rparr>"
  show "if \<exists>x \<in> set (db_records db). rr_id x \<noteq> rid \<and> ?same x
    then UpdateRecord L Done now db zid rid rec = (Inl ErrConflict, db)
    else (let row = ?row in UpdateRecord L Done now db zid rid rec = (scan_record L row,
      db\<lparr>db_records := map (\<lambda>x. if rr_id x = rid then row else x) (db_records db)\<rparr>))"
  proof (cases "\<exists>x \<in> set (db_records db). rr_id x \<noteq> rid \<and> ?same x")
    case True
    moreover obtain r0 rs where "filter (\<lambda>r. rr_id r = rid \<and> rr_zone r = zid) (db_records db) = r0 # rs"
      using r by (metis (mono_tags, lifting) filter_empty_conv neq_Nil_conv)
    ultimately show ?thesis
      using assms(2,3) s by (auto simp: UpdateRecord_def update_record_def Let_def schema_ok_simps isConflict_def)
  next
    case False
    have row: "(set_fields (r_Name rec) (typeName L (r_Type rec)) (uint (r_TTL rec)) (r_Value rec) (r_Weight rec) r)
      \<lparr>rr_updated := now\<rparr> = ?row" by (simp add: set_fields_def)
    have "update_record now rid zid (r_Name rec) (typeName L (r_Type rec)) (uint (r_TTL rec)) (r_Value rec) (r_Weight rec) db =
      (Inr ?row, db\<lparr>db_records := map (\<lambda>x. if rr_id x = rid then ?row else x) (db_records db)\<rparr>)"
      using update_record_done [OF wf r(1) _ _ assms(2,3), of rid zid "r_Name rec" "typeName L (r_Type rec)" "r_Value rec" now]
        r(2) False unfolding row by blast
    then show ?thesis unfolding if_not_P [OF False] Let_def by (simp add: UpdateRecord_def)
  qed
qed

theorem UpdateRecord_effect_witness:
  "UpdateRecord demo_lib Done 9 demo_db 1 7 demo_rec = (Inl ErrNotFound, demo_db) \<and>
   UpdateRecord demo_lib Done 9 demo_two 1 2 demo_rec = (Inl ErrConflict, demo_two) \<and>
   db_records (snd (UpdateRecord demo_lib Done 9 demo_two 1 2 (demo_rec\<lparr>r_Value := ''5.6.7.8''\<rparr>))) =
     [demo_row 1 ''w.b.'' 6, (demo_row 2 ''w.b.'' 9)\<lparr>rr_value := ''5.6.7.8''\<rparr>]"
proof -
  show ?thesis
    using UpdateRecord_effect [OF demo_db_reachable, of demo_rec 7 1 demo_lib 9] UpdateRecord_effect [OF demo_two_reachable, of demo_rec 2 1 demo_lib 9]
      UpdateRecord_effect [OF demo_two_reachable, of "demo_rec\<lparr>r_Value := ''5.6.7.8''\<rparr>" 2 1 demo_lib 9]
    by (simp add: demo_rec_def fits_int4_def demo_db_tables demo_two_tables demo_row_def same_rrset_def active_key_def demo_scan Let_def)
qed

subsection \<open>Listing\<close>

lemma mset_insort_by [simp]: "mset (insort_by le x xs) = add_mset x (mset xs)"
  by (induction xs) simp_all

lemma mset_order_by [simp]: "mset (order_by le xs) = mset xs"
  by (induction xs) (simp_all add: order_by_def)

lemma set_order_by [simp]: "set (order_by le xs) = set xs"
  by (metis mset_order_by set_mset_mset)

definition collation :: "('a \<Rightarrow> 'a \<Rightarrow> bool) \<Rightarrow> bool" where
  "collation le \<longleftrightarrow> (\<forall>x y. le x y \<or> le y x) \<and> (\<forall>x y z. le x y \<longrightarrow> le y z \<longrightarrow> le x z)"

lemma sorted_insort_by:
  assumes "collation le" and "sorted_wrt le xs" shows "sorted_wrt le (insort_by le x xs)"
  using assms(2)
proof (induction xs)
  case (Cons y ys)
  have s: "set (insort_by le x ys) = insert x (set ys)" by (metis mset_insort_by set_mset_add_mset_insert set_mset_mset)
  show ?case
  proof (cases "le x y")
    case True
    then have "\<forall>z \<in> set ys. le x z" using Cons.prems assms(1) unfolding collation_def by (meson sorted_wrt.simps(2))
    with True Cons.prems show ?thesis by simp
  next
    case False
    then have "le y x" using assms(1) unfolding collation_def by blast
    with False Cons show ?thesis by (simp add: s)
  qed
qed simp

lemma sorted_order_by: "collation le \<Longrightarrow> sorted_wrt le (order_by le xs)"
  by (induction xs) (simp_all add: order_by_def sorted_insort_by)

lemma collation_rec_le: "collation le \<Longrightarrow> collation (rec_le le)"
  unfolding collation_def rec_le_def by blast

definition permutes :: "('a list \<Rightarrow> 'a list) \<Rightarrow> bool" where
  "permutes scan \<longleftrightarrow> (\<forall>xs. mset (scan xs) = mset xs)"

definition parsed :: "mdns_lib \<Rightarrow> rec_row \<Rightarrow> Record option" where
  "parsed L r = (case scan_record L r of Inl _ \<Rightarrow> None | Inr rec \<Rightarrow> Some rec)"

lemma map_filter_simps [simp]:
  "List.map_filter f [] = []"
  "List.map_filter f (x # xs) = (case f x of None \<Rightarrow> List.map_filter f xs | Some y \<Rightarrow> y # List.map_filter f xs)"
  by (simp_all add: List.map_filter_def split: option.split)

lemma mset_map_filter: "mset xs = mset ys \<Longrightarrow> mset (List.map_filter f xs) = mset (List.map_filter f ys)"
  by (simp add: List.map_filter_def mset_filter)

lemma collect_parsed:
  "\<forall>r \<in> set rows. 0 \<le> rr_ttl r \<Longrightarrow> collect L rows = Inr (List.map_filter (parsed L) rows)"
proof (induction rows)
  case (Cons r rows)
  have "(\<exists>x. scan_record L r = Inr x) \<or> (\<exists>e. scan_record L r = Inl (PgParse e))"
    using Cons.prems by (auto simp: scan_record_def Let_def split: sum.split)
  with Cons show ?case by (auto simp: parsed_def)
qed simp

text \<open>
  C25: the listing of a zone is exact. For every reachable database, every scan order and every
  collation, \<open>ListRecords\<close> succeeds when its query does, and returns each active record of the active zone
  with that name exactly once, except those whose text the DNS library rejects, sorted by owner name: the
  rows are taken in the order of owner name and then type.
\<close>

theorem ListRecords_exact:
  assumes "db_reachable arb db" and "permutes scan" and "collation le"
  shows "\<exists>out. ListRecords L Done None le scan db apex = Inr out \<and>
    mset out = mset (List.map_filter (parsed L) (filter (\<lambda>r. rr_deleted r = None \<and>
      (\<exists>z \<in> set (db_zones db). zr_name z = apex \<and> zr_deleted z = None \<and> zr_id z = rr_zone r)) (db_records db))) \<and>
    sorted_wrt (\<lambda>a b. le (r_Name a) (r_Name b)) out \<and>
    (\<exists>rows. mset rows = mset (filter (\<lambda>r. rr_deleted r = None \<and>
        (\<exists>z \<in> set (db_zones db). zr_name z = apex \<and> zr_deleted z = None \<and> zr_id z = rr_zone r)) (db_records db)) \<and>
      sorted_wrt (rec_le le) rows \<and> out = List.map_filter (parsed L) rows)"
proof -
  have wf: "db_wf db" using assms(1) by (rule db_reachable_wf)
  define zids where "zids = map zr_id (filter (active_zone apex) (db_zones db))"
  define sel where "sel = filter (\<lambda>r. rr_zone r \<in> set zids \<and> rr_deleted r = None) (db_records db)"
  define rows where "rows = order_by (rec_le le) (scan sel)"
  have m: "mset rows = mset sel" using assms(2) by (simp add: rows_def permutes_def)
  then have "set rows = set sel" by (metis set_mset_mset)
  then have "\<forall>r \<in> set rows. 0 \<le> rr_ttl r" using wf by (auto simp: sel_def db_wf_def recs_wf_def)
  then have c: "collect L rows = Inr (List.map_filter (parsed L) rows)" by (rule collect_parsed)
  have sel: "sel = filter (\<lambda>r. rr_deleted r = None \<and>
      (\<exists>z \<in> set (db_zones db). zr_name z = apex \<and> zr_deleted z = None \<and> zr_id z = rr_zone r)) (db_records db)"
    unfolding sel_def zids_def by (rule filter_cong) (force simp: active_zone_def)+
  have name: "r_Name rec = rr_name r" if "parsed L r = Some rec" for r rec
    using that by (auto simp: parsed_def scan_record_def Let_def split: sum.splits if_splits)
  have srt: "sorted_wrt (rec_le le) rows"
    unfolding rows_def by (rule sorted_order_by [OF collation_rec_le [OF assms(3)]])
  from srt have "sorted_wrt (\<lambda>a b. le (rr_name a) (rr_name b)) rows"
    by (rule sorted_wrt_mono_rel [rotated]) (simp add: rec_le_def)
  then have "sorted_wrt (\<lambda>a b. le (r_Name a) (r_Name b)) (List.map_filter (parsed L) rows)"
  proof (induction rows)
    case (Cons r rows)
    have "le (rr_name r) (r_Name x)" if "x \<in> set (List.map_filter (parsed L) rows)" for x
      using that Cons.prems name by (auto simp: List.map_filter_def)
    then show ?case using Cons name by (auto split: option.split)
  qed simp
  moreover have "ListRecords L Done None le scan db apex = Inr (List.map_filter (parsed L) rows)"
    using wf c by (simp add: ListRecords_def delivered_def db_wf_def schema_ok_simps rows_def sel_def zids_def)
  moreover have "mset (List.map_filter (parsed L) rows) = mset (List.map_filter (parsed L) sel)"
    using m by (rule mset_map_filter)
  ultimately show ?thesis unfolding sel [symmetric] using m srt by blast
qed

theorem ListRecords_exact_witness:
  "\<exists>out. ListRecords demo_lib Done None (\<lambda>x y. length x \<le> length y) rev demo_two ''b.'' = Inr out \<and>
     image_mset r_Name (mset out) = {#''w.b.'', ''v.b.''#}"
proof -
  have "permutes (rev :: rec_row list \<Rightarrow> _)" "collation (\<lambda>x y :: string. length x \<le> length y)"
    by (auto simp: permutes_def collation_def)
  then show ?thesis
    using ListRecords_exact [OF demo_two_reachable, of rev "\<lambda>x y. length x \<le> length y" demo_lib "''b.''"]
    by (auto simp: demo_db_tables demo_two_tables demo_row_def List.map_filter_def parsed_def scan_record_def parseRR_def demo_scan)
qed

end
