(* ===== verification/PG_Load.thy ===== *)
theory PG_Load
  imports PG_Store
begin

text \<open>
  \<^verbatim>\<open>internal/pg/load.go\<close> and \<^verbatim>\<open>internal/pg/sync.go\<close>: the full load of the zone store at start-up and
  the incremental load of the syncer, generic in the store they fill.
\<close>

section \<open>Loading the zone store\<close>

definition fqdn :: "string \<Rightarrow> string" where
  "fqdn name = (if HasSuffix name ''.'' then name else name @ ''.'')"

text \<open>The rows of the join of the two tables.\<close>

definition join_rows :: "DB \<Rightarrow> (zone_row \<times> rec_row) list" where
  "join_rows db = concat (map (\<lambda>z. map (Pair z) (filter (\<lambda>r. rr_zone r = zr_id z) (db_records db))) (db_zones db))"

definition load_le :: "(string \<Rightarrow> string \<Rightarrow> bool) \<Rightarrow> zone_row \<times> rec_row \<Rightarrow> zone_row \<times> rec_row \<Rightarrow> bool" where
  "load_le le a b \<longleftrightarrow> le (zr_name (fst a)) (zr_name (fst b)) \<and>
     (le (zr_name (fst b)) (zr_name (fst a)) \<longrightarrow> rec_le le (snd a) (snd b))"

definition queryLoadAll :: "(string \<Rightarrow> string \<Rightarrow> bool) \<Rightarrow> ((zone_row \<times> rec_row) list \<Rightarrow> (zone_row \<times> rec_row) list) \<Rightarrow>
    DB \<Rightarrow> (zone_row \<times> rec_row) list" where
  "queryLoadAll le scan db =
     order_by (load_le le) (scan (filter (\<lambda>(z, r). zr_deleted z = None \<and> rr_deleted r = None) (join_rows db)))"

text \<open>The record a row of the full load is turned into, if it is not skipped. The signed TTL is
  printed into the text that is parsed, and its low 32 bits are kept.\<close>

definition loadRow :: "mdns_lib \<Rightarrow> rec_row \<Rightarrow> Record option" where
  "loadRow L r =
     (let recName = fqdn (rr_name r) in
      case StringToType L (rr_type r) of
        None \<Rightarrow> None
      | Some qtype \<Rightarrow>
          (case NewRR L (rrText recName (Itoa (rr_ttl r)) (rr_type r) (rr_value r)) of
             Inl e \<Rightarrow> None
           | Inr rr \<Rightarrow> Some \<lparr>r_ID = rr_id r, r_Name = recName, r_Type = qtype, r_TTL = word_of_int (rr_ttl r),
               r_Value = rr_value r, r_Weight = rr_weight r, r_RR = rr\<rparr>))"

definition addLoaded :: "string \<Rightarrow> Record \<Rightarrow> (string, Zone) fmap \<Rightarrow> (string, Zone) fmap" where
  "addLoaded zoneName rec zs =
     (let zone = (case fmlookup zs zoneName of Some z \<Rightarrow> z
                  | None \<Rightarrow> \<lparr>z_Name = zoneName, z_Records = fmempty, z_SOA = None\<rparr>);
          key = rkey (r_Name rec) (r_Type rec)
      in fmupd zoneName (zone\<lparr>z_Records := fmupd key (rrset (z_Records zone) key @ [rec]) (z_Records zone)\<rparr>) zs)"

fun loadLoop :: "mdns_lib \<Rightarrow> (zone_row \<times> rec_row) list \<Rightarrow> (string, Zone) fmap \<Rightarrow> (string, Zone) fmap" where
  "loadLoop L [] zs = zs"
| "loadLoop L ((z, r) # rows) zs =
     (case loadRow L r of
        None \<Rightarrow> loadLoop L rows zs
      | Some rec \<Rightarrow> loadLoop L rows (addLoaded (fqdn (zr_name z)) rec zs))"

fun updateZones :: "'s ZoneStore \<Rightarrow> (string, Zone) fmap \<Rightarrow> string list \<Rightarrow> 's \<Rightarrow> store_error option \<times> 's" where
  "updateZones S zs [] s = (None, s)"
| "updateZones S zs (a # as) s =
     (case fmlookup zs a of
        None \<Rightarrow> updateZones S zs as s
      | Some zone \<Rightarrow>
          (case Update_m S s zone of
             (Some e, s') \<Rightarrow> (Some e, s')
           | (None, s') \<Rightarrow> updateZones S zs as s'))"

text \<open>\<open>zord\<close> is the order the collected zones are ranged over.\<close>

definition LoadAll :: "mdns_lib \<Rightarrow> 's ZoneStore \<Rightarrow> fate \<Rightarrow> nat option \<Rightarrow> (string \<Rightarrow> string \<Rightarrow> bool) \<Rightarrow>
    ((zone_row \<times> rec_row) list \<Rightarrow> (zone_row \<times> rec_row) list) \<Rightarrow> ((string, Zone) fmap \<Rightarrow> string list) \<Rightarrow>
    DB \<Rightarrow> 's \<Rightarrow> pg_error option \<times> 's" where
  "LoadAll L S fate brk le scan zord db s =
     (if fate \<noteq> Done then (Some (PgError ConnError), s)
      else if ''records'' \<notin> set (db_tables db) then (Some (PgError (UndefinedTable ''records'')), s)
      else
        (let zs = loadLoop L (delivered brk (queryLoadAll le scan db)) fmempty in
         if brk \<noteq> None then (Some (PgError ConnError), s)
         else map_prod (map_option PgStore) id (updateZones S zs (zord zs) s)))"

text \<open>
  \<open>IncrementalLoad\<close>: the zone changes, then the record changes, each read by its own statement (so
  from its own snapshot of the database) and applied row by row as the rows arrive.
\<close>

definition applyZoneRow :: "'s ZoneStore \<Rightarrow> zone_row \<Rightarrow> 's \<Rightarrow> 's" where
  "applyZoneRow S z s = (if zr_deleted z \<noteq> None then snd (Delete_m S s (fqdn (zr_name z))) else s)"

definition syncRow :: "mdns_lib \<Rightarrow> rec_row \<Rightarrow> Record option" where
  "syncRow L r =
     (let recName = fqdn (rr_name r); ttl = word_of_int (rr_ttl r) :: u32 in
      case StringToType L (rr_type r) of
        None \<Rightarrow> None
      | Some qtype \<Rightarrow>
          (case parseRR L recName ttl (rr_type r) (rr_value r) of
             Inl e \<Rightarrow> None
           | Inr rr \<Rightarrow> Some \<lparr>r_ID = rr_id r, r_Name = recName, r_Type = qtype, r_TTL = ttl,
               r_Value = rr_value r, r_Weight = rr_weight r, r_RR = rr\<rparr>))"

definition applyRecordRow :: "mdns_lib \<Rightarrow> 's ZoneStore \<Rightarrow> zone_row \<times> rec_row \<Rightarrow> 's \<Rightarrow> 's" where
  "applyRecordRow L S zr s =
     (let apex = fqdn (zr_name (fst zr)); r = snd zr in
      if rr_deleted r \<noteq> None then snd (DropRecord_m S s apex (rr_id r))
      else (case syncRow L r of None \<Rightarrow> s | Some rec \<Rightarrow> snd (PutRecord_m S s apex rec)))"

definition queryIncrementalZones :: "(zone_row list \<Rightarrow> zone_row list) \<Rightarrow> int \<Rightarrow> DB \<Rightarrow> zone_row list" where
  "queryIncrementalZones scan since db = scan (filter (\<lambda>z. since < zr_updated z) (db_zones db))"

definition queryIncrementalRecords :: "((zone_row \<times> rec_row) list \<Rightarrow> (zone_row \<times> rec_row) list) \<Rightarrow> int \<Rightarrow> DB \<Rightarrow>
    (zone_row \<times> rec_row) list" where
  "queryIncrementalRecords scan since db =
     scan (filter (\<lambda>(z, r). since < rr_updated r \<and> zr_deleted z = None) (join_rows db))"

record sync_env =
  se_zfate :: fate
  se_zbrk :: "nat option"
  se_zscan :: "zone_row list \<Rightarrow> zone_row list"
  se_rfate :: fate
  se_rbrk :: "nat option"
  se_rscan :: "(zone_row \<times> rec_row) list \<Rightarrow> (zone_row \<times> rec_row) list"

definition IncrementalLoad :: "mdns_lib \<Rightarrow> 's ZoneStore \<Rightarrow> sync_env \<Rightarrow> DB \<Rightarrow> DB \<Rightarrow> int \<Rightarrow> 's \<Rightarrow> pg_error option \<times> 's" where
  "IncrementalLoad L S E dbz dbr since s =
     (if se_zfate E \<noteq> Done then (Some (PgError ConnError), s)
      else if ''zones'' \<notin> set (db_tables dbz) then (Some (PgError (UndefinedTable ''zones'')), s)
      else
        (let s1 = fold (applyZoneRow S) (delivered (se_zbrk E) (queryIncrementalZones (se_zscan E) since dbz)) s in
         if se_zbrk E \<noteq> None then (Some (PgError ConnError), s1)
         else if se_rfate E \<noteq> Done then (Some (PgError ConnError), s1)
         else if ''records'' \<notin> set (db_tables dbr) then (Some (PgError (UndefinedTable ''records'')), s1)
         else
           (let s2 = fold (applyRecordRow L S) (delivered (se_rbrk E) (queryIncrementalRecords (se_rscan E) since dbr)) s1 in
            if se_rbrk E \<noteq> None then (Some (PgError ConnError), s2) else (None, s2))))"

section \<open>The full load\<close>

text \<open>What the load makes of one row of the join, for the rrset \<open>k\<close> of the zone \<open>a\<close>.\<close>

definition loadable :: "mdns_lib \<Rightarrow> string \<Rightarrow> RecordKey \<Rightarrow> zone_row \<times> rec_row \<Rightarrow> Record option" where
  "loadable L a k zr =
     (case loadRow L (snd zr) of
        None \<Rightarrow> None
      | Some rec \<Rightarrow> if fqdn (zr_name (fst zr)) = a \<and> rkey (r_Name rec) (r_Type rec) = k then Some rec else None)"

lemma addLoaded_rrset:
  "rrset (records_of (addLoaded a rec zs) b) k =
     (if b = a \<and> k = rkey (r_Name rec) (r_Type rec) then rrset (records_of zs b) k @ [rec] else rrset (records_of zs b) k)"
  by (auto simp: addLoaded_def Let_def records_of_def rrset_def split: option.split)

lemma loadLoop_rrset:
  "rrset (records_of (loadLoop L rows zs) a) k = rrset (records_of zs a) k @ List.map_filter (loadable L a k) rows"
proof (induction L rows zs rule: loadLoop.induct)
  case (2 L z r rows zs)
  then show ?case by (cases "loadRow L r") (auto simp: loadable_def addLoaded_rrset)
qed simp

definition load_wf :: "(string, Zone) fmap \<Rightarrow> bool" where
  "load_wf zs \<longleftrightarrow> (\<forall>a z. fmlookup zs a = Some z \<longrightarrow>
     z_Name z = a \<and> z_SOA z = None \<and> zone_wf z \<and> (\<exists>k. rrset (z_Records z) k \<noteq> []))"

lemma records_wf_add:
  assumes "records_wf recs"
  shows "records_wf (fmupd (rkey (r_Name rec) (r_Type rec)) (rrset recs (rkey (r_Name rec) (r_Type rec)) @ [rec]) recs)"
  using assms records_wf_mem [OF assms] by (auto simp: records_wf_def)

lemma load_wf_add:
  assumes "load_wf zs" shows "load_wf (addLoaded a rec zs)"
proof -
  let ?key = "rkey (r_Name rec) (r_Type rec)"
  have "z_Name z = b \<and> z_SOA z = None \<and> zone_wf z \<and> (\<exists>k. rrset (z_Records z) k \<noteq> [])"
    if l: "fmlookup (addLoaded a rec zs) b = Some z" for b z
  proof (cases "b = a")
    case True
    define z0 where "z0 = (case fmlookup zs a of Some z \<Rightarrow> z | None \<Rightarrow> \<lparr>z_Name = a, z_Records = fmempty, z_SOA = None\<rparr>)"
    have z0: "z_Name z0 = a" "z_SOA z0 = None" "zone_wf z0"
      using assms by (auto simp: z0_def load_wf_def zone_wf_def split: option.split)
    have z: "z = z0\<lparr>z_Records := fmupd ?key (rrset (z_Records z0) ?key @ [rec]) (z_Records z0)\<rparr>"
      using l True by (simp add: addLoaded_def Let_def z0_def)
    then show ?thesis using z0 True records_wf_add [of "z_Records z0" rec]
      by (auto simp: zone_wf_def intro!: exI [of _ ?key])
  next
    case False
    then show ?thesis using l assms by (simp add: addLoaded_def Let_def load_wf_def)
  qed
  then show ?thesis unfolding load_wf_def by blast
qed

lemma load_wf_loop: "load_wf zs \<Longrightarrow> load_wf (loadLoop L rows zs)"
proof (induction L rows zs rule: loadLoop.induct)
  case (2 L z r rows zs)
  then show ?case by (cases "loadRow L r") (simp_all add: load_wf_add)
qed simp

lemma updateZones_RW:
  assumes "\<And>a z. fmlookup zs a = Some z \<Longrightarrow> z_Name z = a"
  shows "fst (updateZones (RWMutexStore_iface ord) zs as s) = None \<and>
    fmlookup (zones (snd (updateZones (RWMutexStore_iface ord) zs as s))) a =
      (if a \<in> set as \<and> fmlookup zs a \<noteq> None then fmlookup zs a else fmlookup (zones s) a)"
proof (induction as arbitrary: s)
  case (Cons b as)
  show ?case
  proof (cases "fmlookup zs b")
    case None
    then show ?thesis using Cons by auto
  next
    case (Some z)
    have u: "updateZones (RWMutexStore_iface ord) zs (b # as) s =
        updateZones (RWMutexStore_iface ord) zs as (s\<lparr>zones := fmupd b z (zones s)\<rparr>)"
      using Some assms by (simp add: Update_def)
    show ?thesis unfolding u using Cons [of "s\<lparr>zones := fmupd b z (zones s)\<rparr>"] Some by auto
  qed
qed simp

lemma load_wf_exists:
  "load_wf zs \<Longrightarrow> fmlookup zs a \<noteq> None \<longleftrightarrow> (\<exists>k. rrset (records_of zs a) k \<noteq> [])"
  unfolding load_wf_def records_of_def by (cases "fmlookup zs a") auto

lemma join_rows_mem:
  "(z, r) \<in> set (join_rows db) \<longleftrightarrow> z \<in> set (db_zones db) \<and> r \<in> set (db_records db) \<and> rr_zone r = zr_id z"
  by (auto simp: join_rows_def)

definition active_row :: "zone_row \<times> rec_row \<Rightarrow> bool" where
  "active_row zr \<longleftrightarrow> zr_deleted (fst zr) = None \<and> rr_deleted (snd zr) = None"

lemma LoadAll_loads:
  assumes "db_wf db" and "permutes scan" and "\<And>m. range_order (zord m) m"
  shows "\<exists>s'. LoadAll L (RWMutexStore_iface ord) Done None le scan zord db New = (None, s') \<and> store_wf s' \<and>
    (\<forall>a k. mset (rrset (records_of (zones s') a) k) =
       mset (List.map_filter (loadable L a k) (filter active_row (join_rows db)))) \<and>
    (\<forall>a. fmlookup (zones s') a \<noteq> None \<longleftrightarrow>
       (\<exists>zr \<in> set (join_rows db). active_row zr \<and> fqdn (zr_name (fst zr)) = a \<and> loadRow L (snd zr) \<noteq> None))"
proof -
  define rows where "rows = queryLoadAll le scan db"
  define zs where "zs = loadLoop L rows fmempty"
  obtain e s' where r: "updateZones (RWMutexStore_iface ord) zs (zord zs) New = (e, s')" by fastforce
  have wf: "load_wf zs" unfolding zs_def by (rule load_wf_loop) (simp add: load_wf_def)
  then have nm: "z_Name z = a" if "fmlookup zs a = Some z" for a z using that by (simp add: load_wf_def)
  have u: "fst (updateZones (RWMutexStore_iface ord) zs (zord zs) New) = None \<and>
      fmlookup (zones (snd (updateZones (RWMutexStore_iface ord) zs (zord zs) New))) a =
      (if a \<in> set (zord zs) \<and> fmlookup zs a \<noteq> None then fmlookup zs a else fmlookup (zones New) a)" for a
    by (rule updateZones_RW) (rule nm)
  from u r have e: "e = None" and l: "fmlookup (zones s') a = fmlookup zs a" for a
    using range_order_mem [OF assms(3), of a zs] by (auto simp: New_def)
  then have z: "zones s' = zs" by (simp add: fmap_ext_iff)
  have "''records'' \<in> set (db_tables db)" using assms(1) by (simp add: db_wf_def schema_ok_simps)
  then have ok: "LoadAll L (RWMutexStore_iface ord) Done None le scan zord db New = (None, s')"
    using r e by (simp add: LoadAll_def delivered_def Let_def zs_def rows_def)
  have swf: "store_wf s'" using wf z by (simp add: store_wf_def load_wf_def)
  have "(\<lambda>(z, r). zr_deleted z = None \<and> rr_deleted r = None) = active_row" by (auto simp: active_row_def)
  then have m: "mset rows = mset (filter active_row (join_rows db))"
    using assms(2) by (simp add: rows_def queryLoadAll_def permutes_def)
  have c: "rrset (records_of (zones s') a) k = List.map_filter (loadable L a k) rows" for a k
    unfolding z zs_def loadLoop_rrset by (simp add: records_of_def)
  have "fmlookup (zones s') a \<noteq> None \<longleftrightarrow> (\<exists>k. List.map_filter (loadable L a k) rows \<noteq> [])" for a
    using load_wf_exists [OF wf, of a] c [of a] unfolding z by simp
  also have "(\<exists>k. List.map_filter (loadable L a k) rows \<noteq> []) \<longleftrightarrow>
      (\<exists>zr \<in> set rows. fqdn (zr_name (fst zr)) = a \<and> loadRow L (snd zr) \<noteq> None)" for a
    unfolding List.map_filter_def loadable_def by (force simp: filter_empty_conv split: option.splits)
  finally have ex: "fmlookup (zones s') a \<noteq> None \<longleftrightarrow>
      (\<exists>zr \<in> set rows. fqdn (zr_name (fst zr)) = a \<and> loadRow L (snd zr) \<noteq> None)" for a .
  have "set rows = set (filter active_row (join_rows db))" using m by (metis set_mset_mset)
  then have "fmlookup (zones s') a \<noteq> None \<longleftrightarrow>
      (\<exists>zr \<in> set (join_rows db). active_row zr \<and> fqdn (zr_name (fst zr)) = a \<and> loadRow L (snd zr) \<noteq> None)" for a
    unfolding ex by (simp only: set_filter mem_Collect_eq Bex_def conj_assoc)
  with ok swf c show ?thesis using mset_map_filter [OF m] by metis
qed

text \<open>
  C22: the start-up load is exact. From any reachable database, for every scan order, collation and
  order of the range loop, \<open>LoadAll\<close> into the new store succeeds when its query does; the store is well
  formed, every rrset of every zone holds exactly the active records of the active zone with that
  apex, owner name and type (both with the trailing dot added), except rows of unknown type or with a
  text the DNS library rejects; and the zones present are those with at least one such record.
\<close>

theorem LoadAll_exact:
  assumes "db_reachable arb db" and "permutes scan" and "\<And>m. range_order (zord m) m"
  shows "\<exists>s'. LoadAll L (RWMutexStore_iface ord) Done None le scan zord db New = (None, s') \<and> store_wf s' \<and>
    (\<forall>a k. mset (rrset (records_of (zones s') a) k) =
       mset (List.map_filter (loadable L a k) (filter active_row (join_rows db)))) \<and>
    (\<forall>a. fmlookup (zones s') a \<noteq> None \<longleftrightarrow>
       (\<exists>zr \<in> set (join_rows db). active_row zr \<and> fqdn (zr_name (fst zr)) = a \<and> loadRow L (snd zr) \<noteq> None))"
  by (rule LoadAll_loads [OF db_reachable_wf [OF assms(1)] assms(2,3)])

theorem LoadAll_exact_witness:
  "\<exists>s'. LoadAll demo_lib (RWMutexStore_iface sorted_range) Done None (\<lambda>x y. length x \<le> length y) rev
      (\<lambda>m. sorted_list_of_set (fmdom' m)) demo_db New = (None, s') \<and> fmlookup (zones s') ''b.'' = None"
proof -
  have "permutes (rev :: (zone_row \<times> rec_row) list \<Rightarrow> _)" by (simp add: permutes_def)
  moreover have "range_order (sorted_list_of_set (fmdom' m)) m" for m :: "(string, Zone) fmap"
    by (simp add: range_order_def)
  ultimately obtain s' where s': "LoadAll demo_lib (RWMutexStore_iface sorted_range) Done None (\<lambda>x y. length x \<le> length y) rev
      (\<lambda>m. sorted_list_of_set (fmdom' m)) demo_db New = (None, s')"
    "\<forall>a. fmlookup (zones s') a \<noteq> None \<longleftrightarrow> (\<exists>zr \<in> set (join_rows demo_db). active_row zr \<and>
       fqdn (zr_name (fst zr)) = a \<and> loadRow demo_lib (snd zr) \<noteq> None)"
    using LoadAll_exact [OF demo_db_reachable, of rev "\<lambda>m. sorted_list_of_set (fmdom' m)" demo_lib sorted_range
      "\<lambda>x y. length x \<le> length y"] by blast
  have "join_rows demo_db = []" by (simp add: join_rows_def demo_db_tables)
  with s' show ?thesis by auto
qed

section \<open>The incremental load\<close>

text \<open>The records of a zone in the store, each with the rrset it is filed under.\<close>

definition contents :: "RWMutexStore \<Rightarrow> string \<Rightarrow> (RecordKey \<times> Record) set" where
  "contents s a = {(k, x). x \<in> set (rrset (records_of (zones s) a) k)}"

definition ids_ok :: "RWMutexStore \<Rightarrow> bool" where
  "ids_ok s \<longleftrightarrow> (\<forall>a. unique_ids (records_of (zones s) a))"

abbreviation key_of :: "Record \<Rightarrow> RecordKey" where
  "key_of rec \<equiv> rkey (r_Name rec) (r_Type rec)"

lemma PutRecord_rrset:
  "rrset (records_of (zones (snd (PutRecord s apex rec))) a) k =
     (if a = apex \<and> k = key_of rec then putSlice rec (rrset (records_of (zones s) a) k)
      else rrset (records_of (zones s) a) k)"
  by (simp add: PutRecord_eq Let_def records_of_def)

lemma replaceByID_Some:
  "replaceByID rec rs = Some rs' \<Longrightarrow> distinct (map r_ID rs) \<Longrightarrow>
     map r_ID rs' = map r_ID rs \<and> set rs' = insert rec {x \<in> set rs. r_ID x \<noteq> r_ID rec}"
proof (induction rs arbitrary: rs')
  case (Cons r rs)
  show ?case
  proof (cases "r_ID r = r_ID rec")
    case True
    have "r_ID x \<noteq> r_ID r" if "x \<in> set rs" for x
      using Cons.prems(2) that by (metis distinct.simps(2) image_eqI list.set_map list.simps(9))
    with True Cons.prems show ?thesis by auto
  next
    case False
    with Cons.prems obtain rs1 where "replaceByID rec rs = Some rs1" "rs' = r # rs1" by auto
    with Cons.IH [of rs1] Cons.prems False show ?thesis by auto
  qed
qed simp

lemma putSlice_ids:
  assumes "distinct (map r_ID rs)" and "0 < r_ID rec"
  shows "distinct (map r_ID (putSlice rec rs))" and "set (putSlice rec rs) = insert rec {x \<in> set rs. r_ID x \<noteq> r_ID rec}"
proof -
  consider (new) "replaceByID rec rs = None" | (old) rs' where "replaceByID rec rs = Some rs'" by blast
  then show "distinct (map r_ID (putSlice rec rs))" "set (putSlice rec rs) = insert rec {x \<in> set rs. r_ID x \<noteq> r_ID rec}"
  proof (atomize(full), cases)
    case new
    then have "\<forall>x \<in> set rs. r_ID x \<noteq> r_ID rec" unfolding replaceByID_None by blast
    then have "r_ID rec \<notin> r_ID ` set rs" by (metis imageE)
    moreover have "{x \<in> set rs. r_ID x \<noteq> r_ID rec} = set rs" using \<open>\<forall>x \<in> set rs. r_ID x \<noteq> r_ID rec\<close> by blast
    moreover note new assms
    ultimately show "distinct (map r_ID (putSlice rec rs)) \<and>
        set (putSlice rec rs) = insert rec {x \<in> set rs. r_ID x \<noteq> r_ID rec}"
      by (simp add: putSlice_def)
  next
    case old
    with replaceByID_Some [OF old assms(1)] assms show "distinct (map r_ID (putSlice rec rs)) \<and>
        set (putSlice rec rs) = insert rec {x \<in> set rs. r_ID x \<noteq> r_ID rec}"
      by (simp add: putSlice_def)
  qed
qed

text \<open>Writing a record that is not moved to another rrset, and dropping one, on the contents.\<close>

lemma unique_ids_contents:
  assumes "\<And>k. distinct (map r_ID (rrset recs k))"
    and "\<And>k k' x x'. x \<in> set (rrset recs k) \<Longrightarrow> x' \<in> set (rrset recs k') \<Longrightarrow> r_ID x = r_ID x' \<Longrightarrow> k = k'"
  shows "unique_ids recs"
  using assms unfolding unique_ids_def by blast

lemma contents_put:
  assumes "ids_ok s" and "0 < r_ID rec"
    and "\<And>k x. (k, x) \<in> contents s apex \<Longrightarrow> r_ID x = r_ID rec \<Longrightarrow> k = key_of rec"
  shows "contents (snd (PutRecord s apex rec)) a =
      (if a = apex then insert (key_of rec, rec) {(k, x) \<in> contents s a. r_ID x \<noteq> r_ID rec} else contents s a)"
    and "ids_ok (snd (PutRecord s apex rec))"
proof -
  have d: "distinct (map r_ID (rrset (records_of (zones s) a) k))" for a k
    using assms(1) by (simp add: ids_ok_def unique_ids_def)
  have set: "set (rrset (records_of (zones (snd (PutRecord s apex rec))) a) k) =
      (if a = apex \<and> k = key_of rec then insert rec {x \<in> set (rrset (records_of (zones s) a) k). r_ID x \<noteq> r_ID rec}
       else set (rrset (records_of (zones s) a) k))" for a k
    by (simp add: PutRecord_rrset putSlice_ids(2) [OF d assms(2)])
  show c: "contents (snd (PutRecord s apex rec)) a =
      (if a = apex then insert (key_of rec, rec) {(k, x) \<in> contents s a. r_ID x \<noteq> r_ID rec} else contents s a)" for a
    using assms(3) unfolding contents_def set by (auto split: if_splits)
  have "unique_ids (records_of (zones (snd (PutRecord s apex rec))) a)" for a
  proof (rule unique_ids_contents)
    show "distinct (map r_ID (rrset (records_of (zones (snd (PutRecord s apex rec))) a) k))" for k
      by (simp add: PutRecord_rrset d putSlice_ids(1) [OF d assms(2)])
    have u: "k = k'" if "(k, x) \<in> contents s a" "(k', x') \<in> contents s a" "r_ID x = r_ID x'" for k k' x x'
      using that assms(1) unfolding ids_ok_def unique_ids_def contents_def by blast
    fix k k' x x' assume "x \<in> set (rrset (records_of (zones (snd (PutRecord s apex rec))) a) k)"
      "x' \<in> set (rrset (records_of (zones (snd (PutRecord s apex rec))) a) k')" and i: "r_ID x = r_ID x'"
    then have "(k, x) \<in> contents (snd (PutRecord s apex rec)) a" "(k', x') \<in> contents (snd (PutRecord s apex rec)) a"
      by (simp_all add: contents_def)
    then show "k = k'" unfolding c using i u by (auto split: if_splits)
  qed
  then show "ids_ok (snd (PutRecord s apex rec))" by (simp add: ids_ok_def)
qed

lemma contents_drop:
  assumes "range_ok ord" and "ids_ok s"
  shows "contents (snd (DropRecord ord s apex rid)) a =
      (if a = apex then {(k, x) \<in> contents s a. r_ID x \<noteq> rid} else contents s a)"
    and "ids_ok (snd (DropRecord ord s apex rid))"
proof -
  have u: "unique_ids (records_of (zones s) b)" for b using assms(2) by (simp add: ids_ok_def)
  have rr: "rrset (records_of (zones (snd (DropRecord ord s apex rid))) b) k =
      (if b = apex then filter (\<lambda>r. r_ID r \<noteq> rid) (rrset (records_of (zones s) b) k) else rrset (records_of (zones s) b) k)"
    for b k
    using DropRecord_unique [OF assms(1) u] rw.drop_other [of b apex ord s rid] by (simp add: Snapshot_def records_of_def)
  show "contents (snd (DropRecord ord s apex rid)) a =
      (if a = apex then {(k, x) \<in> contents s a. r_ID x \<noteq> rid} else contents s a)"
    unfolding contents_def rr by auto
  have "unique_ids (records_of (zones (snd (DropRecord ord s apex rid))) b)" for b
  proof (rule unique_ids_contents)
    show "distinct (map r_ID (rrset (records_of (zones (snd (DropRecord ord s apex rid))) b) k))" for k
    proof -
      have "distinct (map r_ID (rrset (records_of (zones s) b) k))" using u [of b] by (simp add: unique_ids_def)
      then show ?thesis unfolding rr by (auto simp: distinct_map_filter)
    qed
    show "k = k'" if "x \<in> set (rrset (records_of (zones (snd (DropRecord ord s apex rid))) b) k)"
      "x' \<in> set (rrset (records_of (zones (snd (DropRecord ord s apex rid))) b) k')" "r_ID x = r_ID x'" for k k' x x'
    proof -
      have "x \<in> set (rrset (records_of (zones s) b) k)" "x' \<in> set (rrset (records_of (zones s) b) k')"
        using that(1,2) unfolding rr by (auto split: if_splits)
      then show ?thesis using that(3) u [of b] unfolding unique_ids_def by blast
    qed
  qed
  then show "ids_ok (snd (DropRecord ord s apex rid))" by (simp add: ids_ok_def)
qed

lemma contents_delete:
  "contents (snd (Delete s apex)) a = (if a = apex then {} else contents s a)"
  "ids_ok s \<Longrightarrow> ids_ok (snd (Delete s apex))"
  by (auto simp: contents_def Delete_def records_of_def rrset_def ids_ok_def unique_ids_def split: option.split)

text \<open>What a list of changed rows contributes to a zone: the identifiers it takes out and the records
  it puts in.\<close>

definition touched :: "mdns_lib \<Rightarrow> string \<Rightarrow> (zone_row \<times> rec_row) list \<Rightarrow> int set" where
  "touched L a rows = {rr_id r | z r. (z, r) \<in> set rows \<and> fqdn (zr_name z) = a \<and> (rr_deleted r \<noteq> None \<or> syncRow L r \<noteq> None)}"

definition fetched :: "mdns_lib \<Rightarrow> string \<Rightarrow> (zone_row \<times> rec_row) list \<Rightarrow> (RecordKey \<times> Record) set" where
  "fetched L a rows = {(key_of rec, rec) | z r rec. (z, r) \<in> set rows \<and> fqdn (zr_name z) = a \<and>
     rr_deleted r = None \<and> syncRow L r = Some rec}"

lemma syncRow_id: "syncRow L r = Some rec \<Longrightarrow> r_ID rec = rr_id r"
  by (auto simp: syncRow_def Let_def split: option.splits sum.splits)

text \<open>No record of the store changes its owner name or type: where it has a record with the identifier
  of a changed row, it is in the rrset the row belongs to.\<close>

definition not_moved :: "mdns_lib \<Rightarrow> RWMutexStore \<Rightarrow> (zone_row \<times> rec_row) list \<Rightarrow> bool" where
  "not_moved L s rows \<longleftrightarrow> (\<forall>(z, r) \<in> set rows. \<forall>rec. rr_deleted r = None \<and> syncRow L r = Some rec \<longrightarrow>
     (\<forall>(k, x) \<in> contents s (fqdn (zr_name z)). r_ID x = rr_id r \<longrightarrow> k = key_of rec))"

lemma applyRecordRow_contents:
  assumes "range_ok ord" and "ids_ok s" and "0 < rr_id r" and "not_moved L s [(z, r)]"
  shows "contents (applyRecordRow L (RWMutexStore_iface ord) (z, r) s) a =
      {(k, x) \<in> contents s a. r_ID x \<notin> touched L a [(z, r)]} \<union> fetched L a [(z, r)]"
    and "ids_ok (applyRecordRow L (RWMutexStore_iface ord) (z, r) s)"
proof -
  consider (del) "rr_deleted r \<noteq> None" | (skip) "rr_deleted r = None" "syncRow L r = None"
    | (put) rec where "rr_deleted r = None" "syncRow L r = Some rec" by blast
  then show "contents (applyRecordRow L (RWMutexStore_iface ord) (z, r) s) a =
      {(k, x) \<in> contents s a. r_ID x \<notin> touched L a [(z, r)]} \<union> fetched L a [(z, r)]"
    and "ids_ok (applyRecordRow L (RWMutexStore_iface ord) (z, r) s)"
  proof (atomize(full), cases)
    case del
    then show "contents (applyRecordRow L (RWMutexStore_iface ord) (z, r) s) a =
      {(k, x) \<in> contents s a. r_ID x \<notin> touched L a [(z, r)]} \<union> fetched L a [(z, r)] \<and>
      ids_ok (applyRecordRow L (RWMutexStore_iface ord) (z, r) s)"
      using contents_drop [OF assms(1,2)] by (auto simp: applyRecordRow_def touched_def fetched_def)
  next
    case skip
    then show "contents (applyRecordRow L (RWMutexStore_iface ord) (z, r) s) a =
      {(k, x) \<in> contents s a. r_ID x \<notin> touched L a [(z, r)]} \<union> fetched L a [(z, r)] \<and>
      ids_ok (applyRecordRow L (RWMutexStore_iface ord) (z, r) s)"
      using assms(2) by (auto simp: applyRecordRow_def touched_def fetched_def)
  next
    case put
    have id: "r_ID rec = rr_id r" using put(2) by (rule syncRow_id)
    have nm: "k = key_of rec" if "(k, x) \<in> contents s (fqdn (zr_name z))" "r_ID x = r_ID rec" for k x
      using assms(4) put that id unfolding not_moved_def by auto
    have pos: "0 < r_ID rec" using assms(3) id by simp
    have t: "touched L a [(z, r)] = (if a = fqdn (zr_name z) then {r_ID rec} else {})"
      and f: "fetched L a [(z, r)] = (if a = fqdn (zr_name z) then {(key_of rec, rec)} else {})"
      using put id by (auto simp: touched_def fetched_def)
    show "contents (applyRecordRow L (RWMutexStore_iface ord) (z, r) s) a =
      {(k, x) \<in> contents s a. r_ID x \<notin> touched L a [(z, r)]} \<union> fetched L a [(z, r)] \<and>
      ids_ok (applyRecordRow L (RWMutexStore_iface ord) (z, r) s)"
      using put contents_put [OF assms(2) pos nm] unfolding t f by (auto simp: applyRecordRow_def)
  qed
qed

lemma touched_Cons: "touched L a (zr # rows) = touched L a [zr] \<union> touched L a rows"
  by (auto simp: touched_def)

lemma fetched_Cons: "fetched L a (zr # rows) = fetched L a [zr] \<union> fetched L a rows"
  unfolding fetched_def by (simp, blast)

lemma fetched_id: "(k, x) \<in> fetched L a rows \<Longrightarrow> r_ID x \<in> rr_id ` snd ` set rows"
  by (force simp: fetched_def dest: syncRow_id)

lemma touched_id: "touched L a rows \<subseteq> rr_id ` snd ` set rows"
  by (force simp: touched_def)

lemma not_moved_Cons: "not_moved L s (zr # rows) \<longleftrightarrow> not_moved L s [zr] \<and> not_moved L s rows"
  by (auto simp: not_moved_def)

lemma not_moved_contents:
  assumes "not_moved L s rows"
    and "\<And>a k x. (k, x) \<in> contents s' a \<Longrightarrow> r_ID x \<in> rr_id ` snd ` set rows \<Longrightarrow> (k, x) \<in> contents s a"
  shows "not_moved L s' rows"
  unfolding not_moved_def
proof (clarify)
  fix z r rec k x assume r: "(z, r) \<in> set rows" "rr_deleted r = None" "syncRow L r = Some rec"
    and x: "(k, x) \<in> contents s' (fqdn (zr_name z))" "r_ID x = rr_id r"
  have "r_ID x \<in> rr_id ` snd ` set rows" using r(1) x(2) by force
  then have "(k, x) \<in> contents s (fqdn (zr_name z))" using assms(2) x(1) by blast
  then show "k = key_of rec" using assms(1) r x(2) unfolding not_moved_def by fastforce
qed

text \<open>The loop over the changed rows, whose identifiers are distinct.\<close>

lemma applyRows_contents:
  assumes "range_ok ord" and "ids_ok s" and "not_moved L s rows" and "distinct (map (rr_id \<circ> snd) rows)"
    and "\<forall>zr \<in> set rows. 0 < rr_id (snd zr)"
  shows "contents (fold (applyRecordRow L (RWMutexStore_iface ord)) rows s) a =
      {(k, x) \<in> contents s a. r_ID x \<notin> touched L a rows} \<union> fetched L a rows \<and>
    ids_ok (fold (applyRecordRow L (RWMutexStore_iface ord)) rows s)"
  using assms(2-)
proof (induction rows arbitrary: s)
  case Nil
  then show ?case by (simp add: touched_def fetched_def)
next
  case (Cons zr rows)
  obtain z r where zr: "zr = (z, r)" by fastforce
  let ?s = "applyRecordRow L (RWMutexStore_iface ord) zr s"
  have nm1: "not_moved L s [(z, r)]" and pos: "0 < rr_id r"
    using Cons.prems(2,4) not_moved_Cons [of L s zr rows] by (simp_all add: zr)
  have step: "contents ?s b = {(k, x) \<in> contents s b. r_ID x \<notin> touched L b [zr]} \<union> fetched L b [zr]" for b
    unfolding zr by (rule applyRecordRow_contents(1) [OF assms(1) Cons.prems(1) pos nm1])
  have ok: "ids_ok ?s"
    unfolding zr by (rule applyRecordRow_contents(2) [OF assms(1) Cons.prems(1) pos nm1])
  have fresh: "rr_id r \<notin> rr_id ` snd ` set rows"
    using Cons.prems(3) by (simp add: zr image_image comp_def)
  have only: "r_ID x = rr_id r" if "(k, x) \<in> fetched L b [zr]" for k x b
    using fetched_id [OF that] by (simp add: zr)
  have nm: "not_moved L ?s rows"
  proof (rule not_moved_contents)
    show "not_moved L s rows" using Cons.prems(2) not_moved_Cons by blast
    fix b k x assume "(k, x) \<in> contents ?s b" "r_ID x \<in> rr_id ` snd ` set rows"
    then have "(k, x) \<notin> fetched L b [zr]" using only [of k x b] fresh by metis
    then show "(k, x) \<in> contents s b" using \<open>(k, x) \<in> contents ?s b\<close> unfolding step by simp
  qed
  have IH: "contents (fold (applyRecordRow L (RWMutexStore_iface ord)) rows ?s) a =
      {(k, x) \<in> contents ?s a. r_ID x \<notin> touched L a rows} \<union> fetched L a rows \<and>
    ids_ok (fold (applyRecordRow L (RWMutexStore_iface ord)) rows ?s)"
    using Cons.IH [OF ok nm] Cons.prems(3,4) by simp
  have keep: "(k, x) \<in> fetched L a [zr] \<Longrightarrow> r_ID x \<notin> touched L a rows" for k x
    using only [of k x a] fresh touched_id [of L a rows] by auto
  show ?case
    using IH keep unfolding touched_Cons [of L a zr rows] fetched_Cons [of L a zr rows] step by auto
qed

lemma applyZones_contents:
  "contents (fold (applyZoneRow (RWMutexStore_iface ord)) zrows s) a =
     (if \<exists>z \<in> set zrows. zr_deleted z \<noteq> None \<and> fqdn (zr_name z) = a then {} else contents s a)"
proof (induction zrows arbitrary: s)
  case (Cons z zrows)
  have "contents (applyZoneRow (RWMutexStore_iface ord) z s) a =
      (if zr_deleted z \<noteq> None \<and> fqdn (zr_name z) = a then {} else contents s a)"
    by (simp add: applyZoneRow_def contents_delete)
  then show ?case unfolding fold_simps comp_apply Cons list.set by auto
qed simp

lemma applyZones_ids: "ids_ok s \<Longrightarrow> ids_ok (fold (applyZoneRow (RWMutexStore_iface ord)) zrows s)"
  by (induction zrows arbitrary: s) (simp_all add: applyZoneRow_def contents_delete)

lemma join_rows_ids:
  assumes "db_wf db" shows "distinct (map (rr_id \<circ> snd) (join_rows db))"
proof -
  have rw: "recs_wf (db_records db) (zr_id ` set (db_zones db)) (db_rseq db)" and "zones_wf (db_zones db) (db_zseq db)"
    using assms by (simp_all add: db_wf_def)
  then have rs: "distinct (map rr_id (db_records db))" and zd: "distinct (map zr_id (db_zones db))"
    unfolding recs_wf_def zones_wf_def by blast+
  define ids where "ids z = map rr_id (filter (\<lambda>r. rr_zone r = zr_id z) (db_records db))" for z :: zone_row
  have mem: "\<exists>r \<in> set (db_records db). rr_zone r = zr_id z \<and> rr_id r = x" if "x \<in> set (ids z)" for x z
    using that unfolding ids_def by auto
  have apart: "zr_id z = zr_id z'" if x: "x \<in> set (ids z)" "x \<in> set (ids z')" for x z z'
  proof -
    obtain r r' where "r \<in> set (db_records db)" "rr_zone r = zr_id z" "rr_id r = x"
      "r' \<in> set (db_records db)" "rr_zone r' = zr_id z'" "rr_id r' = x" using mem x by metis
    then show ?thesis using recs_wf_id [OF rw, of r r'] by simp
  qed
  have "distinct (concat (map ids zs))" if "distinct (map zr_id zs)" for zs
    using that
  proof (induction zs)
    case (Cons z zs)
    have "set (ids z) \<inter> set (concat (map ids zs)) = {}"
    proof -
      have False if "x \<in> set (ids z)" "z' \<in> set zs" "x \<in> set (ids z')" for x z'
      proof -
        have "zr_id z \<in> zr_id ` set zs" using apart [OF that(1,3)] that(2) by simp
        then show False using Cons.prems by simp
      qed
      then show ?thesis by (auto simp only: set_concat set_map)
    qed
    moreover have "distinct (ids z)" unfolding ids_def using rs by (rule distinct_map_filter)
    ultimately show ?case using Cons by simp
  qed simp
  moreover have "map (rr_id \<circ> snd) (join_rows db) = concat (map ids (db_zones db))"
    by (simp add: join_rows_def ids_def [abs_def] map_concat comp_def)
  ultimately show ?thesis using zd by (simp only:)
qed

lemma permutes_set: "permutes scan \<Longrightarrow> set (scan xs) = set xs"
  unfolding permutes_def by (metis set_mset_mset)

lemma permutes_distinct: "permutes scan \<Longrightarrow> distinct (map f xs) \<Longrightarrow> distinct (map f (scan xs))"
  unfolding permutes_def by (metis mset_map mset_eq_imp_distinct_iff)

definition sync_done :: "sync_env \<Rightarrow> bool" where
  "sync_done E \<longleftrightarrow> se_zfate E = Done \<and> se_zbrk E = None \<and> se_rfate E = Done \<and> se_rbrk E = None \<and>
     permutes (se_zscan E) \<and> permutes (se_rscan E)"

text \<open>The rows an incremental load reads: the changed records of the zones that are not deleted.\<close>

definition changed_rows :: "int \<Rightarrow> DB \<Rightarrow> (zone_row \<times> rec_row) list" where
  "changed_rows since db = filter (\<lambda>(z, r). since < rr_updated r \<and> zr_deleted z = None) (join_rows db)"

lemma sync_contents:
  assumes wf: "db_wf db" and "sync_done E" and "range_ok ord" and "ids_ok s"
    and "not_moved L s (changed_rows since db)"
  shows "\<exists>s'. IncrementalLoad L (RWMutexStore_iface ord) E db db since s = (None, s') \<and> ids_ok s' \<and>
    (\<forall>a. contents s' a =
       {(k, x) \<in> contents s a. \<not> (\<exists>z \<in> set (db_zones db). since < zr_updated z \<and> zr_deleted z \<noteq> None \<and> fqdn (zr_name z) = a) \<and>
          r_ID x \<notin> touched L a (changed_rows since db)} \<union> fetched L a (changed_rows since db))"
proof -
  define zrows where "zrows = se_zscan E (filter (\<lambda>z. since < zr_updated z) (db_zones db))"
  define rows where "rows = se_rscan E (changed_rows since db)"
  define s1 where "s1 = fold (applyZoneRow (RWMutexStore_iface ord)) zrows s"
  define s2 where "s2 = fold (applyRecordRow L (RWMutexStore_iface ord)) rows s1"
  have E: "permutes (se_zscan E)" "permutes (se_rscan E)" using assms(2) by (simp_all add: sync_done_def)
  have zset: "set zrows = {z \<in> set (db_zones db). since < zr_updated z}"
    using permutes_set [OF E(1)] by (auto simp: zrows_def)
  have rset: "set rows = set (changed_rows since db)" using permutes_set [OF E(2)] by (simp add: rows_def)
  have load: "IncrementalLoad L (RWMutexStore_iface ord) E db db since s = (None, s2)"
    using assms(2) wf by (simp add: IncrementalLoad_def sync_done_def db_wf_def schema_ok_simps Let_def delivered_def
        queryIncrementalZones_def queryIncrementalRecords_def zrows_def rows_def s1_def s2_def changed_rows_def)
  have c1: "contents s1 a = (if \<exists>z \<in> set zrows. zr_deleted z \<noteq> None \<and> fqdn (zr_name z) = a then {} else contents s a)" for a
    unfolding s1_def by (rule applyZones_contents)
  have i1: "ids_ok s1" unfolding s1_def by (rule applyZones_ids [OF assms(4)])
  have same: "touched L a rows = touched L a (changed_rows since db)" "fetched L a rows = fetched L a (changed_rows since db)" for a
    using rset by (simp_all add: touched_def fetched_def)
  have "not_moved L s rows" using assms(5) rset by (simp add: not_moved_def)
  then have nm: "not_moved L s1 rows"
  proof (rule not_moved_contents)
    show "(k, x) \<in> contents s a" if "(k, x) \<in> contents s1 a" for a k x using that c1 [of a] by (simp split: if_splits)
  qed
  have "distinct (map (rr_id \<circ> snd) (changed_rows since db))"
    unfolding changed_rows_def by (rule distinct_map_filter [OF join_rows_ids [OF wf]])
  then have d: "distinct (map (rr_id \<circ> snd) rows)" unfolding rows_def by (rule permutes_distinct [OF E(2)])
  have pos: "\<forall>zr \<in> set rows. 0 < rr_id (snd zr)"
    using wf unfolding rset changed_rows_def db_wf_def recs_wf_def by (auto simp: join_rows_mem)
  have c2: "contents s2 a = {(k, x) \<in> contents s1 a. r_ID x \<notin> touched L a rows} \<union> fetched L a rows" "ids_ok s2" for a
    using applyRows_contents [OF assms(3) i1 nm d pos, of a] by (simp_all add: s2_def)
  have "contents s2 a = {(k, x) \<in> contents s a. \<not> (\<exists>z \<in> set (db_zones db). since < zr_updated z \<and> zr_deleted z \<noteq> None \<and> fqdn (zr_name z) = a) \<and>
          r_ID x \<notin> touched L a (changed_rows since db)} \<union> fetched L a (changed_rows since db)" for a
    unfolding c2(1) c1 same zset by auto
  then show ?thesis using load c2(2) by blast
qed

text \<open>
  C21: an incremental load applies exactly the changes. When both queries get through, and no record
  of the store changed its owner name or type, then afterwards every zone holds what it held before
  (nothing, if the zone itself was deleted since), without the records that were deleted or rewritten
  since, plus the new versions of the changed active records that the DNS library accepts; identifiers
  stay unique. The scan orders and the order of the range loop do not matter.
\<close>

theorem sync_exact:
  assumes "db_reachable arb db" and "sync_done E" and "range_ok ord" and "ids_ok s"
    and "not_moved L s (changed_rows since db)"
  shows "\<exists>s'. IncrementalLoad L (RWMutexStore_iface ord) E db db since s = (None, s') \<and> ids_ok s' \<and>
    (\<forall>a. contents s' a =
       {(k, x) \<in> contents s a. \<not> (\<exists>z \<in> set (db_zones db). since < zr_updated z \<and> zr_deleted z \<noteq> None \<and> fqdn (zr_name z) = a) \<and>
          r_ID x \<notin> touched L a (changed_rows since db)} \<union> fetched L a (changed_rows since db))"
  by (rule sync_contents [OF db_reachable_wf [OF assms(1)] assms(2-5)])

lemma demo_store_empty: "rrset (records_of (zones demo_store) a) k = []"
  by (simp add: demo_store_def New_def Update_def records_of_def)

definition demo_env :: sync_env where
  "demo_env = \<lparr>se_zfate = Done, se_zbrk = None, se_zscan = (\<lambda>x. x), se_rfate = Done, se_rbrk = None, se_rscan = rev\<rparr>"

theorem sync_exact_witness:
  "\<exists>s'. IncrementalLoad demo_lib (RWMutexStore_iface sorted_range) demo_env
      (snd (SoftDeleteZone Done 7 demo_db ''b.'')) (snd (SoftDeleteZone Done 7 demo_db ''b.'')) 6
      (snd (PutRecord demo_store ''b.'' demo_rec)) = (None, s') \<and>
    contents (snd (PutRecord demo_store ''b.'' demo_rec)) ''b.'' \<noteq> {} \<and> contents s' ''b.'' = {}"
proof -
  let ?db = "snd (SoftDeleteZone Done 7 demo_db ''b.'')" and ?s = "snd (PutRecord demo_store ''b.'' demo_rec)"
  have r: "db_reachable False ?db" by (intro db_reachable.delete_zone demo_db_reachable)
  have e: "sync_done demo_env" by (simp add: sync_done_def demo_env_def permutes_def)
  have c: "rrset (records_of (zones ?s) a) k = (if a = ''b.'' \<and> k = rkey ''w.b.'' 1 then [demo_rec] else [])" for a k
    by (simp add: PutRecord_rrset demo_store_empty demo_rec_def putSlice_def)
  then have i: "ids_ok ?s" by (auto simp: ids_ok_def unique_ids_def split: if_splits)
  have z: "db_zones ?db = [\<lparr>zr_id = 1, zr_name = ''b.'', zr_updated = 7, zr_deleted = Some 7\<rparr>]" "db_records ?db = []"
    by (simp_all add: SoftDeleteZone_def delete_zone_def active_zone_def schema_ok_simps demo_db_tables stamp_zone_def)
  then have ch: "changed_rows 6 ?db = []" by (simp add: changed_rows_def join_rows_def)
  then have nm: "not_moved demo_lib ?s (changed_rows 6 ?db)" by (simp add: not_moved_def)
  have "fqdn ''b.'' = ''b.''" by (simp add: fqdn_def HasSuffix_def)
  then have "contents s' ''b.'' = {}" if "\<forall>a. contents s' a =
       {(k, x) \<in> contents ?s a. \<not> (\<exists>z \<in> set (db_zones ?db). 6 < zr_updated z \<and> zr_deleted z \<noteq> None \<and> fqdn (zr_name z) = a) \<and>
          r_ID x \<notin> touched demo_lib a (changed_rows 6 ?db)} \<union> fetched demo_lib a (changed_rows 6 ?db)" for s'
    unfolding that [rule_format] by (simp add: z ch fetched_def)
  moreover have "(rkey ''w.b.'' 1, demo_rec) \<in> contents ?s ''b.''" by (simp add: contents_def c)
  ultimately show ?thesis using sync_exact [OF r e range_ok_sorted i nm] by blast
qed

end
