(* ===== verification/Loading.thy ===== *)
theory Loading
  imports PG_Load
begin

text \<open>
  The incremental load of \<^verbatim>\<open>internal/pg/sync.go\<close> in small steps. Rows are applied to the zone store one
  at a time, as they arrive, and between any two of them the goroutines of requests may write the store or the
  database. The state of a load under way is what it has still to apply; run without interruption, the
  steps are \<open>IncrementalLoad\<close>.
\<close>

section \<open>Steps of a load\<close>

text \<open>
  No load is under way, or one that began at the time \<open>q\<close> has the zone rows \<open>zs\<close> still to apply, or has made its
  second query and has the record rows \<open>rs\<close> still to apply. A query sees the database at its time and fixes
  the rows that arrive. A load can fail in any of these states; it has got through when no record row is left.
\<close>

datatype loading =
    Idle
  | Zones int "zone_row list"
  | Records int "(zone_row \<times> rec_row) list"

inductive load_step :: "mdns_lib \<Rightarrow> 's ZoneStore \<Rightarrow> DB \<Rightarrow> int \<Rightarrow> 's \<times> loading \<Rightarrow> 's \<times> loading \<Rightarrow> bool" for L S db since where
  zone_row: "load_step L S db since (s, Zones q (z # zs)) (applyZoneRow S z s, Zones q zs)"
| records: "permutes scan \<Longrightarrow> load_step L S db since (s, Zones q []) (s, Records q (queryIncrementalRecords scan since db))"
| record_row: "load_step L S db since (s, Records q (zr # rs)) (applyRecordRow L S zr s, Records q rs)"

inductive_cases load_stepE: "load_step L S db since x y"

section \<open>Without interruption\<close>

lemma zone_rows: "(load_step L S db since)\<^sup>*\<^sup>* (s, Zones q (zs @ zs')) (fold (applyZoneRow S) zs s, Zones q zs')"
  by (induction zs arbitrary: s) (auto intro: converse_rtranclp_into_rtranclp zone_row)

lemma record_rows: "(load_step L S db since)\<^sup>*\<^sup>* (s, Records q (rs @ rs')) (fold (applyRecordRow L S) rs s, Records q rs')"
  by (induction rs arbitrary: s) (auto intro: converse_rtranclp_into_rtranclp record_row)

text \<open>How far steps on one database can get from the first query on.\<close>

lemma load_steps_reach:
  assumes "(load_step L S db since)\<^sup>*\<^sup>* (s, Zones q zall) (s', ph)"
  shows "(\<exists>zs zs'. zall = zs @ zs' \<and> ph = Zones q zs' \<and> s' = fold (applyZoneRow S) zs s) \<or>
    (\<exists>scan rs rs'. permutes scan \<and> queryIncrementalRecords scan since db = rs @ rs' \<and> ph = Records q rs' \<and>
       s' = fold (applyRecordRow L S) rs (fold (applyZoneRow S) zall s))"
  using assms
proof (induction "(s', ph)" arbitrary: s' ph rule: rtranclp_induct)
  case base
  then show ?case by (intro disjI1 exI [of _ "[]"] exI [of _ zall]) simp
next
  case (step y)
  obtain s1 ph1 where y: "y = (s1, ph1)" by fastforce
  from step(2) [unfolded y] step(3) [OF y] show ?case
  proof cases
    case (zone_row q' z zs)
    with step(3) [OF y] obtain zs0 where "zall = zs0 @ z # zs" "q' = q" "s1 = fold (applyZoneRow S) zs0 s" by auto
    then show ?thesis using zone_row by (intro disjI1 exI [of _ "zs0 @ [z]"] exI [of _ zs]) simp
  next
    case (records scan q')
    with step(3) [OF y] have "q' = q" "s1 = fold (applyZoneRow S) zall s" by auto
    then show ?thesis using records by (intro disjI2 exI [of _ scan] exI [of _ "[]"] exI [of _ "queryIncrementalRecords scan since db"]) simp
  next
    case (record_row q' zr rs)
    with step(3) [OF y] obtain scan rs0 where "permutes scan" "queryIncrementalRecords scan since db = rs0 @ zr # rs" "q' = q"
      "s1 = fold (applyRecordRow L S) rs0 (fold (applyZoneRow S) zall s)" by auto
    then show ?thesis using record_row by (intro disjI2 exI [of _ scan] exI [of _ "rs0 @ [zr]"] exI [of _ rs]) simp
  qed
qed

text \<open>A load that breaks off, as the environment of \<open>IncrementalLoad\<close> describes it.\<close>

definition load_env :: "(zone_row list \<Rightarrow> zone_row list) \<Rightarrow> nat option \<Rightarrow> ((zone_row \<times> rec_row) list \<Rightarrow> (zone_row \<times> rec_row) list) \<Rightarrow>
    nat option \<Rightarrow> sync_env" where
  "load_env zscan zbrk rscan rbrk =
     \<lparr>se_zfate = Done, se_zbrk = zbrk, se_zscan = zscan, se_rfate = Done, se_rbrk = rbrk, se_rscan = rscan\<rparr>"

lemma load_env_scans [simp]: "se_zscan (load_env zscan zbrk rscan rbrk) = zscan" "se_rscan (load_env zscan zbrk rscan rbrk) = rscan"
  by (simp_all add: load_env_def)

lemma load_env_load:
  assumes "''zones'' \<in> set (db_tables db)" and "''records'' \<in> set (db_tables db)"
  shows "queryIncrementalZones zscan since db = zs @ zs' \<Longrightarrow>
      IncrementalLoad L S (load_env zscan (Some (length zs)) rscan rbrk) db db since s = (Some (PgError ConnError), fold (applyZoneRow S) zs s)"
    and "queryIncrementalRecords rscan since db = rs @ rs' \<Longrightarrow>
      IncrementalLoad L S (load_env zscan None rscan (if rs' = [] then None else Some (length rs))) db db since s =
        (if rs' = [] then None else Some (PgError ConnError),
         fold (applyRecordRow L S) rs (fold (applyZoneRow S) (queryIncrementalZones zscan since db) s))"
  using assms by (simp_all add: IncrementalLoad_def load_env_def Let_def delivered_def)

lemma IncrementalLoad_done:
  "IncrementalLoad L S E db db since s = (None, s') \<Longrightarrow>
     s' = fold (applyRecordRow L S) (queryIncrementalRecords (se_rscan E) since db) (fold (applyZoneRow S) (queryIncrementalZones (se_zscan E) since db) s)"
  by (auto simp: IncrementalLoad_def Let_def delivered_def split: if_splits)

lemma IncrementalLoad_prefix:
  assumes "IncrementalLoad L S E db db since s = (e, s')"
  obtains n where "s' = fold (applyZoneRow S) (take n (queryIncrementalZones (se_zscan E) since db)) s"
  | n where "s' = fold (applyRecordRow L S) (take n (queryIncrementalRecords (se_rscan E) since db))
      (fold (applyZoneRow S) (queryIncrementalZones (se_zscan E) since db) s)"
proof -
  have d: "\<exists>n. delivered brk xs = take n xs" for brk and xs :: "'b list"
    by (cases brk) (auto simp: delivered_def intro: exI [of _ "length xs"])
  from assms consider "s' = s" | "s' = fold (applyZoneRow S) (delivered (se_zbrk E) (queryIncrementalZones (se_zscan E) since db)) s"
    | "s' = fold (applyRecordRow L S) (delivered (se_rbrk E) (queryIncrementalRecords (se_rscan E) since db))
        (fold (applyZoneRow S) (queryIncrementalZones (se_zscan E) since db) s)"
    by (auto simp: IncrementalLoad_def Let_def delivered_def [of "se_zbrk E"] split: if_splits)
  then show ?thesis
    by cases (use that(1) [of 0] that d in \<open>auto, metis+\<close>)
qed

text \<open>The steps up to any row of a load.\<close>

lemma steps_to_zone:
  "(load_step L S db since)\<^sup>*\<^sup>* (s, Zones q zs) (fold (applyZoneRow S) (take n zs) s, Zones q (drop n zs))"
  using zone_rows [of L S db since s q "take n zs" "drop n zs"] by simp

lemma steps_to_record:
  assumes "permutes scan" and rs: "rs = queryIncrementalRecords scan since db"
  shows "(load_step L S db since)\<^sup>*\<^sup>* (s, Zones q zs) (fold (applyRecordRow L S) (take n rs) (fold (applyZoneRow S) zs s), Records q (drop n rs))"
proof -
  let ?s1 = "fold (applyZoneRow S) zs s"
  have "(load_step L S db since)\<^sup>*\<^sup>* (s, Zones q zs) (?s1, Zones q [])" using zone_rows [of L S db since s q zs "[]"] by simp
  also have "load_step L S db since (?s1, Zones q []) (?s1, Records q rs)" unfolding rs by (rule load_step.records [OF assms(1)])
  also have "(load_step L S db since)\<^sup>*\<^sup>* (?s1, Records q rs) (fold (applyRecordRow L S) (take n rs) ?s1, Records q (drop n rs))"
    using record_rows [of L S db since ?s1 q "take n rs" "drop n rs"] by simp
  finally show ?thesis .
qed

lemma load_steps_IncrementalLoad:
  assumes "''zones'' \<in> set (db_tables db)" and "''records'' \<in> set (db_tables db)"
  shows "(\<exists>scan ph. permutes scan \<and> (load_step L S db since)\<^sup>*\<^sup>* (s, Zones q (queryIncrementalZones scan since db)) (s', ph) \<and>
      (c \<longrightarrow> ph = Records q [])) \<longleftrightarrow>
    (\<exists>E e. permutes (se_zscan E) \<and> permutes (se_rscan E) \<and> IncrementalLoad L S E db db since s = (e, s') \<and> (c \<longrightarrow> e = None))"
proof (intro iffI; elim exE conjE)
  fix scan ph assume p: "permutes scan" and c: "c \<longrightarrow> ph = Records q []"
    and r: "(load_step L S db since)\<^sup>*\<^sup>* (s, Zones q (queryIncrementalZones scan since db)) (s', ph)"
  from load_steps_reach [OF r] consider
    (zones) zs zs' where "queryIncrementalZones scan since db = zs @ zs'" "ph = Zones q zs'" "s' = fold (applyZoneRow S) zs s"
  | (recs) rscan rs rs' where "permutes rscan" "queryIncrementalRecords rscan since db = rs @ rs'" "ph = Records q rs'"
      "s' = fold (applyRecordRow L S) rs (fold (applyZoneRow S) (queryIncrementalZones scan since db) s)" by auto
  then show "\<exists>E e. permutes (se_zscan E) \<and> permutes (se_rscan E) \<and> IncrementalLoad L S E db db since s = (e, s') \<and> (c \<longrightarrow> e = None)"
  proof cases
    case zones
    then show ?thesis
      using p c load_env_load(1) [OF assms zones(1), of L S "\<lambda>x. x" None s]
      by (intro exI [of _ "load_env scan (Some (length zs)) (\<lambda>x. x) None"] exI [of _ "Some (PgError ConnError)"]) (simp add: permutes_def)
  next
    case recs
    then show ?thesis
      using p c load_env_load(2) [OF assms recs(2), of L S scan s]
      by (intro exI [of _ "load_env scan None rscan (if rs' = [] then None else Some (length rs))"] exI [of _ "if rs' = [] then None else Some (PgError ConnError)"]) simp
  qed
next
  fix E e assume E: "permutes (se_zscan E)" "permutes (se_rscan E)" and l: "IncrementalLoad L S E db db since s = (e, s')" and c: "c \<longrightarrow> e = None"
  let ?zs = "queryIncrementalZones (se_zscan E) since db" and ?rs = "queryIncrementalRecords (se_rscan E) since db"
  note z = steps_to_zone [of L S db since s q ?zs] and r = steps_to_record [OF E(2) refl, where L = L and S = S and s = s and q = q and zs = ?zs and since = since and db = db]
  show "\<exists>scan ph. permutes scan \<and> (load_step L S db since)\<^sup>*\<^sup>* (s, Zones q (queryIncrementalZones scan since db)) (s', ph) \<and> (c \<longrightarrow> ph = Records q [])"
  proof (cases c)
    case True
    then have "s' = fold (applyRecordRow L S) (take (length ?rs) ?rs) (fold (applyZoneRow S) ?zs s)" using c l IncrementalLoad_done [of L S E db since s s'] by simp
    then show ?thesis using r [of "length ?rs"] E(1) by auto
  next
    case False
    from l show ?thesis by (cases rule: IncrementalLoad_prefix) (use False z r E(1) in auto)
  qed
qed

text \<open>
  C18: the steps of a load are the load. Run on one database without interruption, the small steps can be left,
  at any point, with exactly the stores that \<open>IncrementalLoad\<close> can return over the orders and the fates of its
  rows; and they get through (\<open>c\<close>) with exactly those that it can return without an error.
\<close>

theorem load_steps_complete:
  assumes "''zones'' \<in> set (db_tables db)" and "''records'' \<in> set (db_tables db)"
  shows "(\<exists>scan ph. permutes scan \<and> (load_step L S db since)\<^sup>*\<^sup>* (s, Zones q (queryIncrementalZones scan since db)) (s', ph) \<and>
      (c \<longrightarrow> ph = Records q [])) \<longleftrightarrow>
    (\<exists>E e. permutes (se_zscan E) \<and> permutes (se_rscan E) \<and> IncrementalLoad L S E db db since s = (e, s') \<and> (c \<longrightarrow> e = None))"
  by (rule load_steps_IncrementalLoad [OF assms])

theorem load_steps_complete_witness:
  "\<exists>scan ph. permutes scan \<and> (load_step demo_lib (RWMutexStore_iface sorted_range) (snd (SoftDeleteZone Done 7 demo_db ''b.'')) 6)\<^sup>*\<^sup>*
      (snd (PutRecord demo_store ''b.'' demo_rec), Zones 9 (queryIncrementalZones scan 6 (snd (SoftDeleteZone Done 7 demo_db ''b.''))))
      (snd (Delete (snd (PutRecord demo_store ''b.'' demo_rec)) ''b.''), ph) \<and> (True \<longrightarrow> ph = Records 9 [])"
proof -
  let ?db = "snd (SoftDeleteZone Done 7 demo_db ''b.'')" and ?s = "snd (PutRecord demo_store ''b.'' demo_rec)"
  have z: "db_zones ?db = [\<lparr>zr_id = 1, zr_name = ''b.'', zr_updated = 7, zr_deleted = Some 7\<rparr>]" "db_records ?db = []"
    "''zones'' \<in> set (db_tables ?db)" "''records'' \<in> set (db_tables ?db)"
    by (simp_all add: SoftDeleteZone_def delete_zone_def active_zone_def schema_ok_simps demo_db_tables stamp_zone_def)
  have "fqdn ''b.'' = ''b.''" by (simp add: fqdn_def HasSuffix_def)
  then have "IncrementalLoad demo_lib (RWMutexStore_iface sorted_range) demo_env ?db ?db 6 ?s = (None, snd (Delete ?s ''b.''))"
    using z by (simp add: IncrementalLoad_def demo_env_def Let_def delivered_def queryIncrementalZones_def queryIncrementalRecords_def
        join_rows_def applyZoneRow_def)
  moreover have "permutes (se_zscan demo_env)" "permutes (se_rscan demo_env)" by (simp_all add: demo_env_def permutes_def)
  ultimately have "\<exists>E e. permutes (se_zscan E) \<and> permutes (se_rscan E) \<and>
      IncrementalLoad demo_lib (RWMutexStore_iface sorted_range) E ?db ?db 6 ?s = (e, snd (Delete ?s ''b.'')) \<and> (True \<longrightarrow> e = None)" by blast
  then show ?thesis by (rule load_steps_complete [OF z(3,4), THEN iffD2])
qed

end
