(* ===== verification/Syncer.thy ===== *)
theory Syncer
  imports PG_Load Config
begin

text \<open>
  \<^verbatim>\<open>internal/syncer/syncer.go\<close>: the token bucket and the sync loop. Times are nanoseconds as integers.
  A float64 is the rational number it stands for and every floating-point operation is the exact
  operation followed by rounding, \<open>fl\<close>; \<open>ieee_ok\<close> states what is used of IEEE rounding to nearest:
  it is monotone, exact on the integers up to \<open>2^53\<close>, and has a relative error of at most \<open>2^-53\<close> away
  from underflow. The incremental load is an argument of each run of \<open>doSync\<close>, since it reads the
  database as it is then.
\<close>

text \<open>All values up to this one, and its inverse, are in the range of normal numbers.\<close>

definition normal_max :: rat where
  "normal_max = 2 ^ 1000"

definition ieee_ok :: "(rat \<Rightarrow> rat) \<Rightarrow> bool" where
  "ieee_ok fl \<longleftrightarrow>
     (\<forall>x y. \<bar>x\<bar> \<le> normal_max \<and> \<bar>y\<bar> \<le> normal_max \<and> x \<le> y \<longrightarrow> fl x \<le> fl y) \<and>
     (\<forall>n. \<bar>n\<bar> \<le> 2 ^ 53 \<longrightarrow> fl (of_int n) = of_int n) \<and>
     (\<forall>x. 1 / normal_max \<le> \<bar>x\<bar> \<and> \<bar>x\<bar> \<le> normal_max \<longrightarrow> \<bar>fl x - x\<bar> \<le> \<bar>x\<bar> / 2 ^ 53)"

section \<open>The token bucket\<close>

record tokenBucket =
  tb_tokens :: rat
  tb_capacity :: rat
  tb_rate :: rat
  tb_last :: int

definition newTokenBucket :: "(rat \<Rightarrow> rat) \<Rightarrow> int \<Rightarrow> int \<Rightarrow> tokenBucket" where
  "newTokenBucket fl now capacity =
     \<lparr>tb_tokens = fl (of_int capacity), tb_capacity = fl (of_int capacity),
      tb_rate = fl (fl (of_int capacity) / fl (of_int Second)), tb_last = now\<rparr>"

definition allow :: "(rat \<Rightarrow> rat) \<Rightarrow> int \<Rightarrow> tokenBucket \<Rightarrow> bool \<times> tokenBucket" where
  "allow fl now b =
     (let elapsed = fl (of_int (now - tb_last b));
          t1 = fl (tb_tokens b + fl (elapsed * tb_rate b));
          t2 = (if t1 > tb_capacity b then tb_capacity b else t1)
      in if t2 \<ge> 1 then (True, b\<lparr>tb_last := now, tb_tokens := fl (t2 - 1)\<rparr>)
         else (False, b\<lparr>tb_last := now, tb_tokens := t2\<rparr>))"

section \<open>The sync loop\<close>

text \<open>The counters are those of the metrics package that the loop increments.\<close>

record PGSyncer =
  ps_interval :: int
  ps_lastAt :: int
  ps_bucket :: tokenBucket
  ps_trigger :: nat
  ps_success :: nat
  ps_error :: nat

definition NewSyncer :: "(rat \<Rightarrow> rat) \<Rightarrow> int \<Rightarrow> int \<Rightarrow> SyncConfig \<Rightarrow> PGSyncer" where
  "NewSyncer fl now since cfg =
     (let capacity = (if sc_RateLimit cfg \<le> 0 then 1 else sc_RateLimit cfg) in
      \<lparr>ps_interval = sc_Interval cfg, ps_lastAt = since, ps_bucket = newTokenBucket fl now capacity,
       ps_trigger = 0, ps_success = 0, ps_error = 0\<rparr>)"

text \<open>A send on the channel of capacity one that does not block.\<close>

definition TriggerSync :: "PGSyncer \<Rightarrow> PGSyncer" where
  "TriggerSync y = (if ps_trigger y < 1 then y\<lparr>ps_trigger := ps_trigger y + 1\<rparr> else y)"

type_synonym 's loader = "int \<Rightarrow> 's \<Rightarrow> pg_error option \<times> 's"

text \<open>
  \<^verbatim>\<open>doSync\<close>, in two parts: asking the rate limiter, and what is noted when the load is over. In between the
  load runs, and queries may send triggers.
\<close>

definition doSync_begin :: "(rat \<Rightarrow> rat) \<Rightarrow> int \<Rightarrow> PGSyncer \<Rightarrow> bool \<times> PGSyncer" where
  "doSync_begin fl now y = (let (ok, b) = allow fl now (ps_bucket y) in (ok, y\<lparr>ps_bucket := b\<rparr>))"

definition doSync_end :: "int \<Rightarrow> pg_error option \<Rightarrow> PGSyncer \<Rightarrow> PGSyncer" where
  "doSync_end queryStart e y =
     (case e of
        Some e \<Rightarrow> y\<lparr>ps_error := ps_error y + 1\<rparr>
      | None \<Rightarrow> y\<lparr>ps_success := ps_success y + 1, ps_lastAt := queryStart\<rparr>)"

definition doSync :: "(rat \<Rightarrow> rat) \<Rightarrow> int \<Rightarrow> int \<Rightarrow> 's loader \<Rightarrow> PGSyncer \<times> 's \<Rightarrow> PGSyncer \<times> 's" where
  "doSync fl now queryStart load ys =
     (let (y, s) = ys; (ok, y1) = doSync_begin fl now y in
      if \<not> ok then (y1, s)
      else
        (let since = ps_lastAt y1; (e, s') = load since s in (doSync_end queryStart e y1, s')))"

lemmas doSync_defs = doSync_def doSync_begin_def doSync_end_def

text \<open>What a round of the loop receives from: the ticker, or the trigger channel if something is in it.\<close>

definition received :: "bool \<Rightarrow> PGSyncer \<Rightarrow> PGSyncer option" where
  "received triggered y = (if \<not> triggered then Some y
     else if ps_trigger y = 0 then None else Some (y\<lparr>ps_trigger := ps_trigger y - 1\<rparr>))"

text \<open>One round of the \<open>select\<close> in \<open>Start\<close>, or a call of \<open>TriggerSync\<close> from a query.\<close>

datatype 's sync_event =
    Tick int int "'s loader"
  | Triggered int int "'s loader"
  | Trigger

fun sync_event_step :: "(rat \<Rightarrow> rat) \<Rightarrow> 's sync_event \<Rightarrow> PGSyncer \<times> 's \<Rightarrow> (PGSyncer \<times> 's) option" where
  "sync_event_step fl (Tick now queryStart load) ys = Some (doSync fl now queryStart load ys)"
| "sync_event_step fl (Triggered now queryStart load) (y, s) =
     map_option (\<lambda>y'. doSync fl now queryStart load (y', s)) (received True y)"
| "sync_event_step fl Trigger (y, s) = Some (TriggerSync y, s)"

fun sync_run :: "(rat \<Rightarrow> rat) \<Rightarrow> 's sync_event list \<Rightarrow> PGSyncer \<times> 's \<Rightarrow> (PGSyncer \<times> 's) option" where
  "sync_run fl [] ys = Some ys"
| "sync_run fl (e # es) ys = Option.bind (sync_event_step fl e ys) (sync_run fl es)"

section \<open>The loader's contract\<close>

fun_cases triggeredE: "sync_event_step fl (Triggered now queryStart load) ys = Some ys'"

text \<open>
  What the loop relies on in an \<^verbatim>\<open>IncrementalLoader\<close>, for the loaders that may be at work (one for each
  state of the database and each fate of the queries): \<open>upto t s\<close> says that the store \<open>s\<close> lacks at most
  what was written after the time \<open>t\<close>. A load that gets through fetches that, so that any later time will
  do for the next one; a load that fails, possibly half way, loses nothing.
\<close>

fun event_loaders :: "'s sync_event \<Rightarrow> 's loader set" where
  "event_loaders (Tick now queryStart load) = {load}"
| "event_loaders (Triggered now queryStart load) = {load}"
| "event_loaders Trigger = {}"

locale incremental_loader =
  fixes loads :: "'s loader set" and upto :: "int \<Rightarrow> 's \<Rightarrow> bool"
  assumes load_done: "load \<in> loads \<Longrightarrow> upto t s \<Longrightarrow> load t s = (None, s') \<Longrightarrow> upto t' s'"
    and load_failed: "load \<in> loads \<Longrightarrow> upto t s \<Longrightarrow> load t s = (Some e, s') \<Longrightarrow> upto t s'"
begin

lemma doSync_upto:
  assumes "load \<in> loads" and "upto (ps_lastAt (fst ys)) (snd ys)"
  shows "upto (ps_lastAt (fst (doSync fl now queryStart load ys))) (snd (doSync fl now queryStart load ys))"
proof -
  obtain e s' where l: "load (ps_lastAt (fst ys)) (snd ys) = (e, s')" by fastforce
  show ?thesis
    using load_done [OF assms, of s' queryStart] load_failed [OF assms] assms(2) l
    by (cases e) (auto simp: doSync_defs Let_def split: prod.split)
qed

lemma event_upto:
  assumes "sync_event_step fl ev ys = Some ys'" and "event_loaders ev \<subseteq> loads" and "upto (ps_lastAt (fst ys)) (snd ys)"
  shows "upto (ps_lastAt (fst ys')) (snd ys')"
proof (cases ev)
  case (Tick now queryStart load)
  then show ?thesis using assms doSync_upto [of load ys fl now queryStart] by simp
next
  case (Triggered now queryStart load)
  with assms(1) have "sync_event_step fl (Triggered now queryStart load) ys = Some ys'" by simp
  then show ?thesis
    by (rule triggeredE) (use assms(2,3) Triggered doSync_upto in \<open>fastforce simp: received_def split: if_splits\<close>)
next
  case Trigger
  then show ?thesis using assms by (cases ys) (auto simp: TriggerSync_def)
qed

text \<open>So no run of the loop loses a change, whatever loads fail in it.\<close>

lemma run_upto:
  "sync_run fl evs ys = Some ys' \<Longrightarrow> (\<And>ev. ev \<in> set evs \<Longrightarrow> event_loaders ev \<subseteq> loads) \<Longrightarrow> upto (ps_lastAt (fst ys)) (snd ys) \<Longrightarrow>
     upto (ps_lastAt (fst ys')) (snd ys')"
proof (induction evs arbitrary: ys)
  case (Cons ev evs)
  then obtain ys1 where s: "sync_event_step fl ev ys = Some ys1" "sync_run fl evs ys1 = Some ys'" by (auto split: bind_splits)
  show ?case
    by (rule Cons.IH [OF s(2)]) (use Cons.prems event_upto [OF s(1)] in auto)
qed simp

end

section \<open>Bounds of the bucket\<close>

lemma normal_max_ge: "n \<le> 1000 \<Longrightarrow> 2 ^ n \<le> normal_max"
  unfolding normal_max_def by (rule power_increasing) simp_all

lemma normal_max_pos [simp]: "1 \<le> normal_max" "0 < normal_max" "0 \<le> normal_max" "1 / normal_max \<le> 1"
proof -
  show one: "1 \<le> normal_max" using normal_max_ge [of 0] by simp
  then show "0 < normal_max" by linarith
  then show "0 \<le> normal_max" by simp
  show "1 / normal_max \<le> 1" using one \<open>0 < normal_max\<close> by (simp add: divide_le_eq_1)
qed

definition bucket_wf :: "tokenBucket \<Rightarrow> bool" where
  "bucket_wf b \<longleftrightarrow> 0 \<le> tb_tokens b \<and> tb_tokens b \<le> tb_capacity b \<and> 0 \<le> tb_rate b \<and> tb_rate b \<le> 2 ^ 60 \<and>
     (\<exists>n. 1 \<le> n \<and> n \<le> 2 ^ 53 \<and> tb_capacity b = of_int n)"

lemma ieee_mono: "ieee_ok fl \<Longrightarrow> \<bar>x\<bar> \<le> normal_max \<Longrightarrow> \<bar>y\<bar> \<le> normal_max \<Longrightarrow> x \<le> y \<Longrightarrow> fl x \<le> fl y"
  by (simp add: ieee_ok_def)

lemma ieee_int: "ieee_ok fl \<Longrightarrow> \<bar>n\<bar> \<le> 2 ^ 53 \<Longrightarrow> fl (of_int n) = of_int n"
  by (simp add: ieee_ok_def)

lemma ieee_0 [simp]: "ieee_ok fl \<Longrightarrow> fl 0 = 0"
  using ieee_int [of fl 0] by simp

lemma ieee_nonneg: "ieee_ok fl \<Longrightarrow> 0 \<le> x \<Longrightarrow> x \<le> normal_max \<Longrightarrow> 0 \<le> fl x"
  using ieee_mono [of fl 0 x] by simp

lemma ieee_err: "ieee_ok fl \<Longrightarrow> 1 / normal_max \<le> \<bar>x\<bar> \<Longrightarrow> \<bar>x\<bar> \<le> normal_max \<Longrightarrow> \<bar>fl x - x\<bar> \<le> \<bar>x\<bar> / 2 ^ 53"
  unfolding ieee_ok_def by blast

lemma ieee_upper:
  assumes "ieee_ok fl" and "0 \<le> x" and "x \<le> normal_max" shows "fl x \<le> 2 * x + 1"
proof (cases "1 / normal_max \<le> x")
  case True
  then have "\<bar>fl x - x\<bar> \<le> \<bar>x\<bar> / 2 ^ 53" using assms by (intro ieee_err [OF assms(1)]) auto
  moreover have "\<bar>x\<bar> / 2 ^ 53 \<le> x" using assms(2) by (simp add: field_simps)
  ultimately have "fl x \<le> 2 * x" using assms(2) by linarith
  then show ?thesis by simp
next
  case False
  then have "x \<le> 1" using normal_max_pos(4) by linarith
  then have "fl x \<le> fl 1" using assms by (intro ieee_mono [OF assms(1)]) (auto simp: abs_le_iff)
  then show ?thesis using ieee_int [OF assms(1), of 1] assms(2) by simp
qed

lemma refill_bounds:
  assumes "ieee_ok fl" and "bucket_wf b" and "tb_last b \<le> now" and "now \<le> tb_last b + 2 ^ 62"
  defines "e \<equiv> fl (of_int (now - tb_last b))"
  shows "0 \<le> e * tb_rate b" and "e * tb_rate b \<le> 2 ^ 124" and "0 \<le> fl (e * tb_rate b)"
    and "fl (e * tb_rate b) \<le> 2 ^ 126"
proof -
  have r: "0 \<le> tb_rate b" "tb_rate b \<le> 2 ^ 60" using assms(2) by (auto simp: bucket_wf_def)
  have big: "(2::rat) ^ 130 \<le> normal_max" by (rule normal_max_ge) simp
  define d :: rat where "d = of_int (now - tb_last b)"
  have "(of_int (now - tb_last b) :: rat) \<le> of_int (2 ^ 62)" using assms(4) unfolding of_int_le_iff by simp
  then have d: "0 \<le> d" "d \<le> 2 ^ 62" using assms(3) by (simp_all add: d_def)
  have e: "0 \<le> e" "e \<le> 2 ^ 64"
    using ieee_nonneg [OF assms(1) d(1)] ieee_upper [OF assms(1) d(1)] d big unfolding e_def d_def by simp_all
  show p: "0 \<le> e * tb_rate b" "e * tb_rate b \<le> 2 ^ 124" using mult_mono [OF e(2) r(2)] e(1) r(1) by simp_all
  show "0 \<le> fl (e * tb_rate b)" "fl (e * tb_rate b) \<le> 2 ^ 126"
    using ieee_nonneg [OF assms(1) p(1)] ieee_upper [OF assms(1) p(1)] p big by simp_all
qed

lemma allow_wf:
  assumes "ieee_ok fl" and "bucket_wf b" and "tb_last b \<le> now" and "now \<le> tb_last b + 2 ^ 62"
  shows "bucket_wf (snd (allow fl now b))" and "tb_capacity (snd (allow fl now b)) = tb_capacity b"
    and "tb_last (snd (allow fl now b)) = now" and "tb_rate (snd (allow fl now b)) = tb_rate b"
proof -
  obtain n where n: "1 \<le> n" "n \<le> 2 ^ 53" "tb_capacity b = of_int n" and r: "0 \<le> tb_rate b" "tb_rate b \<le> 2 ^ 60"
    and t: "0 \<le> tb_tokens b" "tb_tokens b \<le> tb_capacity b"
    using assms(2) by (auto simp: bucket_wf_def)
  have cap: "tb_capacity b \<le> 2 ^ 53" using n(2) unfolding n(3) by (metis of_int_le_iff of_int_numeral of_int_power)
  have big: "(2::rat) ^ 130 \<le> normal_max" by (rule normal_max_ge) simp
  define q where "q = fl (fl (of_int (now - tb_last b)) * tb_rate b)"
  have q: "0 \<le> q" "q \<le> 2 ^ 126" unfolding q_def by (rule refill_bounds [OF assms])+
  define t1 where "t1 = fl (tb_tokens b + q)"
  have t1: "0 \<le> t1"
    using ieee_nonneg [OF assms(1), of "tb_tokens b + q"] t q cap big unfolding t1_def by simp
  define t2 where "t2 = (if t1 > tb_capacity b then tb_capacity b else t1)"
  have t2: "0 \<le> t2" "t2 \<le> tb_capacity b" using t1 t unfolding t2_def by simp_all
  have dec: "0 \<le> fl (t2 - 1)" "fl (t2 - 1) \<le> tb_capacity b" if "1 \<le> t2"
  proof -
    show "0 \<le> fl (t2 - 1)" using ieee_nonneg [OF assms(1), of "t2 - 1"] that t2 cap big by simp
    have "fl (t2 - 1) \<le> fl (of_int (n - 1))"
      using that t2 cap big n unfolding n(3) by (intro ieee_mono [OF assms(1)]) (simp_all add: abs_le_iff)
    also have "\<dots> = of_int (n - 1)" using n by (intro ieee_int [OF assms(1)]) simp
    finally show "fl (t2 - 1) \<le> tb_capacity b" unfolding n(3) by simp
  qed
  have a: "allow fl now b = (if t2 \<ge> 1 then (True, b\<lparr>tb_last := now, tb_tokens := fl (t2 - 1)\<rparr>)
      else (False, b\<lparr>tb_last := now, tb_tokens := t2\<rparr>))"
    by (simp add: allow_def Let_def t2_def t1_def q_def)
  show "bucket_wf (snd (allow fl now b))"
    using dec t2 r n unfolding a bucket_wf_def by (cases "t2 \<ge> 1") auto
  show "tb_capacity (snd (allow fl now b)) = tb_capacity b" "tb_last (snd (allow fl now b)) = now"
    "tb_rate (snd (allow fl now b)) = tb_rate b"
    by (simp_all add: a)
qed

text \<open>A sequence of calls, with the answers given.\<close>

fun allows :: "(rat \<Rightarrow> rat) \<Rightarrow> int list \<Rightarrow> tokenBucket \<Rightarrow> bool list \<times> tokenBucket" where
  "allows fl [] b = ([], b)"
| "allows fl (now # ts) b =
     (let (ok, b1) = allow fl now b; (oks, b2) = allows fl ts b1 in (ok # oks, b2))"

fun clock_ok :: "int \<Rightarrow> int list \<Rightarrow> bool" where
  "clock_ok t0 [] \<longleftrightarrow> True"
| "clock_ok t0 (now # ts) \<longleftrightarrow> t0 \<le> now \<and> now \<le> t0 + 2 ^ 62 \<and> clock_ok now ts"

lemma allows_wf:
  "ieee_ok fl \<Longrightarrow> bucket_wf b \<Longrightarrow> clock_ok (tb_last b) ts \<Longrightarrow>
     bucket_wf (snd (allows fl ts b)) \<and> tb_capacity (snd (allows fl ts b)) = tb_capacity b \<and>
     tb_rate (snd (allows fl ts b)) = tb_rate b \<and> tb_last (snd (allows fl ts b)) = last (tb_last b # ts)"
proof (induction ts arbitrary: b)
  case (Cons now ts)
  let ?b = "snd (allow fl now b)"
  have "bucket_wf ?b" "tb_capacity ?b = tb_capacity b" "tb_last ?b = now" "tb_rate ?b = tb_rate b"
    using allow_wf [of fl b now] Cons.prems by simp_all
  then have "bucket_wf (snd (allows fl ts ?b)) \<and> tb_capacity (snd (allows fl ts ?b)) = tb_capacity b \<and>
     tb_rate (snd (allows fl ts ?b)) = tb_rate b \<and> tb_last (snd (allows fl ts ?b)) = last (now # ts)"
    using Cons.IH [of ?b] Cons.prems by simp
  then show ?case by (simp add: Let_def case_prod_beta)
qed simp

lemma new_bucket:
  assumes "ieee_ok fl" and "1 \<le> c" and "c \<le> 2 ^ 53"
  shows "tb_tokens (newTokenBucket fl now c) = of_int c" and "tb_capacity (newTokenBucket fl now c) = of_int c"
    and "tb_rate (newTokenBucket fl now c) = fl (of_int c / of_int Second)" and "tb_last (newTokenBucket fl now c) = now"
    and "bucket_wf (newTokenBucket fl now c)"
proof -
  have c: "fl (of_int c) = of_int c" "fl (of_int Second) = of_int Second"
    using assms by (intro ieee_int [OF assms(1)]; simp add: Second_def)+
  show "tb_tokens (newTokenBucket fl now c) = of_int c" "tb_capacity (newTokenBucket fl now c) = of_int c"
    "tb_rate (newTokenBucket fl now c) = fl (of_int c / of_int Second)" "tb_last (newTokenBucket fl now c) = now"
    by (simp_all add: newTokenBucket_def c)
  have "(of_int c :: rat) \<le> of_int (2 ^ 53)" unfolding of_int_le_iff using assms(3) .
  then have x: "0 \<le> (of_int c / of_int Second :: rat)" "(of_int c / of_int Second :: rat) \<le> 2 ^ 53"
    using assms(2) by (simp_all add: Second_def divide_le_eq)
  have big: "(2::rat) ^ 53 \<le> normal_max" by (rule normal_max_ge) simp
  have "0 \<le> fl (of_int c / of_int Second)" "fl (of_int c / of_int Second) \<le> 2 ^ 60"
    using ieee_nonneg [OF assms(1) x(1)] ieee_upper [OF assms(1) x(1)] x big by simp_all
  then show "bucket_wf (newTokenBucket fl now c)"
    using assms by (auto simp: bucket_wf_def newTokenBucket_def c intro!: exI [of _ c])
qed

section \<open>Properties of the bucket\<close>

text \<open>
  The bucket never overfills and never goes below zero: from a new bucket of capacity \<open>c\<close>, through
  any sequence of calls on a clock that does not run backwards, the tokens stay between 0 and \<open>c\<close>, in
  spite of the rounding of every operation.
\<close>

lemma bucket_bounds:
  assumes "ieee_ok fl" and "1 \<le> c" and "c \<le> 2 ^ 53" and "clock_ok now ts"
  shows "0 \<le> tb_tokens (snd (allows fl ts (newTokenBucket fl now c))) \<and>
    tb_tokens (snd (allows fl ts (newTokenBucket fl now c))) \<le> of_int c"
  using allows_wf [OF assms(1) new_bucket(5) [OF assms(1-3)], of now ts] assms(4)
    new_bucket(2,4) [OF assms(1-3), of now] by (simp add: bucket_wf_def)

lemma ieee_ok_exact: "ieee_ok (\<lambda>x. x)"
  by (simp add: ieee_ok_def)

lemma allow_same_time:
  assumes "ieee_ok fl" and "bucket_wf b" and "tb_tokens b = of_int m"
  shows "allow fl (tb_last b) b = (if 1 \<le> m then (True, b\<lparr>tb_tokens := of_int (m - 1)\<rparr>) else (False, b))"
proof -
  obtain n where n: "n \<le> 2 ^ 53" "tb_capacity b = of_int n" "0 \<le> m" "m \<le> n"
    using assms(2,3) by (auto simp: bucket_wf_def)
  have f: "fl 0 = 0" "fl (of_int m) = of_int m" using assms(1) ieee_int [OF assms(1), of m] n by simp_all
  have "fl (of_int m - 1) = of_int m - 1" if "1 \<le> m" using ieee_int [OF assms(1), of "m - 1"] that n by simp
  then show ?thesis using n assms(3) by (simp add: allow_def Let_def f)
qed

lemma allows_same_time:
  assumes "ieee_ok fl" and "bucket_wf b" and "tb_tokens b = of_int (int m)"
  shows "fst (allows fl (replicate k (tb_last b)) b) = replicate (min k m) True @ replicate (k - m) False"
  using assms(2,3)
proof (induction k arbitrary: b m)
  case (Suc k)
  let ?b = "b\<lparr>tb_tokens := of_int (int m - 1)\<rparr>"
  note step = allow_same_time [OF assms(1) Suc.prems]
  show ?case
  proof (cases m)
    case 0
    have "fst (allows fl (replicate k (tb_last b)) b) = replicate k False" using Suc.IH [OF Suc.prems] 0 by simp
    then show ?thesis using step 0 by (simp add: Let_def case_prod_beta)
  next
    case (Suc m')
    have "allow fl (tb_last b) b = (True, ?b)" using step Suc by simp
    moreover have "bucket_wf ?b" using allow_wf(1) [OF assms(1) Suc.prems(1), of "tb_last b"] calculation by simp
    moreover have "fst (allows fl (replicate k (tb_last ?b)) ?b) = replicate (min k m') True @ replicate (k - m') False"
      using Suc.IH [OF calculation(2), of m'] Suc by simp
    ultimately show ?thesis using Suc by (simp add: Let_def case_prod_beta)
  qed
qed simp

lemma rate_lower:
  assumes "ieee_ok fl" and "1 \<le> c" and "c \<le> 2 ^ 53"
  shows "of_int c / of_int Second * (1 - 1 / 2 ^ 53) \<le> fl (of_int c / of_int Second)"
    and "of_int c / (2 * of_int Second) \<le> fl (of_int c / of_int Second)"
proof -
  define x :: rat where "x = of_int c / of_int Second"
  have "(of_int c :: rat) \<le> of_int (2 ^ 53)" "(1 :: rat) \<le> of_int c" using assms(2,3) unfolding of_int_le_iff by simp_all
  then have x: "1 / 2 ^ 30 \<le> x" "x \<le> 2 ^ 53" by (simp_all add: x_def Second_def field_simps)
  have "1 / normal_max \<le> 1 / 2 ^ 30" using normal_max_ge [of 30] by (intro divide_left_mono) simp_all
  then have lo: "1 / normal_max \<le> x" using x(1) by (rule order_trans)
  have hi: "x \<le> normal_max" by (rule order_trans [OF x(2) normal_max_ge]) simp
  have pos: "0 \<le> x" using x(1) by (rule order_trans [rotated]) simp
  have "\<bar>fl x - x\<bar> \<le> \<bar>x\<bar> / 2 ^ 53"
    using lo hi by (intro ieee_err [OF assms(1)]) (simp_all only: abs_of_nonneg [OF pos])
  then have sharp: "x - x / 2 ^ 53 \<le> fl x" unfolding abs_of_nonneg [OF pos] by linarith
  then show "of_int c / of_int Second * (1 - 1 / 2 ^ 53) \<le> fl (of_int c / of_int Second)"
    unfolding x_def [symmetric] by (simp only: right_diff_distrib mult_1_right times_divide_eq_right)
  have "x / 2 ^ 53 \<le> x / 2" using pos by (intro divide_left_mono) simp_all
  then have "x / 2 \<le> fl x" using sharp by linarith
  then show "of_int c / (2 * of_int Second) \<le> fl (of_int c / of_int Second)" by (simp add: x_def field_simps)
qed

text \<open>After a pause of more than a second the bucket is full again, whatever was in it.\<close>

lemma refill_full:
  assumes "ieee_ok fl" and "bucket_wf b" and "1 \<le> c" and "c \<le> 2 ^ 53" and "tb_rate b = fl (of_int c / of_int Second)" and "tb_capacity b = of_int c"
    and "tb_last b + Second < now" and "now \<le> tb_last b + 2 ^ 62"
  shows "allow fl now b = (True, b\<lparr>tb_last := now, tb_tokens := of_int (c - 1)\<rparr>)"
proof -
  have le: "tb_last b \<le> now" using assms(7) by (simp add: Second_def)
  define e where "e = fl (of_int (now - tb_last b))"
  define q where "q = fl (e * tb_rate b)"
  note b = refill_bounds [OF assms(1,2) le assms(8), folded e_def, folded q_def]
  have t: "0 \<le> tb_tokens b" "tb_tokens b \<le> tb_capacity b" "1 \<le> tb_capacity b" "tb_capacity b \<le> 2 ^ 53"
  proof -
    obtain n where n: "1 \<le> n" "n \<le> 2 ^ 53" "tb_capacity b = of_int n" using assms(2) by (auto simp: bucket_wf_def)
    show "tb_capacity b \<le> 2 ^ 53" using n(2) unfolding n(3) by (metis of_int_le_iff of_int_numeral of_int_power)
    show "1 \<le> tb_capacity b" using n(1) unfolding n(3) by simp
  qed (use assms(2) in \<open>simp_all add: bucket_wf_def\<close>)
  have big: "(2::rat) ^ 130 \<le> normal_max" by (rule normal_max_ge) simp
  have "fl (of_int (Second + 1)) \<le> e" unfolding e_def
  proof (rule ieee_mono [OF assms(1)])
    have "(of_int (now - tb_last b) :: rat) \<le> of_int (2 ^ 62)" using assms(8) unfolding of_int_le_iff by simp
    moreover have "0 \<le> (of_int (now - tb_last b) :: rat)" using le by simp
    ultimately show "\<bar>of_int (now - tb_last b) :: rat\<bar> \<le> normal_max" using big by simp
    show "\<bar>of_int (Second + 1) :: rat\<bar> \<le> normal_max" using big by (simp add: Second_def)
    show "(of_int (Second + 1) :: rat) \<le> of_int (now - tb_last b)" using assms(7) unfolding of_int_le_iff by simp
  qed
  then have "of_int (Second + 1) \<le> e" using ieee_int [OF assms(1), of "Second + 1"] by (simp add: Second_def)
  moreover have "of_int c / of_int Second * (1 - 1 / 2 ^ 53) \<le> tb_rate b" using rate_lower(1) [OF assms(1,3,4)] assms(5) by simp
  ultimately have "of_int (Second + 1) * (of_int c / of_int Second * (1 - 1 / 2 ^ 53)) \<le> e * tb_rate b"
    using assms(3) by (intro mult_mono) (simp_all add: Second_def)
  moreover have "of_int c * 1 \<le> of_int c * (of_int (Second + 1) / of_int Second * (1 - 1 / 2 ^ 53) :: rat)"
    using assms(3) by (intro mult_left_mono) (simp_all add: Second_def)
  then have "of_int c \<le> of_int (Second + 1) * (of_int c / of_int Second * (1 - 1 / 2 ^ 53) :: rat)" by (simp add: ac_simps)
  ultimately have "of_int c \<le> e * tb_rate b" by linarith
  then have "fl (of_int c) \<le> q" unfolding q_def using b(2) t big assms(6) by (intro ieee_mono [OF assms(1)]) auto
  then have q: "of_int c \<le> q" using ieee_int [OF assms(1), of c] assms(3,4) by simp
  have "fl (of_int c) \<le> fl (tb_tokens b + q)"
    using q t b(4) big assms(6) by (intro ieee_mono [OF assms(1)]) (auto simp: abs_le_iff)
  then have "of_int c \<le> fl (tb_tokens b + q)" using ieee_int [OF assms(1), of c] assms(3,4) by simp
  moreover have "fl (of_int c - 1) = of_int (c - 1)" using ieee_int [OF assms(1), of "c - 1"] assms(3,4) by simp
  ultimately show ?thesis using t(3) assms(6) by (auto simp: allow_def Let_def q_def e_def)
qed

text \<open>
  The tokens are the credit of the bucket: a call takes one out when it is let through, and puts in what
  the rate gives for the time since the last one, up to the rounding.
\<close>

lemma ieee_rel:
  assumes "ieee_ok fl" and "x = 0 \<or> 1 / normal_max \<le> x" and "x \<le> normal_max" shows "fl x \<le> x * (1 + 1 / 2 ^ 53)"
proof (cases "x = 0")
  case False
  then have x: "1 / normal_max \<le> x" "0 \<le> x" using assms(2) by (auto intro: order_trans [rotated])
  then have "\<bar>fl x - x\<bar> \<le> \<bar>x\<bar> / 2 ^ 53" using assms(3) by (intro ieee_err [OF assms(1)]) simp_all
  then have "fl x - x \<le> x / 2 ^ 53" using x(2) by linarith
  then show ?thesis by (simp add: algebra_simps)
qed (use assms(1) in simp)

lemma ieee_abs:
  assumes "ieee_ok fl" and "0 \<le> x" and "x \<le> normal_max" shows "fl x \<le> x + x / 2 ^ 53 + 2 / normal_max"
proof (cases "1 / normal_max \<le> x")
  case True
  then have "fl x \<le> x * (1 + 1 / 2 ^ 53)" using assms by (intro ieee_rel) simp_all
  moreover have "0 \<le> 2 / normal_max" by simp
  moreover have "x * (1 + 1 / 2 ^ 53) = x + x / 2 ^ 53" by (simp add: distrib_left)
  ultimately show ?thesis by linarith
next
  case False
  have n: "1 / normal_max \<le> normal_max" by (rule order_trans [OF normal_max_pos(4,1)])
  have "fl x \<le> fl (1 / normal_max)" using False assms(2,3) n by (intro ieee_mono [OF assms(1)]) (auto simp: abs_le_iff)
  also have "\<dots> \<le> 1 / normal_max * (1 + 1 / 2 ^ 53)" using n by (intro ieee_rel [OF assms(1)]) simp_all
  also have "\<dots> \<le> 1 / normal_max * 2" by (rule mult_left_mono) simp_all
  finally have "fl x \<le> 2 / normal_max" by simp
  moreover have "0 \<le> x / 2 ^ 53" using assms(2) by simp
  ultimately show ?thesis using assms(2) by linarith
qed

lemma rate_bounds:
  assumes "ieee_ok fl" and "1 \<le> c" and "c \<le> 2 ^ 53"
  shows "1 / 2 ^ 31 \<le> fl (of_int c / of_int Second)" and "fl (of_int c / of_int Second) \<le> of_int c / of_int Second * (1 + 1 / 2 ^ 53)"
    and "0 \<le> (of_int c / of_int Second :: rat)" and "(of_int c / of_int Second :: rat) \<le> 2 ^ 53"
proof -
  have "(of_int c :: rat) \<le> of_int (2 ^ 53)" "(1 :: rat) \<le> of_int c" using assms(2,3) unfolding of_int_le_iff by simp_all
  then have x: "1 / 2 ^ 30 \<le> (of_int c / of_int Second :: rat)" "(of_int c / of_int Second :: rat) \<le> 2 ^ 53"
    by (simp_all add: Second_def field_simps)
  then show "(of_int c / of_int Second :: rat) \<le> 2 ^ 53" by simp
  show "0 \<le> (of_int c / of_int Second :: rat)" using x(1) by (rule order_trans [rotated]) simp
  have "(1 / 2 ^ 31 :: rat) = 1 / 2 ^ 30 / 2" by simp
  also have "\<dots> \<le> of_int c / of_int Second / 2" by (rule divide_right_mono [OF x(1)]) simp
  also have "\<dots> = of_int c / (2 * of_int Second)" by simp
  also have "\<dots> \<le> fl (of_int c / of_int Second)" by (rule rate_lower(2) [OF assms])
  finally show "1 / 2 ^ 31 \<le> fl (of_int c / of_int Second)" .
  have "1 / normal_max \<le> 1 / 2 ^ 30" using normal_max_ge [of 30] by (intro divide_left_mono) simp_all
  then show "fl (of_int c / of_int Second) \<le> of_int c / of_int Second * (1 + 1 / 2 ^ 53)"
    using order_trans [OF _ x(1)] order_trans [OF x(2) normal_max_ge] by (intro ieee_rel [OF assms(1)]) simp_all
qed

lemma elapsed_bounds:
  assumes "ieee_ok fl" and "0 \<le> d" and "d \<le> 2 ^ 62"
  shows "fl (of_int d) \<le> of_int d * (1 + 1 / 2 ^ 53)" and "fl (of_int d) = 0 \<or> 1 \<le> fl (of_int d)"
proof -
  have big: "(2::rat) ^ 62 \<le> normal_max" by (rule normal_max_ge) simp
  have dd: "(of_int d :: rat) \<le> of_int (2 ^ 62)" "(0 :: rat) \<le> of_int d" using assms(2,3) unfolding of_int_le_iff by simp_all
  have "(of_int d :: rat) = 0 \<or> 1 / normal_max \<le> of_int d"
  proof (cases "d = 0")
    case False
    then have "(1 :: rat) \<le> of_int d" using assms(2) by simp
    then show ?thesis using order_trans [OF normal_max_pos(4)] by blast
  qed simp
  then show "fl (of_int d) \<le> of_int d * (1 + 1 / 2 ^ 53)" using dd big by (intro ieee_rel [OF assms(1)]) simp_all
  show "fl (of_int d) = 0 \<or> 1 \<le> fl (of_int d)"
  proof (cases "d = 0")
    case False
    have "fl 1 \<le> fl (of_int d)" using False assms(2) dd big by (intro ieee_mono [OF assms(1)]) simp_all
    then show ?thesis using ieee_int [OF assms(1), of 1] by simp
  qed (use assms(1) in simp)
qed

lemma refill_rate:
  assumes "ieee_ok fl" and "1 \<le> c" and "c \<le> 2 ^ 53" and "0 \<le> d" and "d \<le> 2 ^ 62"
  shows "fl (fl (of_int d) * fl (of_int c / of_int Second)) \<le> of_int c * (of_int d / of_int Second) * (1 + 1 / 2 ^ 51)"
proof -
  define u r e x D :: rat where "u = 1 + 1 / 2 ^ 53" and "r = fl (of_int c / of_int Second)" and "e = fl (of_int d)"
    and "x = of_int c / of_int Second" and "D = of_int d"
  note r = rate_bounds [OF assms(1-3), folded u_def, folded x_def, folded r_def [folded x_def]]
  note e = elapsed_bounds [OF assms(1,4,5), folded u_def, folded e_def, folded D_def]
  have D: "0 \<le> D" "D \<le> 2 ^ 62" using assms(4,5) of_int_le_iff [of d "2 ^ 62", where ?'a = rat] by (simp_all add: D_def)
  have u: "0 \<le> u" "u \<le> 2" "u * u * u \<le> 1 + 1 / 2 ^ 51" by (simp_all add: u_def)
  have r0: "0 \<le> r" using r(1) by (rule order_trans [rotated]) simp
  have p: "e * r \<le> (D * u) * (x * u)" by (rule mult_mono [OF e(1) r(2)]) (use D u(1) r0 in simp_all)
  have pos: "e * r = 0 \<or> 1 / normal_max \<le> e * r"
  proof (cases "e = 0")
    case False
    then have "1 * (1 / 2 ^ 31) \<le> e * r" using e(2) r(1) by (intro mult_mono) simp_all
    then have "1 / 2 ^ 31 \<le> e * r" by (simp only: mult_1_left)
    moreover have "1 / normal_max \<le> 1 / 2 ^ 31" using normal_max_ge [of 31] by (intro divide_left_mono) simp_all
    ultimately show ?thesis using order_trans by blast
  qed simp
  have "(D * u) * (x * u) \<le> (2 ^ 62 * 2) * (2 ^ 53 * 2)" by (intro mult_mono mult_nonneg_nonneg) (use D r(3,4) u in simp_all)
  also have "\<dots> \<le> normal_max" using normal_max_ge [of 117] by simp
  finally have "e * r \<le> normal_max" using p by simp
  then have "fl (e * r) \<le> e * r * u" unfolding u_def by (rule ieee_rel [OF assms(1) pos])
  also have "\<dots> \<le> (D * u) * (x * u) * u" by (rule mult_right_mono [OF p u(1)])
  also have "\<dots> = D * x * (u * u * u)" by (simp add: ac_simps)
  also have "\<dots> \<le> D * x * (1 + 1 / 2 ^ 51)" by (rule mult_left_mono [OF u(3)]) (use D r(3) in simp)
  finally show ?thesis by (simp add: e_def r_def x_def D_def ac_simps)
qed

lemma allow_spends:
  assumes "ieee_ok fl" and "bucket_wf b" and "1 \<le> c" and "c \<le> 2 ^ 53" and "tb_rate b = fl (of_int c / of_int Second)" and "tb_capacity b = of_int c"
    and "tb_last b \<le> now" and "now \<le> tb_last b + 2 ^ 62"
  shows "of_bool (fst (allow fl now b)) + tb_tokens (snd (allow fl now b)) \<le>
    tb_tokens b + of_int c * (of_int (now - tb_last b) / of_int Second * (1 + 1 / 2 ^ 51) + 1 / 2 ^ 51)"
proof -
  define C :: rat where "C = of_int c"
  have big: "(2::rat) ^ 130 \<le> normal_max" by (rule normal_max_ge) simp
  have "(of_int c :: rat) \<le> of_int (2 ^ 53)" "(1 :: rat) \<le> of_int c" using assms(3,4) unfolding of_int_le_iff by simp_all
  then have C: "1 \<le> C" "C \<le> 2 ^ 53" by (simp_all add: C_def)
  have T: "0 \<le> tb_tokens b" "tb_tokens b \<le> C" using assms(2,6) by (simp_all add: bucket_wf_def C_def)
  define q where "q = fl (fl (of_int (now - tb_last b)) * tb_rate b)"
  have q: "0 \<le> q" "q \<le> 2 ^ 126" unfolding q_def by (rule refill_bounds [OF assms(1,2,7,8)])+
  have q': "q \<le> C * (of_int (now - tb_last b) / of_int Second) * (1 + 1 / 2 ^ 51)"
    unfolding q_def assms(5) C_def by (rule refill_rate [OF assms(1,3,4)]) (use assms(7,8) in simp_all)
  have tiny: "4 / normal_max \<le> C / 2 ^ 53"
  proof -
    have "4 / normal_max \<le> 4 / 2 ^ 55" using normal_max_ge [of 55] by (intro divide_left_mono) simp_all
    also have "\<dots> \<le> C / 2 ^ 53" using C(1) by (simp add: field_simps)
    finally show ?thesis .
  qed
  define t1 where "t1 = fl (tb_tokens b + q)"
  define t2 where "t2 = (if t1 > C then C else t1)"
  have sum: "0 \<le> tb_tokens b + q" "tb_tokens b + q \<le> normal_max" using T q C big by simp_all
  have t1: "0 \<le> t1" unfolding t1_def by (rule ieee_nonneg [OF assms(1) sum])
  have t2: "t2 \<le> C" "0 \<le> t2" using t1 C(1) by (auto simp: t2_def)
  have up: "t2 \<le> tb_tokens b + q + 2 * (C / 2 ^ 53) + 2 / normal_max"
  proof (cases "tb_tokens b + q \<le> 2 * C")
    case True
    then have "(tb_tokens b + q) / 2 ^ 53 \<le> 2 * (C / 2 ^ 53)" by (simp add: divide_right_mono)
    then have "t1 \<le> tb_tokens b + q + 2 * (C / 2 ^ 53) + 2 / normal_max" using ieee_abs [OF assms(1) sum] unfolding t1_def by linarith
    then show ?thesis by (auto simp: t2_def)
  next
    case False
    moreover have "0 \<le> 2 * (C / 2 ^ 53)" "0 \<le> 2 / normal_max" using C(1) by simp_all
    ultimately show ?thesis using t2(1) C(1) by linarith
  qed
  have a: "allow fl now b = (if t2 \<ge> 1 then (True, b\<lparr>tb_last := now, tb_tokens := fl (t2 - 1)\<rparr>)
      else (False, b\<lparr>tb_last := now, tb_tokens := t2\<rparr>))"
    by (simp add: allow_def Let_def t2_def t1_def q_def assms(6) C_def)
  have "of_bool (fst (allow fl now b)) + tb_tokens (snd (allow fl now b)) \<le> t2 + C / 2 ^ 53 + 2 / normal_max"
  proof (cases "1 \<le> t2")
    case True
    have "fl (t2 - 1) \<le> (t2 - 1) + (t2 - 1) / 2 ^ 53 + 2 / normal_max"
      using True t2(1) C(2) big by (intro ieee_abs [OF assms(1)]) simp_all
    moreover have "(t2 - 1) / 2 ^ 53 \<le> C / 2 ^ 53" using t2(1) by (intro divide_right_mono) simp_all
    ultimately have "1 + fl (t2 - 1) \<le> t2 + C / 2 ^ 53 + 2 / normal_max" by linarith
    then show ?thesis using True by (simp add: a)
  next
    case False
    moreover have "0 \<le> C / 2 ^ 53" "0 \<le> 2 / normal_max" using C(1) by simp_all
    ultimately have "t2 \<le> t2 + C / 2 ^ 53 + 2 / normal_max" by linarith
    then show ?thesis using False by (simp add: a)
  qed
  moreover have "2 / normal_max + 2 / normal_max = 4 / normal_max" by simp
  moreover have "4 * (C / 2 ^ 53) = C * (1 / 2 ^ 51)" by simp
  ultimately have "of_bool (fst (allow fl now b)) + tb_tokens (snd (allow fl now b)) \<le> tb_tokens b + q + C * (1 / 2 ^ 51)"
    using up tiny by linarith
  also have "\<dots> \<le> tb_tokens b + C * (of_int (now - tb_last b) / of_int Second) * (1 + 1 / 2 ^ 51) + C * (1 / 2 ^ 51)"
    using q' by simp
  finally show ?thesis by (simp add: C_def algebra_simps)
qed

lemma allows_spend:
  assumes "ieee_ok fl" and "1 \<le> c" and "c \<le> 2 ^ 53"
  shows "bucket_wf b \<Longrightarrow> tb_rate b = fl (of_int c / of_int Second) \<Longrightarrow> tb_capacity b = of_int c \<Longrightarrow> clock_ok (tb_last b) us \<Longrightarrow>
    of_nat (length (filter id (fst (allows fl us b)))) + tb_tokens (snd (allows fl us b)) \<le>
    tb_tokens b + of_int c * (of_int (last (tb_last b # us) - tb_last b) / of_int Second * (1 + 1 / 2 ^ 51) + of_nat (length us) / 2 ^ 51)"
proof (induction us arbitrary: b)
  case (Cons now us)
  let ?b = "snd (allow fl now b)"
  have k: "tb_last b \<le> now" "now \<le> tb_last b + 2 ^ 62" "clock_ok now us" using Cons.prems(4) by simp_all
  note w = allow_wf [OF assms(1) Cons.prems(1) k(1,2)]
  define f :: rat where "f = 1 + 1 / 2 ^ 51"
  define x y :: rat where "x = of_int (now - tb_last b) / of_int Second" and "y = of_int (last (now # us) - now) / of_int Second"
  have "of_nat (length (filter id (fst (allows fl us ?b)))) + tb_tokens (snd (allows fl us ?b)) \<le>
      tb_tokens ?b + of_int c * (y * f + of_nat (length us) / 2 ^ 51)"
    unfolding y_def f_def by (rule Cons.IH [of ?b, unfolded w(2-4), OF w(1) Cons.prems(2,3) k(3)])
  moreover have "of_bool (fst (allow fl now b)) + tb_tokens ?b \<le> tb_tokens b + of_int c * (x * f + 1 / 2 ^ 51)"
    unfolding x_def f_def by (rule allow_spends [OF assms(1) Cons.prems(1) assms(2,3) Cons.prems(2,3) k(1,2)])
  ultimately have "of_bool (fst (allow fl now b)) + of_nat (length (filter id (fst (allows fl us ?b)))) + tb_tokens (snd (allows fl us ?b)) \<le>
      tb_tokens b + of_int c * (x * f + 1 / 2 ^ 51) + of_int c * (y * f + of_nat (length us) / 2 ^ 51)" by linarith
  also have "\<dots> = tb_tokens b + of_int c * ((x + y) * f + of_nat (length (now # us)) / 2 ^ 51)"
    by (simp add: algebra_simps add_divide_distrib)
  also have "x + y = of_int (last (tb_last b # now # us) - tb_last b) / of_int Second"
    unfolding x_def y_def add_divide_distrib [symmetric] of_int_add [symmetric] by simp
  finally show ?case unfolding f_def by (simp add: Let_def case_prod_beta of_bool_def split: if_splits)
qed simp

lemma clock_ok_append: "clock_ok t0 (ts @ us) \<longleftrightarrow> clock_ok t0 ts \<and> clock_ok (last (t0 # ts)) us"
  by (induction ts arbitrary: t0) auto

text \<open>
  C31: the rate limit. Take a bucket of capacity \<open>c\<close> after any history \<open>ts\<close> of calls, on a clock that does not run
  backwards. In any further stretch of calls, no more are let through than \<open>c\<close>, plus \<open>c\<close> for each second of
  the stretch, up to a relative rounding error of \<open>2^-51\<close> in the time and for each call. And after a
  pause of more than a second the bucket is full again, and no more than full: of \<open>k\<close> calls that come then at once,
  exactly the first \<open>c\<close> are let through.
\<close>

theorem bucket_rate:
  assumes "ieee_ok fl" and "1 \<le> c" and "c \<le> 2 ^ 53" and "clock_ok now (ts @ us)"
  shows "of_nat (length (filter id (fst (allows fl us (snd (allows fl ts (newTokenBucket fl now c))))))) \<le>
      of_int c * (1 + of_int (last (last (now # ts) # us) - last (now # ts)) / of_int Second * (1 + 1 / 2 ^ 51) + of_nat (length us) / 2 ^ 51 :: rat) \<and>
    (\<forall>t k. last (now # ts) + Second < t \<and> t \<le> last (now # ts) + 2 ^ 62 \<longrightarrow>
      fst (allows fl (replicate k t) (snd (allows fl ts (newTokenBucket fl now c)))) = replicate (min k (nat c)) True @ replicate (k - nat c) False)"
proof (intro conjI allI impI)
  note new = new_bucket [OF assms(1-3), of now]
  let ?b = "snd (allows fl ts (newTokenBucket fl now c))"
  have k: "clock_ok now ts" "clock_ok (last (now # ts)) us" using assms(4) by (simp_all add: clock_ok_append del: last.simps)
  have b: "bucket_wf ?b" "tb_rate ?b = fl (of_int c / of_int Second)" "tb_capacity ?b = of_int c" "tb_last ?b = last (now # ts)"
    using allows_wf [OF assms(1) new(5), of ts] k(1) new by simp_all
  have "tb_tokens ?b \<le> of_int c" "0 \<le> tb_tokens (snd (allows fl us ?b))"
    using b(1,3) allows_wf [OF assms(1) b(1), of us] k(2) b(4) by (simp_all add: bucket_wf_def)
  then show "of_nat (length (filter id (fst (allows fl us ?b)))) \<le>
      of_int c * (1 + of_int (last (last (now # ts) # us) - last (now # ts)) / of_int Second * (1 + 1 / 2 ^ 51) + of_nat (length us) / 2 ^ 51 :: rat)"
    using allows_spend [OF assms(1-3) b(1-3), of us] k(2) unfolding b(4) distrib_left [of "of_int c" 1] add.assoc by linarith
  fix t n assume t: "last (now # ts) + Second < t \<and> t \<le> last (now # ts) + 2 ^ 62"
  have "allow fl t ?b = (True, ?b\<lparr>tb_last := t, tb_tokens := of_int (c - 1)\<rparr>)"
    using t by (intro refill_full [OF assms(1) b(1) assms(2,3) b(2,3)]) (simp_all add: b(4) del: last.simps)
  moreover from this have "bucket_wf (?b\<lparr>tb_last := t, tb_tokens := of_int (c - 1)\<rparr>)"
    using allow_wf(1) [OF assms(1) b(1), of t] t by (simp add: b(4) Second_def del: last.simps)
  moreover obtain m where m: "c = 1 + int m" using assms(2) zle_iff_zadd by metis
  ultimately show "fst (allows fl (replicate n t) ?b) = replicate (min n (nat c)) True @ replicate (n - nat c) False"
    using allows_same_time [where m = m and k = "n - 1", OF assms(1), of "?b\<lparr>tb_last := t, tb_tokens := of_int (c - 1)\<rparr>"]
    by (cases n) (simp_all add: Let_def case_prod_beta nat_add_distrib)
qed

theorem bucket_rate_witness:
  "fst (allows (\<lambda>x. x) (replicate 3 1000000010) (snd (allows (\<lambda>x. x) [9, 9, 9] (newTokenBucket (\<lambda>x. x) 9 2)))) = [True, True, False] \<and>
   length (filter id (fst (allows (\<lambda>x. x) [500000009, 500000009, 1000000009] (snd (allows (\<lambda>x. x) [9, 9, 9] (newTokenBucket (\<lambda>x. x) 9 2)))))) \<le> 4"
proof -
  note b = bucket_rate [OF ieee_ok_exact, of 2 9 "[9, 9, 9]" "[500000009, 500000009, 1000000009]"]
  let ?n = "length (filter id (fst (allows (\<lambda>x. x) [500000009, 500000009, 1000000009] (snd (allows (\<lambda>x. x) [9, 9, 9] (newTokenBucket (\<lambda>x. x) 9 2))))))"
  have "(of_nat ?n :: rat) \<le> of_int 2 * (1 + of_int 1000000000 / of_int Second * (1 + 1 / 2 ^ 51) + of_nat 3 / 2 ^ 51)"
    using b [THEN conjunct1] by simp
  then have "(of_nat ?n :: rat) < of_nat 5" by (simp add: Second_def)
  then have "?n < 5" unfolding of_nat_less_iff .
  then have "?n \<le> 4" by simp
  moreover have "fst (allows (\<lambda>x. x) (replicate 3 1000000010) (snd (allows (\<lambda>x. x) [9, 9, 9] (newTokenBucket (\<lambda>x. x) 9 2)))) = [True, True, False]"
    using b [THEN conjunct2, rule_format, of 1000000010 3] by (simp add: Second_def numeral_eq_Suc)
  ultimately show ?thesis by blast
qed

section \<open>Properties of the sync loop\<close>

text \<open>The windows of the successful loads of a run: the time since which each was asked for changes, and
  the time it started.\<close>

definition doSync_window :: "(rat \<Rightarrow> rat) \<Rightarrow> int \<Rightarrow> int \<Rightarrow> 's loader \<Rightarrow> PGSyncer \<times> 's \<Rightarrow> (int \<times> int) list" where
  "doSync_window fl now queryStart load ys =
     (if fst (allow fl now (ps_bucket (fst ys))) \<and> fst (load (ps_lastAt (fst ys)) (snd ys)) = None
      then [(ps_lastAt (fst ys), queryStart)] else [])"

fun event_window :: "(rat \<Rightarrow> rat) \<Rightarrow> 's sync_event \<Rightarrow> PGSyncer \<times> 's \<Rightarrow> (int \<times> int) list" where
  "event_window fl (Tick now queryStart load) ys = doSync_window fl now queryStart load ys"
| "event_window fl (Triggered now queryStart load) ys = doSync_window fl now queryStart load ys"
| "event_window fl Trigger ys = []"

fun windows :: "(rat \<Rightarrow> rat) \<Rightarrow> 's sync_event list \<Rightarrow> PGSyncer \<times> 's \<Rightarrow> (int \<times> int) list" where
  "windows fl [] ys = []"
| "windows fl (e # es) ys =
     (case sync_event_step fl e ys of None \<Rightarrow> [] | Some ys' \<Rightarrow> event_window fl e ys @ windows fl es ys')"

lemma doSync_effect:
  "ps_lastAt (fst (doSync fl now queryStart load ys)) =
     (case doSync_window fl now queryStart load ys of [] \<Rightarrow> ps_lastAt (fst ys) | w # _ \<Rightarrow> snd w)"
  "ps_trigger (fst (doSync fl now queryStart load ys)) = ps_trigger (fst ys)"
  "ps_success (fst (doSync fl now queryStart load ys)) = ps_success (fst ys) + length (doSync_window fl now queryStart load ys)"
  by (auto simp: doSync_defs doSync_window_def Let_def split: prod.splits option.splits)

lemma doSync_window_cases:
  obtains "doSync_window fl now queryStart load ys = []"
    "ps_lastAt (fst (doSync fl now queryStart load ys)) = ps_lastAt (fst ys)"
  | "doSync_window fl now queryStart load ys = [(ps_lastAt (fst ys), queryStart)]"
    "ps_lastAt (fst (doSync fl now queryStart load ys)) = queryStart"
  using doSync_effect(1) [of fl now queryStart load ys]
  by (cases "doSync_window fl now queryStart load ys") (auto simp: doSync_window_def split: if_splits)

text \<open>One event: the windows it adds start where the state left off and end where it leaves off.\<close>

lemma event_effect:
  assumes "sync_event_step fl e ys = Some ys'" and "ps_trigger (fst ys) \<le> 1"
  shows "ps_trigger (fst ys') \<le> 1"
    and "ps_success (fst ys') = ps_success (fst ys) + length (event_window fl e ys)"
    and "event_window fl e ys = [] \<and> ps_lastAt (fst ys') = ps_lastAt (fst ys) \<or>
      event_window fl e ys = [(ps_lastAt (fst ys), ps_lastAt (fst ys'))]"
proof -
  obtain y s where ys: "ys = (y, s)" by fastforce
  have "ps_trigger (fst ys') \<le> 1 \<and> ps_success (fst ys') = ps_success (fst ys) + length (event_window fl e ys) \<and> (event_window fl e ys = [] \<and> ps_lastAt (fst ys') = ps_lastAt (fst ys) \<or>
      event_window fl e ys = [(ps_lastAt (fst ys), ps_lastAt (fst ys'))])"
  proof (cases e)
    case (Tick now q load)
    then have "ys' = doSync fl now q load ys" using assms(1) by simp
    then show ?thesis
      using assms(2) Tick doSync_effect(2,3) [of fl now q load ys]
      by (cases rule: doSync_window_cases [of fl now q load ys]) simp_all
  next
    case (Triggered now q load)
    let ?y = "(y\<lparr>ps_trigger := ps_trigger y - 1\<rparr>, s)"
    have "ys' = doSync fl now q load ?y" using assms(1) Triggered ys by (simp add: received_def split: if_splits)
    moreover have "doSync_window fl now q load ys = doSync_window fl now q load ?y" by (simp add: doSync_window_def ys)
    ultimately show ?thesis
      using assms(2) Triggered ys doSync_effect(2,3) [of fl now q load ?y]
      by (cases rule: doSync_window_cases [of fl now q load ?y]) simp_all
  next
    case Trigger
    then show ?thesis using assms ys by (auto simp: TriggerSync_def)
  qed
  then show "ps_trigger (fst ys') \<le> 1" "ps_success (fst ys') = ps_success (fst ys) + length (event_window fl e ys)" "event_window fl e ys = [] \<and> ps_lastAt (fst ys') = ps_lastAt (fst ys) \<or>
      event_window fl e ys = [(ps_lastAt (fst ys), ps_lastAt (fst ys'))]" by blast+
qed

lemma windows_cover:
  "sync_run fl es ys = Some ys' \<Longrightarrow> ps_trigger (fst ys) \<le> 1 \<Longrightarrow>
     ps_trigger (fst ys') \<le> 1 \<and> ps_success (fst ys') = ps_success (fst ys) + length (windows fl es ys) \<and>
     (\<forall>t. ps_lastAt (fst ys) < t \<and> t \<le> ps_lastAt (fst ys') \<longrightarrow> (\<exists>(since, start) \<in> set (windows fl es ys). since < t \<and> t \<le> start))"
proof (induction es arbitrary: ys)
  case (Cons e es)
  obtain ys1 where s: "sync_event_step fl e ys = Some ys1" "sync_run fl es ys1 = Some ys'"
    using Cons.prems(1) by (auto simp: bind_eq_Some_conv)
  note step = event_effect [OF s(1) Cons.prems(2)]
  note IH = Cons.IH [OF s(2) step(1)]
  have "\<exists>(since, start) \<in> set (windows fl (e # es) ys). since < t \<and> t \<le> start"
    if t: "ps_lastAt (fst ys) < t" "t \<le> ps_lastAt (fst ys')" for t
  proof (cases "ps_lastAt (fst ys1) < t")
    case True
    then obtain w where "w \<in> set (windows fl es ys1)" "fst w < t" "t \<le> snd w" using IH t(2) by auto
    then show ?thesis using s(1) by auto
  next
    case False
    then show ?thesis using step(3) t(1) s(1) by auto
  qed
  then show ?case using IH step(2) s(1) by simp
qed simp

text \<open>
  C32: no change falls between two loads. In every run of the loop, with ticks, triggers, refused and
  failing loads in any order, each moment after the start-up time up to the time the syncer has reached
  lies in the window of some successful load: it asked for the changes since an earlier time and started
  no earlier. At most one trigger is ever pending, and the success counter is the number of these loads.
\<close>

theorem sync_windows_cover:
  assumes "sync_run fl es (NewSyncer fl now since cfg, s) = Some (y', s')"
  shows "ps_trigger y' \<le> 1 \<and> ps_success y' = length (windows fl es (NewSyncer fl now since cfg, s)) \<and>
    (\<forall>t. since < t \<and> t \<le> ps_lastAt y' \<longrightarrow>
      (\<exists>(since', start) \<in> set (windows fl es (NewSyncer fl now since cfg, s)). since' < t \<and> t \<le> start))"
  using windows_cover [OF assms] by (simp add: NewSyncer_def)

theorem sync_windows_cover_witness:
  "(\<exists>(since', start) \<in> set (windows (\<lambda>x. x) [Trigger, Triggered 6 7 (\<lambda>t s. (None, s)), Tick 8 9 (\<lambda>t s. (Some ErrNotFound, s))]
      (NewSyncer (\<lambda>x. x) 5 3 (cf_Sync Defaults), ())). since' < 4 \<and> 4 \<le> start)"
proof -
  let ?es = "[Trigger, Triggered 6 7 (\<lambda>t s. (None, s)), Tick 8 9 (\<lambda>t s. (Some ErrNotFound, s))]"
  obtain y' s' where r: "sync_run (\<lambda>x. x) ?es (NewSyncer (\<lambda>x. x) 5 3 (cf_Sync Defaults), ()) = Some (y', s')" "ps_lastAt y' = 7"
    by (simp add: NewSyncer_def newTokenBucket_def Defaults_def Second_def TriggerSync_def doSync_defs received_def allow_def Let_def)
  from sync_windows_cover [OF r(1)] r(2) show ?thesis by simp
qed

end
