(* ===== verification/Metrics.thy ===== *)
theory Metrics
  imports DNS_Handler Syncer
begin

text \<open>
  \<^verbatim>\<open>internal/metrics/metrics.go\<close>: the five Prometheus collectors, as the data they are registered with, and
  what the handler and the syncer report to them. The collectors themselves belong to the client library. It
  registers a collector only if its name is new and, for a histogram, if its bounds increase, and it
  takes a report only with one value for each label; each of these failing is a panic, at start-up or while a query
  is served. The lemmas show that none of them can happen.
\<close>

section \<open>The collectors\<close>

datatype metric_kind = Counter | Histogram "rat list" | Gauge

record collector =
  co_Name :: string
  co_Help :: string
  co_kind :: metric_kind
  co_labels :: "string list"

definition DNSQueriesTotal :: collector where
  "DNSQueriesTotal = \<lparr>co_Name = ''dns_queries_total'', co_Help = ''Total DNS queries received, by qtype and rcode.'',
     co_kind = Counter, co_labels = [''qtype'', ''rcode'']\<rparr>"

definition DNSQueryDuration :: collector where
  "DNSQueryDuration = \<lparr>co_Name = ''dns_query_duration_seconds'', co_Help = ''DNS query handling latency in seconds.'',
     co_kind = Histogram [5 / 100000, 1 / 10000, 2 / 10000, 5 / 10000, 1 / 1000, 5 / 1000, 1 / 100], co_labels = [''qtype'']\<rparr>"

definition SyncTotal :: collector where
  "SyncTotal = \<lparr>co_Name = ''dns_sync_total'', co_Help = ''Total incremental PG sync attempts, by result.'',
     co_kind = Counter, co_labels = [''result'']\<rparr>"

definition SyncDuration :: collector where
  "SyncDuration = \<lparr>co_Name = ''dns_sync_duration_seconds'', co_Help = ''Incremental PG sync latency in seconds.'',
     co_kind = Histogram [1 / 100, 5 / 100, 1 / 10, 5 / 10, 1, 5, 10], co_labels = []\<rparr>"

definition SyncLastSuccess :: collector where
  "SyncLastSuccess = \<lparr>co_Name = ''dns_sync_last_success_timestamp_seconds'',
     co_Help = ''Unix timestamp of the last successful incremental PG sync.'', co_kind = Gauge, co_labels = []\<rparr>"

text \<open>In the order of their declarations, in which they are registered.\<close>

definition registered :: "collector list" where
  "registered = [DNSQueriesTotal, DNSQueryDuration, SyncTotal, SyncDuration, SyncLastSuccess]"

lemmas collector_defs = DNSQueriesTotal_def DNSQueryDuration_def SyncTotal_def SyncDuration_def SyncLastSuccess_def

section \<open>Reports\<close>

datatype report =
    Inc collector "string list"
  | Observe collector "string list" rat
  | SetToCurrentTime collector

text \<open>At the end of a query, with the labels of its counter and the time since its start.\<close>

definition query_reports :: "'w ServeResult \<Rightarrow> rat \<Rightarrow> report list" where
  "query_reports res elapsed =
     concat (map (\<lambda>(qtypeStr, rcode). [Inc DNSQueriesTotal [qtypeStr, rcode], Observe DNSQueryDuration [qtypeStr] elapsed]) (sr_metrics res))"

text \<open>At the end of a load.\<close>

definition sync_reports :: "pg_error option \<Rightarrow> rat \<Rightarrow> report list" where
  "sync_reports e elapsed =
     (case e of
        Some e \<Rightarrow> [Inc SyncTotal [''error'']]
      | None \<Rightarrow> [Inc SyncTotal [''success''], Observe SyncDuration [] elapsed, SetToCurrentTime SyncLastSuccess])"

text \<open>What the library takes without a panic.\<close>

fun accepted :: "collector list \<Rightarrow> report \<Rightarrow> bool" where
  "accepted cs (Inc c vs) = (c \<in> set cs \<and> co_kind c = Counter \<and> length vs = length (co_labels c))"
| "accepted cs (Observe c vs x) = (c \<in> set cs \<and> (\<exists>bs. co_kind c = Histogram bs) \<and> length vs = length (co_labels c))"
| "accepted cs (SetToCurrentTime c) = (c \<in> set cs \<and> co_kind c = Gauge \<and> co_labels c = [])"

definition registrable :: "collector list \<Rightarrow> bool" where
  "registrable cs \<longleftrightarrow> distinct (map co_Name cs) \<and> (\<forall>c \<in> set cs. distinct (co_labels c) \<and>
     (case co_kind c of Histogram bs \<Rightarrow> sorted_wrt (<) bs | _ \<Rightarrow> True))"

lemma registered_ok: "registrable registered"
  by (simp add: registrable_def registered_def collector_defs)

lemma query_reports_accepted: "rep \<in> set (query_reports res elapsed) \<Longrightarrow> accepted registered rep"
  by (auto simp: query_reports_def registered_def collector_defs)

lemma sync_reports_accepted: "rep \<in> set (sync_reports e elapsed) \<Longrightarrow> accepted registered rep"
  by (auto simp: sync_reports_def registered_def collector_defs split: option.splits)

text \<open>An ordinary query that is answered is counted once, with the code of the answer.\<close>

lemma query_counted:
  assumes "ServeDNS L H intn u wr tcp ord obs w r = Returns res" and "m_Question r = q # qs"
    and "q_Qtype q \<noteq> TypeAXFR" and "q_Qtype q \<noteq> TypeIXFR"
  shows "\<exists>m. sr_written res = [m] \<and> query_reports res elapsed =
    [Inc DNSQueriesTotal [TypeToString L (q_Qtype q), RcodeToString L (m_Rcode m)], Observe DNSQueryDuration [TypeToString L (q_Qtype q)] elapsed]"
  using assms by (auto simp: ServeDNS_def query_reports_def Let_def bind_outcome_Returns split: prod.splits)

text \<open>The counters of the syncer are the reports to \<open>SyncTotal\<close>.\<close>

lemma doSync_end_counts:
  "ps_success (doSync_end q e y) = ps_success y + count_list (sync_reports e elapsed) (Inc SyncTotal [''success''])"
  "ps_error (doSync_end q e y) = ps_error y + count_list (sync_reports e elapsed) (Inc SyncTotal [''error''])"
  by (simp_all add: doSync_end_def sync_reports_def split: option.split)

end
