(* ===== verification/Record_Store.thy ===== *)
theory Record_Store
  imports PG_Store
begin

text \<open>
  The \<^verbatim>\<open>RecordStore\<close> interface of \<^verbatim>\<open>internal/iface/iface.go\<close>: the persistence layer as the HTTP API
  sees it, a dictionary of methods on a state \<open>'d\<close>, the contract the API relies on, and the PostgreSQL
  store as its implementation. What the environment decides in a call of the PostgreSQL store (fates of
  the statements, times, scan orders) is a \<open>pg_env\<close>.
\<close>

record 'd RecordStore =
  CreateZone_m :: "'d \<Rightarrow> string \<Rightarrow> (pg_error + ZoneMeta \<times> bool) \<times> 'd"
  GetZone_m :: "'d \<Rightarrow> string \<Rightarrow> pg_error + ZoneMeta"
  SoftDeleteZone_m :: "'d \<Rightarrow> string \<Rightarrow> pg_error option \<times> 'd"
  ListZones_m :: "'d \<Rightarrow> pg_error + ZoneMeta list"
  CreateRecord_m :: "'d \<Rightarrow> int \<Rightarrow> Record \<Rightarrow> (pg_error + Record \<times> bool) \<times> 'd"
  UpdateRecord_m :: "'d \<Rightarrow> int \<Rightarrow> int \<Rightarrow> Record \<Rightarrow> (pg_error + Record) \<times> 'd"
  SoftDeleteRecord_m :: "'d \<Rightarrow> int \<Rightarrow> int \<Rightarrow> pg_error option \<times> 'd"
  ListRecords_m :: "'d \<Rightarrow> string \<Rightarrow> pg_error + Record list"

definition known_type :: "mdns_lib \<Rightarrow> u16 \<Rightarrow> bool" where
  "known_type L t \<longleftrightarrow> TypeToString L t \<noteq> '''' \<and> StringToType L (TypeToString L t) = Some t"

text \<open>
  The contract: a zone is found under the name asked for; a record that was created or updated comes
  back with a positive identifier (the one given, for an update) and the owner name, type and value that
  were written, and with the TTL and weight written unless it existed already; every call keeps the
  invariant.
\<close>

locale record_store =
  fixes R :: "'d RecordStore" and dinv :: "'d \<Rightarrow> bool" and L :: mdns_lib
  assumes get_zone: "dinv d \<Longrightarrow> GetZone_m R d apex = Inr m \<Longrightarrow> zm_Name m = apex"
    and create_zone_inv: "dinv d \<Longrightarrow> dinv (snd (CreateZone_m R d apex))"
    and create_zone_name: "dinv d \<Longrightarrow> fst (CreateZone_m R d apex) = Inr (m, b) \<Longrightarrow> zm_Name m = apex"
    and delete_zone_inv: "dinv d \<Longrightarrow> dinv (snd (SoftDeleteZone_m R d apex))"
    and create_record_inv: "dinv d \<Longrightarrow> dinv (snd (CreateRecord_m R d zid rec))"
    and create_record: "dinv d \<Longrightarrow> known_type L (r_Type rec) \<Longrightarrow> fst (CreateRecord_m R d zid rec) = Inr (out, b) \<Longrightarrow>
      0 < r_ID out \<and> r_Name out = r_Name rec \<and> r_Type out = r_Type rec \<and> r_Value out = r_Value rec \<and>
      (b \<longrightarrow> r_TTL out = r_TTL rec \<and> r_Weight out = r_Weight rec)"
    and update_record_inv: "dinv d \<Longrightarrow> dinv (snd (UpdateRecord_m R d zid rid rec))"
    and update_record: "dinv d \<Longrightarrow> known_type L (r_Type rec) \<Longrightarrow> fst (UpdateRecord_m R d zid rid rec) = Inr out \<Longrightarrow>
      0 < rid \<and> r_ID out = rid \<and> r_Name out = r_Name rec \<and> r_Type out = r_Type rec \<and> r_Value out = r_Value rec \<and>
      r_TTL out = r_TTL rec \<and> r_Weight out = r_Weight rec"
    and delete_record_inv: "dinv d \<Longrightarrow> dinv (snd (SoftDeleteRecord_m R d zid rid))"

section \<open>The PostgreSQL store as a record store\<close>

record pg_env =
  pe_now :: int
  pe_createZone :: "nat \<Rightarrow> fate"
  pe_getZone :: fate
  pe_deleteZone :: fate
  pe_listZones :: "fate \<times> nat option"
  pe_createRecord :: "nat \<Rightarrow> fate"
  pe_updateRecord :: fate
  pe_deleteRecord :: fate
  pe_listRecords :: "fate \<times> nat option"
  pe_collation :: "string \<Rightarrow> string \<Rightarrow> bool"
  pe_zscan :: "zone_row list \<Rightarrow> zone_row list"
  pe_rscan :: "rec_row list \<Rightarrow> rec_row list"

definition PG_iface :: "mdns_lib \<Rightarrow> pg_env \<Rightarrow> DB RecordStore" where
  "PG_iface L E = \<lparr>CreateZone_m = CreateZone (pe_createZone E) (pe_now E), GetZone_m = GetZone (pe_getZone E),
     SoftDeleteZone_m = SoftDeleteZone (pe_deleteZone E) (pe_now E),
     ListZones_m = ListZones (fst (pe_listZones E)) (snd (pe_listZones E)) (pe_collation E) (pe_zscan E),
     CreateRecord_m = CreateRecord L (pe_createRecord E) (pe_now E),
     UpdateRecord_m = UpdateRecord L (pe_updateRecord E) (pe_now E),
     SoftDeleteRecord_m = SoftDeleteRecord (pe_deleteRecord E) (pe_now E),
     ListRecords_m = ListRecords L (fst (pe_listRecords E)) (snd (pe_listRecords E)) (pe_collation E) (pe_rscan E)\<rparr>"

lemma PG_iface_simps [simp]:
  "CreateZone_m (PG_iface L E) = CreateZone (pe_createZone E) (pe_now E)"
  "GetZone_m (PG_iface L E) = GetZone (pe_getZone E)"
  "SoftDeleteZone_m (PG_iface L E) = SoftDeleteZone (pe_deleteZone E) (pe_now E)"
  "ListZones_m (PG_iface L E) = ListZones (fst (pe_listZones E)) (snd (pe_listZones E)) (pe_collation E) (pe_zscan E)"
  "CreateRecord_m (PG_iface L E) = CreateRecord L (pe_createRecord E) (pe_now E)"
  "UpdateRecord_m (PG_iface L E) = UpdateRecord L (pe_updateRecord E) (pe_now E)"
  "SoftDeleteRecord_m (PG_iface L E) = SoftDeleteRecord (pe_deleteRecord E) (pe_now E)"
  "ListRecords_m (PG_iface L E) = ListRecords L (fst (pe_listRecords E)) (snd (pe_listRecords E)) (pe_collation E) (pe_rscan E)"
  by (simp_all add: PG_iface_def)

lemma typeOf_typeName: "known_type L t \<Longrightarrow> typeOf L (typeName L t) = t"
  by (simp add: known_type_def typeOf_def typeName_def)

lemma scan_record_fields:
  assumes "scan_record L row = Inr out"
  shows "r_ID out = rr_id row" "r_Name out = rr_name row" "r_Type out = typeOf L (rr_type row)"
    "r_Value out = rr_value row" "r_TTL out = word_of_int (rr_ttl row)" "r_Weight out = rr_weight row"
  using assms by (auto simp: scan_record_def Let_def split: if_splits sum.splits)

lemma run_stmt_Inr: "run_stmt fate f db = (Inr x, db') \<Longrightarrow> f db = (Inr x, db')"
  by (cases fate) (simp_all add: run_stmt_def)

lemma run_stmt_ErrNoRows: "run_stmt fate f db = (Inl ErrNoRows, db') \<Longrightarrow> f db = (Inl ErrNoRows, db')"
  by (cases fate) (simp_all add: run_stmt_def)

lemma GetZone_Inr:
  "GetZone fate db apex = Inr m \<Longrightarrow> zm_Name m = apex \<and> (\<exists>z \<in> set (db_zones db). active_zone apex z \<and> zr_id z = zm_ID m)"
proof -
  assume "GetZone fate db apex = Inr m"
  then obtain db' where "run_stmt fate (select_zone apex) db = (Inr m, db')"
    by (cases "run_stmt fate (select_zone apex) db") (auto simp: GetZone_def split: sum.splits if_splits)
  then have "select_zone apex db = (Inr m, db')" by (rule run_stmt_Inr)
  then obtain z zs where f: "filter (active_zone apex) (db_zones db) = z # zs" "m = \<lparr>zm_ID = zr_id z, zm_Name = zr_name z\<rparr>"
    by (auto simp: select_zone_def split: if_splits list.splits)
  have "z \<in> set (filter (active_zone apex) (db_zones db))" unfolding f(1) by simp
  then have "z \<in> set (db_zones db) \<and> active_zone apex z" by simp
  then show ?thesis using f(2) by (auto simp: active_zone_def)
qed

lemma CreateZone_Inr: "fst (CreateZone fate now db name) = Inr (m, b) \<Longrightarrow> zm_Name m = name"
  by (auto simp: CreateZone_def split: prod.splits sum.splits if_splits)

lemma recs_pos: "db_wf db \<Longrightarrow> r \<in> set (db_records db) \<Longrightarrow> 0 < rr_id r"
  by (auto simp: db_wf_def recs_wf_def)

lemma db_wf_rseq: "db_wf db \<Longrightarrow> 0 < db_rseq db"
  by (simp add: db_wf_def recs_wf_def)

text \<open>Where the record that \<open>CreateRecord\<close> returns comes from: the new row, or the active row with the
  same owner name, type and value.\<close>

lemma CreateRecord_row:
  assumes "db_wf db" and "fst (CreateRecord L fate now db zid rec) = Inr (out, b)"
  obtains row where "scan_record L row = Inr out" "0 < rr_id row" "rr_name row = r_Name rec"
    "rr_type row = typeName L (r_Type rec)" "rr_value row = r_Value rec"
    "b \<Longrightarrow> rr_ttl row = uint (r_TTL rec) \<and> rr_weight row = r_Weight rec"
    "row \<in> set (db_records (snd (CreateRecord L fate now db zid rec)))" "rr_zone row = zid" "rr_deleted row = None"
proof -
  let ?ins = "insert_record now zid (r_Name rec) (typeName L (r_Type rec)) (uint (r_TTL rec)) (r_Value rec) (r_Weight rec)"
  let ?sel = "select_record zid (r_Name rec) (typeName L (r_Type rec)) (r_Value rec)"
  obtain res db1 where r: "run_stmt (fate 0) ?ins db = (res, db1)" by fastforce
  show ?thesis
  proof (cases res)
    case (Inr row)
    then have ins: "?ins db = (Inr row, db1)" using r run_stmt_Inr by metis
    have out: "scan_record L row = Inr out" "b" using assms(2) r Inr by (auto simp: CreateRecord_def Let_def split: sum.splits)
    have db': "snd (CreateRecord L fate now db zid rec) = db1" using out r Inr by (simp add: CreateRecord_def Let_def)
    show ?thesis
    proof (cases rule: insert_record_cases [of now zid "r_Name rec" "typeName L (r_Type rec)" "uint (r_TTL rec)" "r_Value rec" "r_Weight rec" db])
      case (inserted row')
      then have "row = row'" using ins by simp
      moreover have "row' \<in> set (db_records db1)" using ins inserted(6) by auto
      ultimately show ?thesis using out inserted(5) db' db_wf_rseq [OF assms(1)] by (intro that [of row]) simp_all
    qed (use ins in \<open>simp_all\<close>)
  next
    case (Inl e)
    then have e: "e = ErrNoRows" using assms(2) r by (auto simp: CreateRecord_def Let_def split: sum.splits prod.splits if_splits)
    have ins: "?ins db = (Inl ErrNoRows, db1)" using r run_stmt_ErrNoRows unfolding Inl e by metis
    have wf: "db_wf db1" using db_wf_insert_record [OF assms(1) uint_ge_0, of now zid] ins by (metis snd_conv)
    obtain res2 db2 where r2: "run_stmt (fate 1) ?sel db1 = (res2, db2)" by fastforce
    then obtain row where row: "res2 = Inr row" "scan_record L row = Inr out" "\<not> b"
      using assms(2) r Inl e by (cases res2) (auto simp: CreateRecord_def Let_def split: sum.splits)
    have sel: "?sel db1 = (Inr row, db2)" using r2 run_stmt_Inr unfolding row(1) by metis
    then have "db2 = db1" using select_record_state [of zid "r_Name rec" "typeName L (r_Type rec)" "r_Value rec" db1] by simp
    then have db': "snd (CreateRecord L fate now db zid rec) = db1" using r Inl e r2 row by (simp add: CreateRecord_def Let_def)
    from sel obtain rs where "filter (same_rrset zid (r_Name rec) (typeName L (r_Type rec)) (r_Value rec)) (db_records db1) = row # rs"
      by (auto simp: select_record_def split: if_splits list.splits)
    then have "row \<in> set (filter (same_rrset zid (r_Name rec) (typeName L (r_Type rec)) (r_Value rec)) (db_records db1))" by simp
    then have "row \<in> set (db_records db1)" "active_key row = Some (zid, r_Name rec, typeName L (r_Type rec), r_Value rec)"
      by (simp_all add: same_rrset_def)
    then show ?thesis using row db' recs_pos [OF wf] by (intro that [of row]) (auto simp: active_key_def split: if_splits)
  qed
qed

lemma UpdateRecord_row:
  assumes "db_wf db" and "fst (UpdateRecord L fate now db zid rid rec) = Inr out"
  obtains row where "scan_record L row = Inr out" "0 < rid" "rr_id row = rid" "rr_name row = r_Name rec"
    "rr_type row = typeName L (r_Type rec)" "rr_value row = r_Value rec" "rr_ttl row = uint (r_TTL rec)"
    "rr_weight row = r_Weight rec"
    "row \<in> set (db_records (snd (UpdateRecord L fate now db zid rid rec)))" "rr_zone row = zid" "rr_deleted row = None"
proof -
  let ?upd = "update_record now rid zid (r_Name rec) (typeName L (r_Type rec)) (uint (r_TTL rec)) (r_Value rec) (r_Weight rec)"
  obtain res db1 where r: "run_stmt fate ?upd db = (res, db1)" by fastforce
  then obtain row where row: "res = Inr row" "scan_record L row = Inr out"
    using assms(2) by (cases res) (auto simp: UpdateRecord_def)
  then have upd: "?upd db = (Inr row, db1)" using r run_stmt_Inr by metis
  show ?thesis
  proof (cases rule: update_record_cases [of now rid zid "r_Name rec" "typeName L (r_Type rec)" "uint (r_TTL rec)" "r_Value rec" "r_Weight rec" db])
    case (same e)
    then show ?thesis using upd by simp
  next
    case (changed r)
    then have "row = stamp_record db now (set_fields (r_Name rec) (typeName L (r_Type rec)) (uint (r_TTL rec)) (r_Value rec) (r_Weight rec) r)"
      using upd by simp
    moreover have "db_records db1 = map (\<lambda>x. if rr_id x = rid \<and> rr_zone x = zid then row else x) (db_records db)"
      using upd changed(7) by auto
    then have "row \<in> set (db_records db1)" using changed(1-3) by force
    moreover have "snd (UpdateRecord L fate now db zid rid rec) = db1" using r row by (simp add: UpdateRecord_def)
    ultimately show ?thesis using row changed(2,3) recs_pos [OF assms(1) changed(1)] by (intro that [of row]) simp_all
  qed
qed

interpretation pg: record_store "PG_iface L E" db_wf L for L E
proof unfold_locales
  fix d zid rec out b
  assume "db_wf d" "known_type L (r_Type rec)" "fst (CreateRecord_m (PG_iface L E) d zid rec) = Inr (out, b)"
  then obtain row where row: "scan_record L row = Inr out" "0 < rr_id row" "rr_name row = r_Name rec"
    "rr_type row = typeName L (r_Type rec)" "rr_value row = r_Value rec"
    "b \<Longrightarrow> rr_ttl row = uint (r_TTL rec) \<and> rr_weight row = r_Weight rec"
    using CreateRecord_row [of d L "pe_createRecord E" "pe_now E" zid rec out b] by auto
  note f = scan_record_fields [OF row(1)]
  show "0 < r_ID out \<and> r_Name out = r_Name rec \<and> r_Type out = r_Type rec \<and> r_Value out = r_Value rec \<and>
      (b \<longrightarrow> r_TTL out = r_TTL rec \<and> r_Weight out = r_Weight rec)"
    using f row(2-6) typeOf_typeName [OF \<open>known_type L (r_Type rec)\<close>] by simp
next
  fix d zid rid rec out
  assume "db_wf d" "known_type L (r_Type rec)" "fst (UpdateRecord_m (PG_iface L E) d zid rid rec) = Inr out"
  then obtain row where row: "scan_record L row = Inr out" "0 < rid" "rr_id row = rid" "rr_name row = r_Name rec"
    "rr_type row = typeName L (r_Type rec)" "rr_value row = r_Value rec" "rr_ttl row = uint (r_TTL rec)"
    "rr_weight row = r_Weight rec"
    using UpdateRecord_row [of d L "pe_updateRecord E" "pe_now E" zid rid rec out] by auto
  note f = scan_record_fields [OF row(1)]
  show "0 < rid \<and> r_ID out = rid \<and> r_Name out = r_Name rec \<and> r_Type out = r_Type rec \<and> r_Value out = r_Value rec \<and>
      r_TTL out = r_TTL rec \<and> r_Weight out = r_Weight rec"
    using f row(2-8) typeOf_typeName [OF \<open>known_type L (r_Type rec)\<close>] by simp
qed (simp_all add: GetZone_Inr CreateZone_Inr db_wf_CreateZone db_wf_SoftDeleteZone db_wf_CreateRecord db_wf_UpdateRecord db_wf_SoftDeleteRecord)

end
