(* ===== verification/API_Server.thy ===== *)
theory API_Server
  imports Record_Store PG_Load
begin

text \<open>
  \<^verbatim>\<open>internal/api\<close>: the handlers of the HTTP API, generic in the record store they write to and the
  zone store they mirror each write into. A request is what gin hands to the handler: the path
  parameters and the outcome of binding the body. The other goroutines of the process (requests, the
  sync loop) run between the calls a handler makes: what they do to the database between its two calls,
  and to the zone store before its write, is the argument \<open>O\<close>. An error in a body is a value here, and
  its text in the code.
\<close>

section \<open>Requests and responses\<close>

record createDomainReq =
  cq_Name :: string

record domainResp =
  ds_ID :: int
  ds_Name :: string

record recordReq =
  rq_Name :: string
  rq_Type :: string
  rq_TTL :: u32
  rq_Value :: string
  rq_Weight :: int

record recordResp =
  rs_ID :: int
  rs_Name :: string
  rs_Type :: string
  rs_TTL :: u32
  rs_Value :: string
  rs_Weight :: int

datatype api_error =
    BindError string
  | UnknownType string
  | InvalidRdata string
  | InvalidRecordID
  | NoSuchZone string
  | StoreError pg_error

datatype body =
    ErrorBody api_error
  | DomainsBody "domainResp list"
  | DomainBody domainResp
  | RecordsBody "recordResp list"
  | RecordBody recordResp
  | HealthBody string
  | MetricsBody
  | NoBody

type_synonym response = "nat \<times> body"

record ('d, 's) Server =
  srv_pg :: "'d RecordStore"
  srv_store :: "'s ZoneStore"

record ('d, 's) others =
  ot_db :: "'d \<Rightarrow> 'd"
  ot_store :: "'s \<Rightarrow> 's"

definition jsonError :: "nat \<Rightarrow> api_error \<Rightarrow> response" where
  "jsonError status err = (status, ErrorBody err)"

definition toResp :: "mdns_lib \<Rightarrow> Record \<Rightarrow> recordResp" where
  "toResp L r = \<lparr>rs_ID = r_ID r, rs_Name = r_Name r, rs_Type = TypeToString L (r_Type r), rs_TTL = r_TTL r,
     rs_Value = r_Value r, rs_Weight = r_Weight r\<rparr>"

section \<open>Domains\<close>

definition listDomains :: "('d, 's) Server \<Rightarrow> 'd \<times> 's \<Rightarrow> response \<times> 'd \<times> 's" where
  "listDomains srv ds =
     (case ListZones_m (srv_pg srv) (fst ds) of
        Inl err \<Rightarrow> (jsonError 500 (StoreError err), ds)
      | Inr zs \<Rightarrow> ((200, DomainsBody (map (\<lambda>z. \<lparr>ds_ID = zm_ID z, ds_Name = zm_Name z\<rparr>) zs)), ds))"

definition createDomain :: "('d, 's) Server \<Rightarrow> ('d, 's) others \<Rightarrow> string + createDomainReq \<Rightarrow> 'd \<times> 's \<Rightarrow>
    response \<times> 'd \<times> 's" where
  "createDomain srv others bound ds =
     (case bound of
        Inl err \<Rightarrow> (jsonError 400 (BindError err), ds)
      | Inr req \<Rightarrow>
          (let apex = FQDN (cq_Name req) in
           case CreateZone_m (srv_pg srv) (fst ds) apex of
             (Inl err, d) \<Rightarrow> (jsonError 500 (StoreError err), d, snd ds)
           | (Inr (meta, created), d) \<Rightarrow>
               (let s = snd (Update_m (srv_store srv) (ot_store others (snd ds))
                      \<lparr>z_Name = apex, z_Records = fmempty, z_SOA = None\<rparr>);
                    status = (if \<not> created then 200 else 201)
                in ((status, DomainBody \<lparr>ds_ID = zm_ID meta, ds_Name = zm_Name meta\<rparr>), d, s))))"

definition deleteDomain :: "('d, 's) Server \<Rightarrow> ('d, 's) others \<Rightarrow> string \<Rightarrow> 'd \<times> 's \<Rightarrow> response \<times> 'd \<times> 's" where
  "deleteDomain srv others domain ds =
     (let apex = FQDN domain in
      case SoftDeleteZone_m (srv_pg srv) (fst ds) apex of
        (Some err, d) \<Rightarrow>
          if err = ErrNotFound then (jsonError 404 (StoreError err), d, snd ds)
          else (jsonError 500 (StoreError err), d, snd ds)
      | (None, d) \<Rightarrow> ((204, NoBody), d, snd (Delete_m (srv_store srv) (ot_store others (snd ds)) apex)))"

section \<open>Records\<close>

definition listRecords :: "mdns_lib \<Rightarrow> ('d, 's) Server \<Rightarrow> string \<Rightarrow> 'd \<times> 's \<Rightarrow> response \<times> 'd \<times> 's" where
  "listRecords L srv domain ds =
     (let apex = FQDN domain in
      case ListRecords_m (srv_pg srv) (fst ds) apex of
        Inl err \<Rightarrow> (jsonError 500 (StoreError err), ds)
      | Inr recs \<Rightarrow> ((200, RecordsBody (map (toResp L) recs)), ds))"

definition createRecord :: "mdns_lib \<Rightarrow> ('d, 's) Server \<Rightarrow> ('d, 's) others \<Rightarrow> string \<Rightarrow> string + recordReq \<Rightarrow> 'd \<times> 's \<Rightarrow>
    response \<times> 'd \<times> 's" where
  "createRecord L srv others domain bound ds =
     (let apex = FQDN domain in
      case bound of
        Inl err \<Rightarrow> (jsonError 400 (BindError err), ds)
      | Inr req \<Rightarrow>
      (case StringToType L (rq_Type req) of
        None \<Rightarrow> (jsonError 400 (UnknownType (rq_Type req)), ds)
      | Some qtype \<Rightarrow>
      (let name = FQDN (rq_Name req);
           rrStr = rrText name (Utoa (unat (rq_TTL req))) (rq_Type req) (rq_Value req) in
       case NewRR L rrStr of
        Inl err \<Rightarrow> (jsonError 400 (InvalidRdata err), ds)
      | Inr rr \<Rightarrow>
      (case GetZone_m (srv_pg srv) (fst ds) apex of
        Inl err \<Rightarrow>
          if err = ErrNotFound then (jsonError 404 (NoSuchZone apex), ds)
          else (jsonError 500 (StoreError err), ds)
      | Inr zone \<Rightarrow>
      (let rec = \<lparr>r_ID = 0, r_Name = name, r_Type = qtype, r_TTL = rq_TTL req, r_Value = rq_Value req,
                  r_Weight = rq_Weight req, r_RR = rr\<rparr> in
       case CreateRecord_m (srv_pg srv) (ot_db others (fst ds)) (zm_ID zone) rec of
        (Inl err, d) \<Rightarrow> (jsonError 500 (StoreError err), d, snd ds)
      | (Inr (created, isNew), d) \<Rightarrow>
          (let s = snd (PutRecord_m (srv_store srv) (ot_store others (snd ds)) apex created);
               status = (if \<not> isNew then 200 else 201)
           in ((status, RecordBody (toResp L created)), d, s)))))))"

definition updateRecord :: "mdns_lib \<Rightarrow> ('d, 's) Server \<Rightarrow> ('d, 's) others \<Rightarrow> string \<Rightarrow> string \<Rightarrow> string + recordReq \<Rightarrow>
    'd \<times> 's \<Rightarrow> response \<times> 'd \<times> 's" where
  "updateRecord L srv others domain idParam bound ds =
     (let apex = FQDN domain in
      case ParseInt idParam of
        Inl err \<Rightarrow> (jsonError 400 InvalidRecordID, ds)
      | Inr rid \<Rightarrow>
      (case bound of
        Inl err \<Rightarrow> (jsonError 400 (BindError err), ds)
      | Inr req \<Rightarrow>
      (case StringToType L (rq_Type req) of
        None \<Rightarrow> (jsonError 400 (UnknownType (rq_Type req)), ds)
      | Some qtype \<Rightarrow>
      (let name = FQDN (rq_Name req);
           rrStr = rrText name (Utoa (unat (rq_TTL req))) (rq_Type req) (rq_Value req) in
       case NewRR L rrStr of
        Inl err \<Rightarrow> (jsonError 400 (InvalidRdata err), ds)
      | Inr rr \<Rightarrow>
      (case GetZone_m (srv_pg srv) (fst ds) apex of
        Inl err \<Rightarrow>
          if err = ErrNotFound then (jsonError 404 (NoSuchZone apex), ds)
          else (jsonError 500 (StoreError err), ds)
      | Inr zone \<Rightarrow>
      (let rec = \<lparr>r_ID = rid, r_Name = name, r_Type = qtype, r_TTL = rq_TTL req, r_Value = rq_Value req,
                  r_Weight = rq_Weight req, r_RR = rr\<rparr> in
       case UpdateRecord_m (srv_pg srv) (ot_db others (fst ds)) (zm_ID zone) rid rec of
        (Inl err, d) \<Rightarrow>
          if err = ErrNotFound then (jsonError 404 (StoreError err), d, snd ds)
          else if err = ErrConflict then (jsonError 409 (StoreError err), d, snd ds)
          else (jsonError 500 (StoreError err), d, snd ds)
      | (Inr updated, d) \<Rightarrow>
          (let s = snd (PutRecord_m (srv_store srv) (ot_store others (snd ds)) apex updated)
           in ((200, RecordBody (toResp L updated)), d, s))))))))"

definition deleteRecord :: "('d, 's) Server \<Rightarrow> ('d, 's) others \<Rightarrow> string \<Rightarrow> string \<Rightarrow> 'd \<times> 's \<Rightarrow> response \<times> 'd \<times> 's" where
  "deleteRecord srv others domain idParam ds =
     (let apex = FQDN domain in
      case ParseInt idParam of
        Inl err \<Rightarrow> (jsonError 400 InvalidRecordID, ds)
      | Inr rid \<Rightarrow>
      (case GetZone_m (srv_pg srv) (fst ds) apex of
        Inl err \<Rightarrow>
          if err = ErrNotFound then (jsonError 404 (NoSuchZone apex), ds)
          else (jsonError 500 (StoreError err), ds)
      | Inr zone \<Rightarrow>
      (case SoftDeleteRecord_m (srv_pg srv) (ot_db others (fst ds)) (zm_ID zone) rid of
        (Some err, d) \<Rightarrow>
          if err = ErrNotFound then (jsonError 404 (StoreError err), d, snd ds)
          else (jsonError 500 (StoreError err), d, snd ds)
      | (None, d) \<Rightarrow>
          ((204, NoBody), d, snd (DropRecord_m (srv_store srv) (ot_store others (snd ds)) apex rid)))))"

section \<open>Routes\<close>

definition healthz :: "'d \<times> 's \<Rightarrow> response \<times> 'd \<times> 's" where
  "healthz ds = ((200, HealthBody ''ok''), ds)"

text \<open>A request to one of the registered routes, with its path parameters and bound body.\<close>

datatype route =
    GET_domains
  | POST_domains "string + createDomainReq"
  | DELETE_domain string
  | GET_records string
  | POST_records string "string + recordReq"
  | PUT_record string string "string + recordReq"
  | DELETE_record string string
  | GET_metrics
  | GET_healthz

primrec serveAPI :: "mdns_lib \<Rightarrow> ('d, 's) Server \<Rightarrow> ('d, 's) others \<Rightarrow> route \<Rightarrow> 'd \<times> 's \<Rightarrow> response \<times> 'd \<times> 's" where
  "serveAPI L srv others GET_domains ds = listDomains srv ds"
| "serveAPI L srv others (POST_domains bound) ds = createDomain srv others bound ds"
| "serveAPI L srv others (DELETE_domain domain) ds = deleteDomain srv others domain ds"
| "serveAPI L srv others (GET_records domain) ds = listRecords L srv domain ds"
| "serveAPI L srv others (POST_records domain bound) ds = createRecord L srv others domain bound ds"
| "serveAPI L srv others (PUT_record domain idParam bound) ds = updateRecord L srv others domain idParam bound ds"
| "serveAPI L srv others (DELETE_record domain idParam) ds = deleteRecord srv others domain idParam ds"
| "serveAPI L srv others GET_metrics ds = ((200, MetricsBody), ds)"
| "serveAPI L srv others GET_healthz ds = healthz ds"

section \<open>What a client of the API can rely on\<close>

lemmas handler_defs = listDomains_def createDomain_def deleteDomain_def listRecords_def createRecord_def
  updateRecord_def deleteRecord_def healthz_def jsonError_def Let_def

text \<open>
  The outcomes of the handlers that write: rejected before the write, failed in the write, or done, with
  the record or zone mirrored into the zone store.
\<close>

abbreviation reqRecord :: "int \<Rightarrow> recordReq \<Rightarrow> u16 \<Rightarrow> RR option \<Rightarrow> Record" where
  "reqRecord rid req qtype rr \<equiv> \<lparr>r_ID = rid, r_Name = FQDN (rq_Name req), r_Type = qtype, r_TTL = rq_TTL req,
     r_Value = rq_Value req, r_Weight = rq_Weight req, r_RR = rr\<rparr>"

abbreviation reqText :: "recordReq \<Rightarrow> string" where
  "reqText req \<equiv> rrText (FQDN (rq_Name req)) (Utoa (unat (rq_TTL req))) (rq_Type req) (rq_Value req)"

lemma createRecord_cases:
  assumes "createRecord L srv others domain bound (d, s) = ((st, bd), d', s')"
  obtains (rejected) err where "st \<in> {400, 404, 500}" "bd = ErrorBody err" "d' = d" "s' = s"
  | (failed) req qtype rr zone err where "bound = Inr req" "StringToType L (rq_Type req) = Some qtype"
      "NewRR L (reqText req) = Inr rr" "GetZone_m (srv_pg srv) d (FQDN domain) = Inr zone"
      "CreateRecord_m (srv_pg srv) (ot_db others d) (zm_ID zone) (reqRecord 0 req qtype rr) = (Inl err, d')"
      "st = 500" "bd = ErrorBody (StoreError err)" "s' = s"
  | (stored) req qtype rr zone rec isNew where "bound = Inr req" "StringToType L (rq_Type req) = Some qtype"
      "NewRR L (reqText req) = Inr rr" "GetZone_m (srv_pg srv) d (FQDN domain) = Inr zone"
      "CreateRecord_m (srv_pg srv) (ot_db others d) (zm_ID zone) (reqRecord 0 req qtype rr) = (Inr (rec, isNew), d')"
      "st = 200 \<and> \<not> isNew \<or> st = 201 \<and> isNew" "bd = RecordBody (toResp L rec)"
      "s' = snd (PutRecord_m (srv_store srv) (ot_store others s) (FQDN domain) rec)"
  using assms by (auto simp: handler_defs split: option.splits sum.splits prod.splits if_splits)

lemma updateRecord_cases:
  assumes "updateRecord L srv others domain i bound (d, s) = ((st, bd), d', s')"
  obtains (rejected) err where "st \<in> {400, 404, 500}" "bd = ErrorBody err" "d' = d" "s' = s"
  | (failed) rid req qtype rr zone err where "ParseInt i = Inr rid" "bound = Inr req" "StringToType L (rq_Type req) = Some qtype"
      "NewRR L (reqText req) = Inr rr" "GetZone_m (srv_pg srv) d (FQDN domain) = Inr zone"
      "UpdateRecord_m (srv_pg srv) (ot_db others d) (zm_ID zone) rid (reqRecord rid req qtype rr) = (Inl err, d')"
      "st = (if err = ErrNotFound then 404 else if err = ErrConflict then 409 else 500)" "bd = ErrorBody (StoreError err)" "s' = s"
  | (stored) rid req qtype rr zone rec where "ParseInt i = Inr rid" "bound = Inr req" "StringToType L (rq_Type req) = Some qtype"
      "NewRR L (reqText req) = Inr rr" "GetZone_m (srv_pg srv) d (FQDN domain) = Inr zone"
      "UpdateRecord_m (srv_pg srv) (ot_db others d) (zm_ID zone) rid (reqRecord rid req qtype rr) = (Inr rec, d')"
      "st = 200" "bd = RecordBody (toResp L rec)"
      "s' = snd (PutRecord_m (srv_store srv) (ot_store others s) (FQDN domain) rec)"
  using assms by (auto simp: handler_defs split: option.splits sum.splits prod.splits if_splits)

lemma deleteRecord_cases:
  assumes "deleteRecord srv others domain i (d, s) = ((st, bd), d', s')"
  obtains (rejected) err where "st \<in> {400, 404, 500}" "bd = ErrorBody err" "d' = d" "s' = s"
  | (failed) rid zone err where "ParseInt i = Inr rid" "GetZone_m (srv_pg srv) d (FQDN domain) = Inr zone"
      "SoftDeleteRecord_m (srv_pg srv) (ot_db others d) (zm_ID zone) rid = (Some err, d')"
      "st = (if err = ErrNotFound then 404 else 500)" "bd = ErrorBody (StoreError err)" "s' = s"
  | (dropped) rid zone where "ParseInt i = Inr rid" "GetZone_m (srv_pg srv) d (FQDN domain) = Inr zone"
      "SoftDeleteRecord_m (srv_pg srv) (ot_db others d) (zm_ID zone) rid = (None, d')" "st = 204" "bd = NoBody"
      "s' = snd (DropRecord_m (srv_store srv) (ot_store others s) (FQDN domain) rid)"
  using assms by (auto simp: handler_defs split: option.splits sum.splits prod.splits if_splits)

lemma createDomain_cases:
  assumes "createDomain srv others bound (d, s) = ((st, bd), d', s')"
  obtains (rejected) err where "bound = Inl err" "st = 400" "bd = ErrorBody (BindError err)" "d' = d" "s' = s"
  | (failed) req err where "bound = Inr req" "CreateZone_m (srv_pg srv) d (FQDN (cq_Name req)) = (Inl err, d')"
      "st = 500" "bd = ErrorBody (StoreError err)" "s' = s"
  | (stored) req meta created where "bound = Inr req"
      "CreateZone_m (srv_pg srv) d (FQDN (cq_Name req)) = (Inr (meta, created), d')"
      "st = 200 \<and> \<not> created \<or> st = 201 \<and> created" "bd = DomainBody \<lparr>ds_ID = zm_ID meta, ds_Name = zm_Name meta\<rparr>"
      "s' = snd (Update_m (srv_store srv) (ot_store others s) \<lparr>z_Name = FQDN (cq_Name req), z_Records = fmempty, z_SOA = None\<rparr>)"
  using assms by (auto simp: handler_defs split: sum.splits prod.splits if_splits)

lemma deleteDomain_cases:
  assumes "deleteDomain srv others domain (d, s) = ((st, bd), d', s')"
  obtains (failed) err where "SoftDeleteZone_m (srv_pg srv) d (FQDN domain) = (Some err, d')"
      "st = (if err = ErrNotFound then 404 else 500)" "bd = ErrorBody (StoreError err)" "s' = s"
  | (dropped) "SoftDeleteZone_m (srv_pg srv) d (FQDN domain) = (None, d')" "st = 204" "bd = NoBody"
      "s' = snd (Delete_m (srv_store srv) (ot_store others s) (FQDN domain))"
  using assms by (auto simp: handler_defs split: option.splits prod.splits if_splits)

lemma known_typeI: "mdns_ok L \<Longrightarrow> StringToType L s = Some t \<Longrightarrow> s \<noteq> [] \<Longrightarrow> known_type L t \<and> typeName L t = s"
  using mdns_ok_types(1) [of L s t] by (auto simp: known_type_def typeName_def)

text \<open>
  The handlers over any record store and zone store that keep their contracts; \<open>quiet\<close> says that what the
  other goroutines do keeps the invariants of both.
\<close>

definition quiet :: "('d \<Rightarrow> bool) \<Rightarrow> ('s \<Rightarrow> bool) \<Rightarrow> ('d, 's) others \<Rightarrow> bool" where
  "quiet dinv invar others \<longleftrightarrow> (\<forall>d. dinv d \<longrightarrow> dinv (ot_db others d)) \<and> (\<forall>s. invar s \<longrightarrow> invar (ot_store others s))"

locale api_backend = rs: record_store R dinv L + zs: zone_store S invar
  for R :: "'d RecordStore" and dinv L and S :: "'s ZoneStore" and invar
begin

text \<open>What a successful write of a record has put into the zone store.\<close>

lemma write_stored:
  assumes "serveAPI L \<lparr>srv_pg = R, srv_store = S\<rparr> others route (d, s) = ((st, bd), d', s')" and "st < 400"
    and "route = POST_records domain (Inr req) \<or> route = PUT_record domain i (Inr req)"
    and "dinv d" and "quiet dinv invar others" and "mdns_ok L" and "rq_Type req \<noteq> []"
  obtains rec where "bd = RecordBody (toResp L rec)" "s' = snd (PutRecord_m S (ot_store others s) (FQDN domain) rec)"
    "r_Name rec = FQDN (rq_Name req)" "StringToType L (rq_Type req) = Some (r_Type rec)" "r_Value rec = rq_Value req"
    "st = 201 \<or> route = PUT_record domain i (Inr req) \<Longrightarrow> r_TTL rec = rq_TTL req \<and> r_Weight rec = rq_Weight req"
proof -
  have q: "dinv (ot_db others d)" using assms(4,5) by (simp add: quiet_def)
  from assms(3) show ?thesis
  proof
    assume r: "route = POST_records domain (Inr req)"
    then have "createRecord L \<lparr>srv_pg = R, srv_store = S\<rparr> others domain (Inr req) (d, s) = ((st, bd), d', s')" using assms(1) by simp
    then show ?thesis
    proof (cases rule: createRecord_cases)
      case (stored req' qtype rr zone rec isNew)
      have "known_type L qtype" using known_typeI [OF assms(6) stored(2)] stored(1) assms(7) by simp
      then have "r_Name rec = FQDN (rq_Name req) \<and> r_Type rec = qtype \<and> r_Value rec = rq_Value req \<and>
          (isNew \<longrightarrow> r_TTL rec = rq_TTL req \<and> r_Weight rec = rq_Weight req)"
        using rs.create_record [OF q, of "reqRecord 0 req qtype rr" "zm_ID zone" rec isNew] stored(1,5) by simp
      then show ?thesis using stored r by (intro that [of rec]) auto
    qed (use assms(2) in auto)
  next
    assume r: "route = PUT_record domain i (Inr req)"
    then have "updateRecord L \<lparr>srv_pg = R, srv_store = S\<rparr> others domain i (Inr req) (d, s) = ((st, bd), d', s')" using assms(1) by simp
    then show ?thesis
    proof (cases rule: updateRecord_cases)
      case (stored rid req' qtype rr zone rec)
      have "known_type L qtype" using known_typeI [OF assms(6) stored(3)] stored(2) assms(7) by simp
      then have "r_Name rec = FQDN (rq_Name req) \<and> r_Type rec = qtype \<and> r_Value rec = rq_Value req \<and>
          r_TTL rec = rq_TTL req \<and> r_Weight rec = rq_Weight req"
        using rs.update_record [OF q, of "reqRecord rid req qtype rr" "zm_ID zone" rid rec] stored(2,6) by simp
      then show ?thesis using stored by (intro that [of rec]) auto
    qed (use assms(2) in \<open>auto split: if_splits\<close>)
  qed
qed

text \<open>Every request keeps both invariants.\<close>

lemma serveAPI_inv:
  assumes "dinv d" and "invar s" and "quiet dinv invar others"
    and "serveAPI L \<lparr>srv_pg = R, srv_store = S\<rparr> others route (d, s) = (resp, d', s')"
  shows "dinv d' \<and> invar s'"
proof -
  have q: "dinv (ot_db others d)" "invar (ot_store others s)" using assms(1-3) by (simp_all add: quiet_def)
  note k = rs.create_zone_inv [OF assms(1)] rs.delete_zone_inv [OF assms(1)] rs.create_record_inv [OF q(1)]
    rs.update_record_inv [OF q(1)] rs.delete_record_inv [OF q(1)]
    zs.update_invar [OF q(2)] zs.delete_invar [OF q(2)] zs.put_invar [OF q(2)] zs.drop_invar [OF q(2)]
  have z: "zone_wf \<lparr>z_Name = a, z_Records = fmempty, z_SOA = None\<rparr>" for a by (simp add: zone_wf_def)
  obtain st bd where resp: "resp = (st, bd)" by fastforce
  have sv: "serveAPI L \<lparr>srv_pg = R, srv_store = S\<rparr> others route (d, s) = ((st, bd), d', s')" using assms(4) resp by simp
  note sp = arg_cong [where f = snd]
  show ?thesis
  proof (cases route)
    case (POST_domains bound)
    with sv have "createDomain \<lparr>srv_pg = R, srv_store = S\<rparr> others bound (d, s) = ((st, bd), d', s')" by simp
    then show ?thesis
      by (cases rule: createDomain_cases) (use assms(1,2) k(1,6) z in \<open>auto dest!: sp\<close>)
  next
    case (DELETE_domain domain)
    with sv have "deleteDomain \<lparr>srv_pg = R, srv_store = S\<rparr> others domain (d, s) = ((st, bd), d', s')" by simp
    then show ?thesis
      by (cases rule: deleteDomain_cases) (use assms(1,2) k(2,7) in \<open>auto dest!: sp\<close>)
  next
    case (POST_records domain bound)
    with sv have "createRecord L \<lparr>srv_pg = R, srv_store = S\<rparr> others domain bound (d, s) = ((st, bd), d', s')" by simp
    then show ?thesis
      by (cases rule: createRecord_cases) (use assms(1,2) k(3,8) in \<open>auto dest!: sp\<close>)
  next
    case (PUT_record domain i bound)
    with sv have "updateRecord L \<lparr>srv_pg = R, srv_store = S\<rparr> others domain i bound (d, s) = ((st, bd), d', s')" by simp
    then show ?thesis
      by (cases rule: updateRecord_cases) (use assms(1,2) k(4,8) in \<open>auto dest!: sp\<close>)
  next
    case (DELETE_record domain i)
    with sv have "deleteRecord \<lparr>srv_pg = R, srv_store = S\<rparr> others domain i (d, s) = ((st, bd), d', s')" by simp
    then show ?thesis
      by (cases rule: deleteRecord_cases) (use assms(1,2) k(5,9) in \<open>auto dest!: sp\<close>)
  qed (use assms in \<open>auto simp: handler_defs split: sum.splits\<close>)
qed

end

interpretation api: api_backend "PG_iface L E" db_wf L "RWMutexStore_iface ord" store_wf for L E ord
  by unfold_locales

definition alone :: "('d, 's) others" where
  "alone = \<lparr>ot_db = id, ot_store = id\<rparr>"

lemma alone_simps [simp]: "ot_db alone d = d" "ot_store alone s = s" "quiet dinv invar alone"
  by (simp_all add: alone_def quiet_def)

definition demo_pg :: pg_env where
  "demo_pg = \<lparr>pe_now = 8, pe_createZone = (\<lambda>_. Done), pe_getZone = Done, pe_deleteZone = Done, pe_listZones = (Done, None),
     pe_createRecord = (\<lambda>_. Done), pe_updateRecord = Done, pe_deleteRecord = Done, pe_listRecords = (Done, None),
     pe_collation = (\<lambda>_ _. True), pe_zscan = id, pe_rscan = id\<rparr>"

definition demo_server :: "(DB, RWMutexStore) Server" where
  "demo_server = \<lparr>srv_pg = PG_iface demo_lib demo_pg, srv_store = RWMutexStore_iface sorted_range\<rparr>"

text \<open>A database with the constraint that the insertion of records refers to.\<close>

definition demo_arb :: DB where
  "demo_arb = demo_db\<lparr>db_constraints := ''records_unique_active_rrset'' # db_constraints demo_db\<rparr>"

lemma demo_arb_tables: "db_wf demo_arb" "db_zones demo_arb = [\<lparr>zr_id = 1, zr_name = ''b.'', zr_updated = 5, zr_deleted = None\<rparr>]"
  "db_records demo_arb = []" "''records'' \<in> set (db_tables demo_arb)" "''zones'' \<in> set (db_tables demo_arb)"
  "''records_unique_active_rrset'' \<in> set (db_constraints demo_arb)"
  "''records_unique_active_rrset'' \<in> set (db_indexes demo_arb)"
proof -
  show wf: "db_wf demo_arb"
    using db_reachable.arbiter [OF demo_db_reachable [of True]] db_reachable_wf unfolding demo_arb_def by blast
  show "db_zones demo_arb = [\<lparr>zr_id = 1, zr_name = ''b.'', zr_updated = 5, zr_deleted = None\<rparr>]" "db_records demo_arb = []"
    by (simp_all add: demo_arb_def demo_db_tables)
  show "''records'' \<in> set (db_tables demo_arb)" "''zones'' \<in> set (db_tables demo_arb)" "''records_unique_active_rrset'' \<in> set (db_indexes demo_arb)"
    using wf by (simp_all add: db_wf_def schema_ok_simps)
  show "''records_unique_active_rrset'' \<in> set (db_constraints demo_arb)" by (simp add: demo_arb_def)
qed

definition demo_req :: recordReq where
  "demo_req = \<lparr>rq_Name = ''w.b'', rq_Type = ''A'', rq_TTL = 60, rq_Value = ''1.2.3.4'', rq_Weight = 1\<rparr>"

lemma demo_lib_A: "StringToType demo_lib ''A'' = Some 1" "TypeToString demo_lib 1 = ''A''"
  by (simp_all add: demo_lib_def)

lemma demo_lib_NewRR: "NewRR demo_lib t = Inr (Some (RR_other \<lparr>h_Name = t, h_Rrtype = 1, h_Class = 1, h_Ttl = 0\<rparr> t))"
  by (simp add: demo_lib_def)

lemma demo_server_simps [simp]:
  "srv_pg demo_server = PG_iface demo_lib demo_pg" "srv_store demo_server = RWMutexStore_iface sorted_range"
  by (simp_all add: demo_server_def)

lemma demo_pg_simps [simp]:
  "pe_now demo_pg = 8" "pe_getZone demo_pg = Done" "pe_createRecord demo_pg = (\<lambda>_. Done)"
  "pe_createZone demo_pg = (\<lambda>_. Done)" "pe_updateRecord demo_pg = Done" "pe_deleteRecord demo_pg = Done" "pe_deleteZone demo_pg = Done"
  by (simp_all add: demo_pg_def)

lemma demo_post_status:
  "fst (fst (serveAPI demo_lib demo_server alone (POST_records ''b'' (Inr demo_req)) (demo_arb, demo_store))) = 201"
proof -
  have n: "FQDN ''b'' = ''b.''" "FQDN ''w.b'' = ''w.b.''" by (simp_all add: FQDN_def HasSuffix_def)
  have z: "GetZone Done demo_arb ''b.'' = Inr \<lparr>zm_ID = 1, zm_Name = ''b.''\<rparr>"
    by (simp add: GetZone_def select_zone_def active_zone_def demo_arb_tables)
  have "insert_record 8 1 ''w.b.'' ''A'' 60 ''1.2.3.4'' 1 demo_arb = (Inr row, db') \<Longrightarrow> rr_ttl row = 60" for row db'
    by (auto simp: insert_record_def Let_def split: if_splits)
  moreover have "\<exists>row db'. insert_record 8 1 ''w.b.'' ''A'' 60 ''1.2.3.4'' 1 demo_arb = (Inr row, db')"
    by (simp add: insert_record_def fits_int4_def demo_arb_tables Let_def)
  ultimately obtain row db' where "insert_record 8 1 ''w.b.'' ''A'' 60 ''1.2.3.4'' 1 demo_arb = (Inr row, db')" "rr_ttl row = 60" by blast
  then have "\<exists>out d. CreateRecord demo_lib (\<lambda>_. Done) 8 demo_arb 1 (reqRecord 0 demo_req 1 rr) = (Inr (out, True), d)" for rr
    by (simp add: CreateRecord_def demo_req_def n typeName_def demo_lib_A scan_record_def parseRR_def demo_lib_NewRR)
  then obtain out d where c: "CreateRecord demo_lib (\<lambda>_. Done) 8 demo_arb 1 (reqRecord 0 demo_req 1
      (Some (RR_other \<lparr>h_Name = reqText demo_req, h_Rrtype = 1, h_Class = 1, h_Ttl = 0\<rparr> (reqText demo_req)))) = (Inr (out, True), d)" by blast
  have t: "StringToType demo_lib (rq_Type demo_req) = Some 1" by (simp add: demo_req_def demo_lib_A)
  show ?thesis by (simp add: handler_defs n(1) z t demo_lib_NewRR c)
qed

text \<open>
  C19: a write through the API is served at once. When a request to create or to change a record is
  answered with a success, the zone store finds, under the owner name and type of the request, the
  record the response shows, with the value of the request, and, unless the record existed before,
  its TTL and weight. This holds whatever the other goroutines do in between, when the domain is the
  closest zone around the name.
\<close>

theorem api_write_visible:
  assumes "db_wf d" and "store_wf s" and "quiet db_wf store_wf others" and "mdns_ok L" and "rq_Type req \<noteq> []"
    and "route = POST_records domain (Inr req) \<or> route = PUT_record domain i (Inr req)"
    and "serveAPI L \<lparr>srv_pg = PG_iface L E, srv_store = RWMutexStore_iface ord\<rparr> others route (d, s) = ((st, bd), d', s')"
    and "st < 400" and "covers (FQDN domain) (FQDN (rq_Name req))"
    and "\<forall>a. covers a (FQDN (rq_Name req)) \<and> fmlookup (zones (ot_store others s)) a \<noteq> None \<longrightarrow> length a \<le> length (FQDN domain)"
  shows "\<exists>rec \<in> set (Lookup s' (FQDN (rq_Name req)) (typeOf L (rq_Type req))).
    bd = RecordBody (toResp L rec) \<and> r_Value rec = rq_Value req \<and> TypeToString L (r_Type rec) = rq_Type req \<and>
    (st = 201 \<or> route = PUT_record domain i (Inr req) \<longrightarrow> r_TTL rec = rq_TTL req \<and> r_Weight rec = rq_Weight req)"
proof -
  obtain rec where rec: "bd = RecordBody (toResp L rec)" "s' = snd (PutRecord (ot_store others s) (FQDN domain) rec)"
    "r_Name rec = FQDN (rq_Name req)" "StringToType L (rq_Type req) = Some (r_Type rec)" "r_Value rec = rq_Value req"
    "st = 201 \<or> route = PUT_record domain i (Inr req) \<Longrightarrow> r_TTL rec = rq_TTL req \<and> r_Weight rec = rq_Weight req"
    using api.write_stored [OF assms(7,8,6,1,3,4,5)] by (metis store_iface_simps(5))
  have wf: "store_wf (ot_store others s)" using assms(2,3) by (simp add: quiet_def)
  have "store_wf s'" using rw.put_invar [OF wf, of ord "FQDN domain" rec] rec(2) by simp
  then have "rec \<in> set (Lookup s' (r_Name rec) (r_Type rec))"
    using rw.put_lookup [OF wf, of "FQDN domain" rec ord] assms(9,10) rec(2,3) by (auto simp: Snapshot_def store_wf_def)
  then show ?thesis using rec mdns_ok_types(1) [OF assms(4) rec(4)] by (auto simp: typeOf_def)
qed

theorem api_write_visible_witness:
  "\<exists>st bd d' s'. serveAPI demo_lib demo_server alone (POST_records ''b'' (Inr demo_req)) (demo_arb, demo_store) = ((st, bd), d', s') \<and>
     (\<exists>rec \<in> set (Lookup s' ''w.b.'' 1). bd = RecordBody (toResp demo_lib rec) \<and> r_Value rec = ''1.2.3.4'' \<and> r_TTL rec = 60)"
proof -
  obtain st bd d' s' where sv: "serveAPI demo_lib demo_server alone (POST_records ''b'' (Inr demo_req)) (demo_arb, demo_store) = ((st, bd), d', s')"
    by (metis prod.collapse)
  then have st: "st = 201" using demo_post_status by simp
  have n: "FQDN ''b'' = ''b.''" "FQDN ''w.b'' = ''w.b.''" "typeOf demo_lib ''A'' = 1"
    by (simp_all add: FQDN_def HasSuffix_def typeOf_def demo_lib_def)
  have c: "length a \<le> length ''b.''" if "covers a ''w.b.''" "fmlookup (zones demo_store) a \<noteq> None" for a
    using that by (auto simp: demo_store_def Update_def New_def covers_def HasSuffix_def split: if_splits)
  have "covers ''b.'' ''w.b.''" by (simp add: covers_def HasSuffix_def)
  then have "\<exists>rec \<in> set (Lookup s' ''w.b.'' 1). bd = RecordBody (toResp demo_lib rec) \<and> r_Value rec = ''1.2.3.4'' \<and>
      TypeToString demo_lib (r_Type rec) = ''A'' \<and> r_TTL rec = 60 \<and> r_Weight rec = 1"
    using api_write_visible [OF demo_arb_tables(1) store_reachable_wf [OF demo_store_reachable] alone_simps(3) demo_lib_ok, of demo_req
        "POST_records ''b'' (Inr demo_req)" "''b''" "[]" demo_pg sorted_range st bd d' s'] sv c st n
    by (simp add: demo_server_def demo_req_def)
  then show ?thesis using sv by blast
qed

text \<open>
  C20: a failed request changes nothing that DNS queries see. Every response has one of the seven status
  codes of the API; a status from 400 on comes with an error body and leaves the zone store as it was,
  and after a 400 the database was not touched either. A success is never reported with an error body.
\<close>

theorem api_failure_isolated:
  "\<exists>st bd d' s'. serveAPI L srv others route (d, s) = ((st, bd), d', s') \<and> st \<in> {200, 201, 204, 400, 404, 409, 500} \<and>
     (400 \<le> st \<longleftrightarrow> (\<exists>err. bd = ErrorBody err)) \<and> (400 \<le> st \<longrightarrow> s' = s) \<and> (st = 400 \<longrightarrow> d' = d)"
proof -
  obtain st bd d' s' where sv: "serveAPI L srv others route (d, s) = ((st, bd), d', s')" by (metis prod.collapse)
  have "st \<in> {200, 201, 204, 400, 404, 409, 500} \<and> (400 \<le> st \<longleftrightarrow> (\<exists>err. bd = ErrorBody err)) \<and> (400 \<le> st \<longrightarrow> s' = s) \<and>
      (st = 400 \<longrightarrow> d' = d)"
  proof (cases route)
    case (POST_domains bound)
    with sv have "createDomain srv others bound (d, s) = ((st, bd), d', s')" by simp
    then show ?thesis by (cases rule: createDomain_cases) auto
  next
    case (DELETE_domain domain)
    with sv have "deleteDomain srv others domain (d, s) = ((st, bd), d', s')" by simp
    then show ?thesis by (cases rule: deleteDomain_cases) auto
  next
    case (POST_records domain bound)
    with sv have "createRecord L srv others domain bound (d, s) = ((st, bd), d', s')" by simp
    then show ?thesis by (cases rule: createRecord_cases) auto
  next
    case (PUT_record domain i bound)
    with sv have "updateRecord L srv others domain i bound (d, s) = ((st, bd), d', s')" by simp
    then show ?thesis by (cases rule: updateRecord_cases) auto
  next
    case (DELETE_record domain i)
    with sv have "deleteRecord srv others domain i (d, s) = ((st, bd), d', s')" by simp
    then show ?thesis by (cases rule: deleteRecord_cases) auto
  qed (use sv in \<open>auto simp: handler_defs split: sum.splits\<close>)
  with sv show ?thesis by blast
qed

theorem api_failure_isolated_witness:
  "serveAPI demo_lib demo_server alone (DELETE_record ''b'' ''x'') (demo_arb, demo_store) =
     ((400, ErrorBody InvalidRecordID), demo_arb, demo_store)"
proof -
  have p: "ParseInt ''x'' = Inl ErrSyntax" by (simp add: ParseInt_def ParseUint_def digit_of_def)
  have "fst (serveAPI demo_lib demo_server alone (DELETE_record ''b'' ''x'') (demo_arb, demo_store)) = (400, ErrorBody InvalidRecordID)"
    by (simp add: handler_defs p)
  then show ?thesis
    using api_failure_isolated [of demo_lib demo_server alone "DELETE_record ''b'' ''x''" demo_arb demo_store] by auto
qed

text \<open>
  C29: creating a domain that exists empties it. The request is answered with 200 and the database keeps
  every record, but the zone in the store is replaced by one without records, so its names are no longer
  answered until the next start.
\<close>

theorem createDomain_wipes:
  assumes "db_wf db" and "z \<in> set (db_zones db)" and "active_zone (FQDN (cq_Name req)) z" and "pe_createZone E = (\<lambda>_. Done)"
  shows "\<exists>db'. createDomain \<lparr>srv_pg = PG_iface L E, srv_store = RWMutexStore_iface ord\<rparr> alone (Inr req) (db, s) =
      ((200, DomainBody \<lparr>ds_ID = zr_id z, ds_Name = FQDN (cq_Name req)\<rparr>), db',
       snd (Update s \<lparr>z_Name = FQDN (cq_Name req), z_Records = fmempty, z_SOA = None\<rparr>)) \<and>
    db_records db' = db_records db \<and> db_zones db' = db_zones db \<and>
    contents (snd (Update s \<lparr>z_Name = FQDN (cq_Name req), z_Records = fmempty, z_SOA = None\<rparr>)) (FQDN (cq_Name req)) = {}"
proof -
  let ?a = "FQDN (cq_Name req)" and ?db = "db\<lparr>db_zseq := db_zseq db + 1\<rparr>"
  have i: "insert_zone n ?a db = (Inl ErrNoRows, ?db)" for n
    using insert_zone_taken [of db z ?a n] assms(1-3) by (simp add: db_wf_def active_zone_def)
  have "db_wf ?db" using assms(1) by (auto simp: db_wf_def schema_ok_def zones_wf_def)
  then have "select_zone ?a ?db = (Inr \<lparr>zm_ID = zr_id z, zm_Name = ?a\<rparr>, ?db)"
    using select_zone_found [of ?db z ?a] assms(2,3) by simp
  then have "CreateZone (\<lambda>_. Done) (pe_now E) db ?a = (Inr (\<lparr>zm_ID = zr_id z, zm_Name = ?a\<rparr>, False), ?db)"
    by (simp add: CreateZone_def i)
  then show ?thesis
    using assms(4) by (simp add: handler_defs contents_def Update_def records_of_def)
qed

theorem createDomain_wipes_witness:
  "\<exists>db'. createDomain demo_server alone (Inr \<lparr>cq_Name = ''b''\<rparr>) (demo_db, snd (PutRecord demo_store ''b.'' demo_rec)) =
      ((200, DomainBody \<lparr>ds_ID = 1, ds_Name = ''b.''\<rparr>), db',
       snd (Update (snd (PutRecord demo_store ''b.'' demo_rec)) \<lparr>z_Name = ''b.'', z_Records = fmempty, z_SOA = None\<rparr>))"
proof -
  have n: "FQDN ''b'' = ''b.''" by (simp add: FQDN_def HasSuffix_def)
  let ?z = "\<lparr>zr_id = 1, zr_name = ''b.'', zr_updated = 5, zr_deleted = None\<rparr>"
  have "?z \<in> set (db_zones demo_db)" "active_zone (FQDN ''b'') ?z" by (simp_all add: demo_db_tables active_zone_def n)
  from createDomain_wipes [OF db_reachable_wf [OF demo_db_reachable] this(1), of "\<lparr>cq_Name = ''b''\<rparr>" demo_pg demo_lib sorted_range] this(2)
  show ?thesis by (simp add: n demo_pg_def demo_server_def, blast)
qed

end
