(* ===== verification/Consistency.thy ===== *)
theory Consistency
  imports API_Server Syncer
begin

text \<open>
  How the zone store of one instance stands to the database that all instances write to. \<open>tracks\<close> says that the
  store has what the database says a zone holds, up to given exceptions; the lemmas show what each request of the
  API, here or at another instance, and the start-up load make of it. No code of its own.
\<close>

section \<open>What the database says a zone holds\<close>

definition db_contents :: "mdns_lib \<Rightarrow> DB \<Rightarrow> string \<Rightarrow> (RecordKey \<times> Record) set" where
  "db_contents L db a = {(key_of rec, rec) | z r rec. (z, r) \<in> set (join_rows db) \<and> active_row (z, r) \<and>
     fqdn (zr_name z) = a \<and> loadRow L r = Some rec}"

text \<open>The zones deleted after the time \<open>t\<close>, and the identifiers of the records written after it.\<close>

definition stale_zone :: "int \<Rightarrow> DB \<Rightarrow> string \<Rightarrow> bool" where
  "stale_zone t db a \<longleftrightarrow> (\<exists>z \<in> set (db_zones db). t < zr_updated z \<and> zr_deleted z \<noteq> None \<and> fqdn (zr_name z) = a)"

definition stale_ids :: "int \<Rightarrow> DB \<Rightarrow> string \<Rightarrow> int set" where
  "stale_ids t db a = {rr_id r | z r. (z, r) \<in> set (changed_rows t db) \<and> fqdn (zr_name z) = a}"

text \<open>What all writers keep: names end in a dot and every row is accepted by the DNS library.\<close>

definition rows_ok :: "mdns_lib \<Rightarrow> DB \<Rightarrow> bool" where
  "rows_ok L db \<longleftrightarrow> (\<forall>z \<in> set (db_zones db). HasSuffix (zr_name z) ''.'') \<and>
     (\<forall>r \<in> set (db_records db). HasSuffix (rr_name r) ''.'' \<and> loadRow L r \<noteq> None)"

text \<open>Every record of the store is filed where the row with its identifier belongs.\<close>

definition row_key :: "mdns_lib \<Rightarrow> rec_row \<Rightarrow> RecordKey" where
  "row_key L r = rkey (fqdn (rr_name r)) (typeOf L (rr_type r))"

definition keyed :: "mdns_lib \<Rightarrow> DB \<Rightarrow> RWMutexStore \<Rightarrow> bool" where
  "keyed L db s \<longleftrightarrow> (\<forall>a k x. (k, x) \<in> contents s a \<longrightarrow>
     (\<exists>z r. (z, r) \<in> set (join_rows db) \<and> fqdn (zr_name z) = a \<and> rr_id r = r_ID x \<and> k = row_key L r))"

text \<open>
  The store \<open>s\<close> tracks the database except for the zones \<open>Z\<close>, and for the identifiers \<open>I a\<close> in each zone
  \<open>a\<close>: what it may still lack, or have too much. It follows the database up to the time \<open>t\<close> if these are what
  was deleted or written after \<open>t\<close>.
\<close>

definition tracks :: "mdns_lib \<Rightarrow> (string \<Rightarrow> bool) \<Rightarrow> (string \<Rightarrow> int set) \<Rightarrow> DB \<Rightarrow> RWMutexStore \<Rightarrow> bool" where
  "tracks L Z I db s \<longleftrightarrow> db_wf db \<and> rows_ok L db \<and> ids_ok s \<and> keyed L db s \<and>
     (\<forall>a k x. \<not> Z a \<and> r_ID x \<notin> I a \<longrightarrow> ((k, x) \<in> contents s a \<longleftrightarrow> (k, x) \<in> db_contents L db a))"

abbreviation follows :: "mdns_lib \<Rightarrow> int \<Rightarrow> DB \<Rightarrow> RWMutexStore \<Rightarrow> bool" where
  "follows L t db s \<equiv> tracks L (stale_zone t db) (stale_ids t db) db s"

lemma tracksD:
  assumes "tracks L Z I db s"
  shows "db_wf db" "rows_ok L db" "ids_ok s" "keyed L db s"
    "\<And>a k x. \<not> Z a \<Longrightarrow> r_ID x \<notin> I a \<Longrightarrow> (k, x) \<in> contents s a \<longleftrightarrow> (k, x) \<in> db_contents L db a"
  using assms by (simp_all add: tracks_def)

lemma tracksI:
  assumes "db_wf db" "rows_ok L db" "ids_ok s" "keyed L db s"
    "\<And>a k x. \<not> Z a \<Longrightarrow> r_ID x \<notin> I a \<Longrightarrow> (k, x) \<in> contents s a \<longleftrightarrow> (k, x) \<in> db_contents L db a"
  shows "tracks L Z I db s"
  using assms by (simp add: tracks_def)

text \<open>It still tracks the database if more is excepted; identifiers do not matter in a zone that is.\<close>

lemma tracks_mono:
  assumes "tracks L Z I db s" and "\<And>a. Z a \<Longrightarrow> Z' a" and "\<And>a. \<not> Z' a \<Longrightarrow> I a \<subseteq> I' a"
  shows "tracks L Z' I' db s"
  by (rule tracksI [OF tracksD(1-4) [OF assms(1)]]) (use tracksD(5) [OF assms(1)] assms(2,3) in blast)

lemma fqdn_id [simp]: "HasSuffix n ''.'' \<Longrightarrow> fqdn n = n"
  by (simp add: fqdn_def)

lemma FQDN_fqdn: "FQDN n = fqdn n"
  by (simp add: FQDN_def fqdn_def)

lemma loadRow_fields:
  assumes "loadRow L r = Some rec" shows "r_ID rec = rr_id r" "key_of rec = row_key L r"
  using assms by (auto simp: loadRow_def Let_def row_key_def typeOf_def split: option.splits sum.splits)

text \<open>For a TTL the database can hold, the three ways to read a row agree.\<close>

lemma loadRow_syncRow:
  assumes "0 \<le> rr_ttl r" and "fits_int4 (rr_ttl r)" shows "syncRow L r = loadRow L r"
proof -
  have "unat (word_of_int (rr_ttl r) :: u32) = nat (rr_ttl r)"
    using assms by (simp add: unat_eq_nat_uint uint_word_of_int fits_int4_def)
  then have "parseRR L n (word_of_int (rr_ttl r)) t v = NewRR L (rrText n (Itoa (rr_ttl r)) t v)" for n t v
    using assms(1) by (simp add: parseRR_def Itoa_def)
  then show ?thesis by (simp only: loadRow_def syncRow_def Let_def)
qed

lemma loadRow_scan:
  assumes "0 \<le> rr_ttl r" and "fits_int4 (rr_ttl r)" and "HasSuffix (rr_name r) ''.''" and "StringToType L (rr_type r) \<noteq> None"
  shows "loadRow L r = (case scan_record L r of Inl e \<Rightarrow> None | Inr rec \<Rightarrow> Some rec)"
  using assms(1,3,4) unfolding loadRow_syncRow [OF assms(1,2), symmetric]
  by (auto simp: syncRow_def scan_record_def typeOf_def Let_def split: sum.split option.split)

lemma row_ok:
  assumes "db_wf db" and "r \<in> set (db_records db)"
  shows "0 < rr_id r" "rr_id r < db_rseq db" "0 \<le> rr_ttl r" "fits_int4 (rr_ttl r)" "rr_zone r \<in> zr_id ` set (db_zones db)"
  using assms by (auto simp: db_wf_def recs_wf_def)

lemma row_id: "db_wf db \<Longrightarrow> r \<in> set (db_records db) \<Longrightarrow> r' \<in> set (db_records db) \<Longrightarrow> rr_id r = rr_id r' \<Longrightarrow> r = r'"
  using recs_wf_id by (metis db_wf_def)

lemma zone_id: "db_wf db \<Longrightarrow> z \<in> set (db_zones db) \<Longrightarrow> z' \<in> set (db_zones db) \<Longrightarrow> zr_id z = zr_id z' \<Longrightarrow> z = z'"
  unfolding db_wf_def zones_wf_def by (metis distinct_map inj_onD)

lemma zone_name:
  "db_wf db \<Longrightarrow> rows_ok L db \<Longrightarrow> z \<in> set (db_zones db) \<Longrightarrow> z' \<in> set (db_zones db) \<Longrightarrow> fqdn (zr_name z) = fqdn (zr_name z') \<Longrightarrow> z = z'"
  unfolding db_wf_def zones_wf_def rows_ok_def by (metis distinct_map inj_onD fqdn_id)

text \<open>The contents by row: for the zone row and the record row that an element comes from.\<close>

lemma db_contents_row:
  assumes "(k, x) \<in> db_contents L db a"
  obtains z r where "z \<in> set (db_zones db)" "r \<in> set (db_records db)" "rr_zone r = zr_id z" "fqdn (zr_name z) = a"
    "zr_deleted z = None" "rr_deleted r = None" "loadRow L r = Some x" "r_ID x = rr_id r" "k = key_of x"
  using assms by (auto simp: db_contents_def join_rows_mem active_row_def dest: loadRow_fields(1))

lemma db_contentsI:
  assumes "z \<in> set (db_zones db)" "r \<in> set (db_records db)" "rr_zone r = zr_id z" "zr_deleted z = None" "rr_deleted r = None"
    "loadRow L r = Some x"
  shows "(key_of x, x) \<in> db_contents L db (fqdn (zr_name z))"
  using assms unfolding db_contents_def join_rows_mem active_row_def by force

text \<open>In the zone that a record row belongs to, the elements with its identifier are those it stands for.\<close>

lemma db_contents_id:
  assumes "db_wf db" and "rows_ok L db" and "z \<in> set (db_zones db)" and "r \<in> set (db_records db)" and "rr_zone r = zr_id z"
    and "r_ID x = rr_id r"
  shows "(k, x) \<in> db_contents L db a \<longleftrightarrow>
    a = fqdn (zr_name z) \<and> zr_deleted z = None \<and> rr_deleted r = None \<and> loadRow L r = Some x \<and> k = key_of x"
proof
  assume "(k, x) \<in> db_contents L db a"
  then obtain z' r' where z': "z' \<in> set (db_zones db)" "r' \<in> set (db_records db)" "rr_zone r' = zr_id z'" "fqdn (zr_name z') = a"
    "zr_deleted z' = None" "rr_deleted r' = None" "loadRow L r' = Some x" "r_ID x = rr_id r'" "k = key_of x"
    by (rule db_contents_row)
  have "r' = r" using row_id [OF assms(1) z'(2) assms(4)] z'(8) assms(6) by simp
  moreover from this have "z' = z" using zone_id [OF assms(1) z'(1) assms(3)] z'(3) assms(5) by simp
  ultimately show "a = fqdn (zr_name z) \<and> zr_deleted z = None \<and> rr_deleted r = None \<and> loadRow L r = Some x \<and> k = key_of x"
    using z' by simp
qed (use db_contentsI [OF assms(3-5)] in auto)

section \<open>Writes to the database\<close>

text \<open>
  What a request can do to the tables, at the time \<open>now\<close>: nothing, add a zone, mark a zone deleted, or
  write one record row of an active zone, leaving its owner name and type as they are.
\<close>

inductive db_write :: "mdns_lib \<Rightarrow> int \<Rightarrow> DB \<Rightarrow> DB \<Rightarrow> bool" for L now db db' where
  same: "db_zones db' = db_zones db \<Longrightarrow> db_records db' = db_records db \<Longrightarrow> db_write L now db db'"
| zone: "set (db_zones db') = insert z (set (db_zones db)) \<Longrightarrow> db_records db' = db_records db \<Longrightarrow>
    zr_name z \<notin> zr_name ` set (db_zones db) \<Longrightarrow> zr_id z \<notin> zr_id ` set (db_zones db) \<Longrightarrow> zr_deleted z = None \<Longrightarrow>
    HasSuffix (zr_name z) ''.'' \<Longrightarrow> db_write L now db db'"
| unzone: "z \<in> set (db_zones db) \<Longrightarrow> set (db_zones db') = insert z' (set (db_zones db) - {z}) \<Longrightarrow> db_records db' = db_records db \<Longrightarrow>
    zr_id z' = zr_id z \<Longrightarrow> zr_name z' = zr_name z \<Longrightarrow> zr_deleted z' \<noteq> None \<Longrightarrow> zr_updated z' = now \<Longrightarrow> db_write L now db db'"
| row: "db_zones db' = db_zones db \<Longrightarrow> set (db_records db') = insert r {x \<in> set (db_records db). rr_id x \<noteq> rr_id r} \<Longrightarrow>
    z \<in> set (db_zones db) \<Longrightarrow> zr_deleted z = None \<Longrightarrow> rr_zone r = zr_id z \<Longrightarrow> rr_updated r = now \<Longrightarrow>
    (\<And>x. x \<in> set (db_records db) \<Longrightarrow> rr_id x = rr_id r \<Longrightarrow> rr_zone x = rr_zone r \<and> row_key L x = row_key L r) \<Longrightarrow>
    HasSuffix (rr_name r) ''.'' \<Longrightarrow> loadRow L r \<noteq> None \<Longrightarrow> db_write L now db db'"

lemma stale_ids_mem:
  "i \<in> stale_ids t db a \<longleftrightarrow> (\<exists>z \<in> set (db_zones db). \<exists>r \<in> set (db_records db). rr_zone r = zr_id z \<and> t < rr_updated r \<and>
     zr_deleted z = None \<and> fqdn (zr_name z) = a \<and> rr_id r = i)"
  unfolding stale_ids_def changed_rows_def by (force simp: join_rows_mem)

lemma db_contents_mem:
  "(k, x) \<in> db_contents L db a \<longleftrightarrow> (\<exists>z \<in> set (db_zones db). \<exists>r \<in> set (db_records db). rr_zone r = zr_id z \<and>
     fqdn (zr_name z) = a \<and> zr_deleted z = None \<and> rr_deleted r = None \<and> loadRow L r = Some x \<and> k = key_of x)"
  by (force simp: db_contents_def join_rows_mem active_row_def)

lemma keyed_mem:
  "keyed L db s \<longleftrightarrow> (\<forall>a k x. (k, x) \<in> contents s a \<longrightarrow> (\<exists>z \<in> set (db_zones db). \<exists>r \<in> set (db_records db). rr_zone r = zr_id z \<and>
     fqdn (zr_name z) = a \<and> rr_id r = r_ID x \<and> k = row_key L r))"
  by (force simp: keyed_def join_rows_mem)

text \<open>The same, by the rows with an identifier in a zone.\<close>

definition rows_at :: "DB \<Rightarrow> string \<Rightarrow> int \<Rightarrow> (zone_row \<times> rec_row) set" where
  "rows_at db a i = {(z, r). z \<in> set (db_zones db) \<and> r \<in> set (db_records db) \<and> rr_zone r = zr_id z \<and> fqdn (zr_name z) = a \<and> rr_id r = i}"

lemma rows_at_eqs:
  "(k, x) \<in> db_contents L db a \<longleftrightarrow> (\<exists>(z, r) \<in> rows_at db a (r_ID x). zr_deleted z = None \<and> rr_deleted r = None \<and>
     loadRow L r = Some x \<and> k = key_of x)"
  "i \<in> stale_ids t db a \<longleftrightarrow> (\<exists>(z, r) \<in> rows_at db a i. t < rr_updated r \<and> zr_deleted z = None)"
  unfolding db_contents_mem stale_ids_mem rows_at_def by (force dest: loadRow_fields(1), blast)

text \<open>What a write leaves as it was.\<close>

inductive_cases db_writeE: "db_write L now db db'"

lemma db_write_rows_ok: "db_write L now db db' \<Longrightarrow> rows_ok L db \<Longrightarrow> rows_ok L db'"
  by (erule db_writeE) (auto simp: rows_ok_def)

lemma db_write_keyed:
  assumes "db_write L now db db'" and "keyed L db s" shows "keyed L db' s"
  unfolding keyed_mem
proof (intro allI impI)
  fix a k x assume "(k, x) \<in> contents s a"
  then obtain z r where zr: "z \<in> set (db_zones db)" "r \<in> set (db_records db)" "rr_zone r = zr_id z" "fqdn (zr_name z) = a"
    "rr_id r = r_ID x" "k = row_key L r" using assms(2) unfolding keyed_mem by metis
  from assms(1) show "\<exists>z \<in> set (db_zones db'). \<exists>r \<in> set (db_records db'). rr_zone r = zr_id z \<and>
     fqdn (zr_name z) = a \<and> rr_id r = r_ID x \<and> k = row_key L r"
  proof cases
    case (unzone y y')
    then have "(if z = y then y' else z) \<in> set (db_zones db')" using zr(1) by auto
    moreover have "zr_id (if z = y then y' else z) = zr_id z" "zr_name (if z = y then y' else z) = zr_name z" using unzone by simp_all
    ultimately show ?thesis using zr unzone(3) by metis
  next
    case (row r' z')
    then have "(if rr_id r = rr_id r' then r' else r) \<in> set (db_records db')" using zr(2) by auto
    moreover have "rr_id (if rr_id r = rr_id r' then r' else r) = rr_id r" "rr_zone (if rr_id r = rr_id r' then r' else r) = rr_zone r"
      "row_key L (if rr_id r = rr_id r' then r' else r) = row_key L r" using row(7) zr(2) by simp_all
    ultimately show ?thesis using zr row(1) by metis
  qed (use zr in auto)
qed

lemma db_write_stale_zone:
  assumes "db_write L now db db'" and "t < now" and "stale_zone t db a" shows "stale_zone t db' a"
  using assms(1)
proof cases
  case (unzone z z')
  have at: "stale_zone t db' (fqdn (zr_name z))" using unzone(2,5-7) assms(2) by (auto simp: stale_zone_def)
  show ?thesis
  proof (cases "a = fqdn (zr_name z)")
    case False
    then show ?thesis using assms(3) unfolding stale_zone_def unzone(2) by blast
  qed (use at in simp)
qed (use assms(3) in \<open>auto simp: stale_zone_def\<close>)

lemma db_write_rows_at:
  assumes "db_write L now db db'" and "db_wf db" and "t < now" and "\<not> stale_zone t db' a" and "i \<notin> stale_ids t db' a"
  shows "rows_at db' a i = rows_at db a i"
  using assms(1)
proof cases
  case same
  then show ?thesis by (simp add: rows_at_def)
next
  case (zone z)
  have "rr_zone r \<noteq> zr_id z" if "r \<in> set (db_records db)" for r using row_ok(5) [OF assms(2) that] zone(4) by metis
  then show ?thesis unfolding rows_at_def zone(1,2) by auto
next
  case (unzone z z')
  have "stale_zone t db' (fqdn (zr_name z))" using unzone(2,5-7) assms(3) by (auto simp: stale_zone_def)
  then have "a \<noteq> fqdn (zr_name z)" using assms(4) by auto
  then show ?thesis using unzone(1,2,3,5) by (auto simp: rows_at_def)
next
  case (row r z)
  have other: "a \<noteq> fqdn (zr_name z) \<or> i \<noteq> rr_id r" using assms(5) row(1-6) assms(3) unfolding stale_ids_mem by auto
  have "u = z" if "u \<in> set (db_zones db)" "rr_zone r = zr_id u" for u using zone_id [OF assms(2) row(3) that(1)] row(5) that(2) by simp
  then show ?thesis using other row(7) unfolding rows_at_def row(1,2) by auto
qed

lemma db_write_stale_ids:
  assumes "db_write L now db db'" and "db_wf db" and "t' < now" and "t \<le> t'" and "\<not> stale_zone t' db' a"
  shows "stale_ids t db a \<subseteq> stale_ids t db' a"
proof
  fix i assume i: "i \<in> stale_ids t db a"
  show "i \<in> stale_ids t db' a"
  proof (cases "i \<in> stale_ids t' db' a")
    case True
    then show ?thesis using assms(4) unfolding stale_ids_mem by (meson le_less_trans)
  next
    case False
    then show ?thesis using i db_write_rows_at [OF assms(1-3,5)] unfolding rows_at_eqs by simp
  qed
qed

text \<open>So a write at a later time than \<open>t\<close> adds to the exceptions only what was written after \<open>t\<close>.\<close>

lemma tracks_write:
  assumes w: "db_write L now db db'" and "t < now" and f: "tracks L Z I db s" and "db_wf db'"
    and Z: "\<And>a. Z a \<or> stale_zone t db' a \<Longrightarrow> Z' a" and I: "\<And>a. \<not> Z' a \<Longrightarrow> I a \<union> stale_ids t db' a \<subseteq> I' a"
  shows "tracks L Z' I' db' s"
proof (rule tracksI [OF assms(4) db_write_rows_ok [OF w tracksD(2) [OF f]] tracksD(3) [OF f] db_write_keyed [OF w tracksD(4) [OF f]]])
  fix a k and x :: Record assume a: "\<not> Z' a" "r_ID x \<notin> I' a"
  then have "\<not> Z a" "\<not> stale_zone t db' a" "r_ID x \<notin> I a" "r_ID x \<notin> stale_ids t db' a" using Z I by blast+
  moreover from this have "rows_at db' a (r_ID x) = rows_at db a (r_ID x)"
    by (intro db_write_rows_at [OF w tracksD(1) [OF f] assms(2)])
  ultimately show "(k, x) \<in> contents s a \<longleftrightarrow> (k, x) \<in> db_contents L db' a"
    using tracksD(5) [OF f] by (simp add: rows_at_eqs(1))
qed

section \<open>The requests write to the database in these ways\<close>

lemma write_run_stmt: "db_write L now db (snd (f db)) \<Longrightarrow> db_write L now db (snd (run_stmt fate f db))"
  using run_stmt_state [of fate f db] db_write.same [of db db L now] by auto

lemma write_insert_zone:
  assumes "db_wf db" and "HasSuffix name ''.''" shows "db_write L now db (snd (insert_zone now name db))"
proof (cases "name \<in> zr_name ` set (db_zones db)")
  case True
  then obtain z where "z \<in> set (db_zones db)" "zr_name z = name" by auto
  then show ?thesis
    using insert_zone_taken [of db z name now] assms(1) by (intro db_write.same) (simp_all add: db_wf_def)
next
  case False
  have "zr_id z < db_zseq db" if "z \<in> set (db_zones db)" for z using assms(1) that by (simp add: db_wf_def zones_wf_def)
  then have "db_zseq db \<notin> zr_id ` set (db_zones db)" by fastforce
  then show ?thesis
    using insert_zone_new [OF _ False, of now] assms False
    by (intro db_write.zone [where z = "\<lparr>zr_id = db_zseq db, zr_name = name, zr_updated = now, zr_deleted = None\<rparr>"]) (simp_all add: db_wf_def)
qed

lemma write_CreateZone:
  assumes "db_wf db" and "HasSuffix name ''.''" shows "db_write L now db (snd (CreateZone fate now db name))"
proof -
  obtain res db1 where r: "run_stmt (fate 0) (insert_zone now name) db = (res, db1)" by fastforce
  then have "db_write L now db db1"
    using write_run_stmt [where f = "insert_zone now name" and fate = "fate 0", OF write_insert_zone [OF assms]] by simp
  moreover obtain res2 where "run_stmt (fate 1) (select_zone name) db1 = (res2, db1)"
    by (metis run_stmt_select select_zone_state prod.collapse)
  ultimately show ?thesis using r by (auto simp: CreateZone_def split: sum.split)
qed

text \<open>One row of a list is changed, found by a key that determines it.\<close>

lemma set_map_one:
  assumes "x \<in> set xs" and "P x" and "\<And>y. y \<in> set xs \<Longrightarrow> P y \<Longrightarrow> y = x"
  shows "set (map (\<lambda>y. if P y then f y else y) xs) = insert (f x) (set xs - {x})"
proof -
  let ?g = "\<lambda>y. if P y then f y else y"
  have "?g y = y" if "y \<in> set xs - {x}" for y using assms(3) [of y] that by auto
  then have same: "?g ` (set xs - {x}) = (\<lambda>y. y) ` (set xs - {x})" by (rule image_cong [OF refl])
  have all: "set xs = insert x (set xs - {x})" using assms(1) by blast
  have "set (map ?g xs) = ?g ` insert x (set xs - {x})" unfolding all [symmetric] by simp
  also have "\<dots> = insert (?g x) (?g ` (set xs - {x}))" by (rule image_insert)
  finally show ?thesis unfolding same using assms(2) by simp
qed

lemma id_others:
  assumes "r \<in> A" and "f r = i" and "\<And>x. x \<in> A \<Longrightarrow> f x = i \<Longrightarrow> x = r" shows "A - {r} = {x \<in> A. f x \<noteq> i}"
  using assms by blast

lemma map_none: "(\<And>y. y \<in> set xs \<Longrightarrow> \<not> P y) \<Longrightarrow> map (\<lambda>y. if P y then f y else y) xs = xs"
  by (induction xs) auto

lemma write_delete_zone:
  assumes "db_wf db" shows "db_write L now db (snd (delete_zone now apex db))"
proof (cases "\<exists>z \<in> set (db_zones db). active_zone apex z")
  case True
  then obtain z where z: "z \<in> set (db_zones db)" "active_zone apex z" by auto
  have sch: "schema_ok db" using assms by (simp add: db_wf_def)
  have "distinct (map zr_name (db_zones db))" using assms unfolding db_wf_def zones_wf_def by blast
  then have u: "y = z" if "y \<in> set (db_zones db)" "active_zone apex y" for y
    using that z unfolding active_zone_def distinct_map by (metis inj_onD)
  show ?thesis
  proof (rule db_write.unzone [OF z(1), where z' = "stamp_zone db now (z\<lparr>zr_deleted := Some now\<rparr>)"])
    show "set (db_zones (snd (delete_zone now apex db))) = insert (stamp_zone db now (z\<lparr>zr_deleted := Some now\<rparr>)) (set (db_zones db) - {z})"
      using set_map_one [where P = "active_zone apex", OF z u, of "\<lambda>z. stamp_zone db now (z\<lparr>zr_deleted := Some now\<rparr>)"] sch
      by (simp add: delete_zone_def schema_ok_simps)
  qed (use sch in \<open>simp_all add: delete_zone_def stamp_zone_def schema_ok_simps\<close>)
next
  case False
  then show ?thesis
    by (intro db_write.same) (simp_all add: delete_zone_def map_none [where P = "active_zone apex"])
qed

lemma snd_calls:
  "snd (SoftDeleteZone fate now db apex) = snd (run_stmt fate (delete_zone now apex) db)"
  "snd (SoftDeleteRecord fate now db zid rid) = snd (run_stmt fate (delete_record now rid zid) db)"
  "snd (UpdateRecord L fate now db zid rid rec) = snd (run_stmt fate (update_record now rid zid (r_Name rec)
     (typeName L (r_Type rec)) (uint (r_TTL rec)) (r_Value rec) (r_Weight rec)) db)"
  by (auto simp: SoftDeleteZone_def SoftDeleteRecord_def UpdateRecord_def split: prod.splits sum.splits)

lemma write_SoftDeleteZone: "db_wf db \<Longrightarrow> db_write L now db (snd (SoftDeleteZone fate now db apex))"
  unfolding snd_calls by (intro write_run_stmt write_delete_zone)

text \<open>The row a request writes can be loaded: its text is the one the handler has parsed.\<close>

definition row_text_ok :: "mdns_lib \<Rightarrow> string \<Rightarrow> string \<Rightarrow> u32 \<Rightarrow> string \<Rightarrow> bool" where
  "row_text_ok L name t ttl v \<longleftrightarrow> HasSuffix name ''.'' \<and> StringToType L t \<noteq> None \<and>
     (\<exists>rr. NewRR L (rrText name (Utoa (unat ttl)) t v) = Inr rr)"

lemma row_text_loadRow:
  assumes "row_text_ok L (rr_name r) (rr_type r) ttl (rr_value r)" and "rr_ttl r = uint ttl" shows "loadRow L r \<noteq> None"
proof -
  have "Itoa (uint ttl) = Utoa (unat ttl)" by (simp add: Itoa_def)
  then show ?thesis using assms by (auto simp: row_text_ok_def loadRow_def split: option.split)
qed

lemma write_insert_record:
  assumes "db_wf db" and "z \<in> set (db_zones db)" and "zr_deleted z = None" and "row_text_ok L name t ttl v"
  shows "db_write L now db (snd (insert_record now (zr_id z) name t (uint ttl) v w db))"
proof (cases rule: insert_record_cases [of now "zr_id z" name t "uint ttl" v w db])
  case (inserted row)
  have id: "rr_id x \<noteq> rr_id row" if "x \<in> set (db_records db)" for x using row_ok(2) [OF assms(1) that] inserted(5) by simp
  show ?thesis
  proof (rule db_write.row [where r = row, OF _ _ assms(2,3)])
    show "loadRow L row \<noteq> None" using assms(4) inserted(5) by (intro row_text_loadRow) simp_all
  qed (use inserted(5,6) id assms(4) in \<open>auto simp: row_text_ok_def\<close>)
qed (auto intro: db_write.same)

lemma write_CreateRecord:
  assumes "db_wf db" and "z \<in> set (db_zones db)" and "zr_deleted z = None"
    and "row_text_ok L (r_Name rec) (typeName L (r_Type rec)) (r_TTL rec) (r_Value rec)"
  shows "db_write L now db (snd (CreateRecord L fate now db (zr_id z) rec))"
proof -
  let ?ins = "insert_record now (zr_id z) (r_Name rec) (typeName L (r_Type rec)) (uint (r_TTL rec)) (r_Value rec) (r_Weight rec)"
  obtain res db1 where r: "run_stmt (fate 0) ?ins db = (res, db1)" by fastforce
  then have "db_write L now db db1"
    using write_run_stmt [where f = ?ins and fate = "fate 0", OF write_insert_record [OF assms]] by simp
  moreover obtain res2 where "run_stmt (fate 1) (select_record (zr_id z) (r_Name rec) (typeName L (r_Type rec)) (r_Value rec)) db1 = (res2, db1)"
    by (metis run_stmt_select select_record_state prod.collapse)
  ultimately show ?thesis using r by (auto simp: CreateRecord_def Let_def split: sum.split)
qed

lemma write_update_record:
  assumes "db_wf db" and "z \<in> set (db_zones db)" and "zr_deleted z = None" and "row_text_ok L name t ttl v"
    and "\<And>r. r \<in> set (db_records db) \<Longrightarrow> rr_id r = rid \<Longrightarrow> rr_name r = name \<and> rr_type r = t"
  shows "db_write L now db (snd (update_record now rid (zr_id z) name t (uint ttl) v w db))"
proof (cases rule: update_record_cases [of now rid "zr_id z" name t "uint ttl" v w db])
  case (same e)
  then show ?thesis by (simp add: db_write.same)
next
  case (changed r)
  let ?row = "stamp_record db now (set_fields name t (uint ttl) v w r)"
  have u: "x = r" if "x \<in> set (db_records db)" "rr_id x = rid" for x
    using row_id [OF assms(1) that(1) changed(1)] that(2) changed(2) by simp
  have "set (map (\<lambda>x. if rr_id x = rid \<and> rr_zone x = zr_id z then ?row else x) (db_records db)) = insert ?row (set (db_records db) - {r})"
    by (rule set_map_one [where P = "\<lambda>x. rr_id x = rid \<and> rr_zone x = zr_id z" and f = "\<lambda>_. ?row", OF changed(1)])
      (use changed(2,3) u in blast)+
  moreover have "set (db_records db) - {r} = {x \<in> set (db_records db). rr_id x \<noteq> rid}"
    by (rule id_others [where f = rr_id, OF changed(1,2) u])
  moreover have "rr_id ?row = rid" using changed(2) by simp
  ultimately have rows: "set (db_records (snd (update_record now rid (zr_id z) name t (uint ttl) v w db))) =
      insert ?row {x \<in> set (db_records db). rr_id x \<noteq> rr_id ?row}" unfolding changed(7) by simp
  show ?thesis
  proof (rule db_write.row [OF _ rows assms(2,3)])
    show "loadRow L ?row \<noteq> None" using assms(4) by (intro row_text_loadRow) simp_all
    show "rr_updated ?row = now" using assms(1) by (simp add: stamp_record_def db_wf_def schema_ok_simps)
    show "rr_zone x = rr_zone ?row \<and> row_key L x = row_key L ?row" if "x \<in> set (db_records db)" "rr_id x = rr_id ?row" for x
      using u [OF that(1)] that(2) changed(2) assms(5) [OF changed(1,2)] by (simp add: row_key_def)
  qed (use changed assms(4) in \<open>simp_all add: row_text_ok_def\<close>)
qed

lemma write_UpdateRecord:
  assumes "db_wf db" and "z \<in> set (db_zones db)" and "zr_deleted z = None"
    and "row_text_ok L (r_Name rec) (typeName L (r_Type rec)) (r_TTL rec) (r_Value rec)"
    and "\<And>r. r \<in> set (db_records db) \<Longrightarrow> rr_id r = rid \<Longrightarrow> rr_name r = r_Name rec \<and> rr_type r = typeName L (r_Type rec)"
  shows "db_write L now db (snd (UpdateRecord L fate now db (zr_id z) rid rec))"
  unfolding snd_calls by (rule write_run_stmt, rule write_update_record) (fact assms)+

lemma loadRow_deleted [simp]: "loadRow L (stamp_record db now (r\<lparr>rr_deleted := d\<rparr>)) = loadRow L r"
proof -
  have "loadRow L r' = loadRow L r" if "rr_id r' = rr_id r" "rr_name r' = rr_name r" "rr_type r' = rr_type r" "rr_ttl r' = rr_ttl r"
    "rr_value r' = rr_value r" "rr_weight r' = rr_weight r" for r' :: rec_row
    unfolding loadRow_def that ..
  from this [of "stamp_record db now (r\<lparr>rr_deleted := d\<rparr>)"] show ?thesis by simp
qed

lemma write_delete_record:
  assumes "db_wf db" and "z \<in> set (db_zones db)" and "zr_deleted z = None" and "rows_ok L db"
  shows "db_write L now db (snd (delete_record now rid (zr_id z) db))"
proof (cases "\<exists>r \<in> set (db_records db). active_record rid (zr_id z) r")
  case True
  then obtain r where r: "r \<in> set (db_records db)" "active_record rid (zr_id z) r" by auto
  have sch: "schema_ok db" using assms by (simp add: db_wf_def)
  have u: "x = r" if "x \<in> set (db_records db)" "rr_id x = rid" for x
    using row_id [OF assms(1) that(1) r(1)] that(2) r(2) by (simp add: active_record_def)
  let ?row = "stamp_record db now (r\<lparr>rr_deleted := Some now\<rparr>)"
  have i: "rr_id r = rid" using r(2) by (simp add: active_record_def)
  have others: "set (db_records db) - {r} = {x \<in> set (db_records db). rr_id x \<noteq> rid}"
    by (rule id_others [where f = rr_id, OF r(1) i u])
  have ua: "x = r" if "x \<in> set (db_records db)" "active_record rid (zr_id z) x" for x
    using that by (intro u) (simp_all add: active_record_def)
  have "rr_id ?row = rid" using i by simp
  then have rows: "set (db_records (snd (delete_record now rid (zr_id z) db))) = insert ?row {x \<in> set (db_records db). rr_id x \<noteq> rr_id ?row}"
    using set_map_one [where P = "active_record rid (zr_id z)", OF r ua, of "\<lambda>r. stamp_record db now (r\<lparr>rr_deleted := Some now\<rparr>)"] sch
    unfolding others by (simp add: delete_record_def schema_ok_simps)
  show ?thesis
  proof (rule db_write.row [OF _ rows assms(2,3)])
    show "rr_zone x = rr_zone ?row \<and> row_key L x = row_key L ?row" if "x \<in> set (db_records db)" "rr_id x = rr_id ?row" for x
      using u [OF that(1)] that(2) r(2) by (simp add: row_key_def active_record_def)
    show "rr_updated ?row = now" using sch by (simp add: stamp_record_def schema_ok_simps)
    show "loadRow L ?row \<noteq> None" "HasSuffix (rr_name ?row) ''.''" using assms(4) r(1) by (simp_all add: rows_ok_def)
    show "rr_zone ?row = zr_id z" using r(2) by (simp add: active_record_def)
  qed (simp add: delete_record_def)
next
  case False
  then show ?thesis
    by (intro db_write.same) (simp_all add: delete_record_def map_none [where P = "active_record rid (zr_id z)"])
qed

lemma write_SoftDeleteRecord:
  "db_wf db \<Longrightarrow> z \<in> set (db_zones db) \<Longrightarrow> zr_deleted z = None \<Longrightarrow> rows_ok L db \<Longrightarrow>
     db_write L now db (snd (SoftDeleteRecord fate now db (zr_id z) rid))"
  unfolding snd_calls by (intro write_run_stmt write_delete_record)

section \<open>Writes to the store\<close>

lemma tracks_key:
  assumes "tracks L Z I db s" and "r \<in> set (db_records db)" and "(k, x) \<in> contents s a" and "r_ID x = rr_id r"
  shows "k = row_key L r"
proof -
  obtain z' r' where "r' \<in> set (db_records db)" "rr_id r' = r_ID x" "k = row_key L r'"
    using tracksD(4) [OF assms(1)] assms(3) unfolding keyed_mem by metis
  moreover from this have "r' = r" using row_id [OF tracksD(1) [OF assms(1)] _ assms(2)] assms(4) by simp
  ultimately show ?thesis by simp
qed

text \<open>
  What stands under the identifier of a row is replaced in the zone of the row, by elements \<open>X\<close> that are filed
  where the row belongs: if \<open>X\<close> is what the database has there, the identifier need not be excepted any more.
\<close>

lemma tracks_replace:
  assumes f: "tracks L Z I db s" and ids: "ids_ok s'"
    and z: "z \<in> set (db_zones db)" and r: "r \<in> set (db_records db)" "rr_zone r = zr_id z"
    and c: "\<And>b. contents s' b = (if b = fqdn (zr_name z) then X \<union> {(k, x) \<in> contents s b. r_ID x \<noteq> rr_id r} else contents s b)"
    and X: "\<And>k x. (k, x) \<in> X \<Longrightarrow> r_ID x = rr_id r \<and> k = row_key L r"
    and ok: "\<And>k x. \<not> Z (fqdn (zr_name z)) \<Longrightarrow> rr_id r \<notin> I' (fqdn (zr_name z)) \<Longrightarrow> r_ID x = rr_id r \<Longrightarrow>
      (k, x) \<in> X \<longleftrightarrow> (k, x) \<in> db_contents L db (fqdn (zr_name z))"
    and I: "\<And>b. I b \<subseteq> I' b \<union> (if b = fqdn (zr_name z) then {rr_id r} else {})"
  shows "tracks L Z I' db s'"
proof (rule tracksI [OF tracksD(1,2) [OF f] ids])
  note wf = tracksD(1) [OF f] and ok' = tracksD(2) [OF f]
  show "keyed L db s'"
    unfolding keyed_mem
  proof (intro allI impI)
    fix a k x assume "(k, x) \<in> contents s' a"
    then consider "a = fqdn (zr_name z)" "(k, x) \<in> X" | "(k, x) \<in> contents s a" unfolding c by (auto split: if_splits)
    then show "\<exists>z \<in> set (db_zones db). \<exists>r \<in> set (db_records db). rr_zone r = zr_id z \<and> fqdn (zr_name z) = a \<and> rr_id r = r_ID x \<and> k = row_key L r"
    proof cases
      case 1
      then show ?thesis using z r X by metis
    next
      case 2
      then show ?thesis using tracksD(4) [OF f] unfolding keyed_mem by blast
    qed
  qed
  fix a k and x :: Record assume a: "\<not> Z a" "r_ID x \<notin> I' a"
  show "(k, x) \<in> contents s' a \<longleftrightarrow> (k, x) \<in> db_contents L db a"
  proof (cases "a = fqdn (zr_name z) \<and> r_ID x = rr_id r")
    case True
    then show ?thesis using ok [of x k] a unfolding c by auto
  next
    case False
    then have "(k, x) \<in> contents s' a \<longleftrightarrow> (k, x) \<in> contents s a" unfolding c using X by auto
    moreover have "r_ID x \<notin> I a" using I [of a] a(2) False by (auto split: if_splits)
    ultimately show ?thesis using tracksD(5) [OF f a(1)] by simp
  qed
qed

text \<open>Storing what an active row stands for, dropping a deleted record, emptying a zone without records.\<close>

lemma tracks_put:
  assumes f: "tracks L Z I db s" and z: "z \<in> set (db_zones db)" and r: "r \<in> set (db_records db)" "rr_zone r = zr_id z"
    and rec: "r_ID rec = rr_id r" "key_of rec = row_key L r"
    and ok: "Z (fqdn (zr_name z)) \<or> rr_id r \<in> I' (fqdn (zr_name z)) \<or> zr_deleted z = None \<and> rr_deleted r = None \<and> loadRow L r = Some rec"
    and I: "\<And>b. I b \<subseteq> I' b \<union> (if b = fqdn (zr_name z) then {rr_id r} else {})"
  shows "tracks L Z I' db (snd (PutRecord s (fqdn (zr_name z)) rec))"
proof -
  have pos: "0 < r_ID rec" using row_ok(1) [OF tracksD(1) [OF f] r(1)] rec(1) by simp
  have nm: "k = key_of rec" if "(k, x) \<in> contents s (fqdn (zr_name z))" "r_ID x = r_ID rec" for k x
    using tracks_key [OF f r(1) that(1)] that(2) rec by simp
  note c = contents_put [OF tracksD(3) [OF f] pos nm]
  show ?thesis
  proof (rule tracks_replace [OF f c(2) z r, where X = "{(key_of rec, rec)}"])
    show "(k, x) \<in> {(key_of rec, rec)} \<longleftrightarrow> (k, x) \<in> db_contents L db (fqdn (zr_name z))"
      if "\<not> Z (fqdn (zr_name z))" "rr_id r \<notin> I' (fqdn (zr_name z))" "r_ID x = rr_id r" for k x
      using that ok db_contents_id [OF tracksD(1,2) [OF f] z r that(3), of k "fqdn (zr_name z)"] by auto
  qed (use rec c(1) I in auto)
qed

lemma tracks_drop:
  assumes f: "tracks L Z I db s" and "range_ok ord" and z: "z \<in> set (db_zones db)"
    and r: "r \<in> set (db_records db)" "rr_zone r = zr_id z"
    and ok: "Z (fqdn (zr_name z)) \<or> rr_id r \<in> I' (fqdn (zr_name z)) \<or> rr_deleted r \<noteq> None"
    and I: "\<And>b. I b \<subseteq> I' b \<union> (if b = fqdn (zr_name z) then {rr_id r} else {})"
  shows "tracks L Z I' db (snd (DropRecord ord s (fqdn (zr_name z)) (rr_id r)))"
proof (rule tracks_replace [OF f _ z r, where X = "{}"])
  note c = contents_drop [OF assms(2) tracksD(3) [OF f]]
  show "ids_ok (snd (DropRecord ord s (fqdn (zr_name z)) (rr_id r)))" by (rule c(2))
  show "contents (snd (DropRecord ord s (fqdn (zr_name z)) (rr_id r))) b =
      (if b = fqdn (zr_name z) then {} \<union> {(k, x) \<in> contents s b. r_ID x \<noteq> rr_id r} else contents s b)" for b
    unfolding c(1) by simp
  show "(k, x) \<in> {} \<longleftrightarrow> (k, x) \<in> db_contents L db (fqdn (zr_name z))"
    if "\<not> Z (fqdn (zr_name z))" "rr_id r \<notin> I' (fqdn (zr_name z))" "r_ID x = rr_id r" for k x
    using that ok db_contents_id [OF tracksD(1,2) [OF f] z r that(3), of k "fqdn (zr_name z)"] by auto
qed (use I in auto)

lemma tracks_cleared:
  assumes f: "tracks L Z I db s" and "ids_ok s'" and c: "\<And>b. contents s' b = (if b = apex then {} else contents s b)"
    and "db_contents L db apex = {}" and Z: "\<And>b. Z b \<Longrightarrow> Z' b \<or> b = apex"
  shows "tracks L Z' I db s'"
proof (rule tracksI [OF tracksD(1,2) [OF f] assms(2)])
  show "keyed L db s'" using tracksD(4) [OF f] unfolding keyed_def c by auto
  show "(k, x) \<in> contents s' a \<longleftrightarrow> (k, x) \<in> db_contents L db a" if "\<not> Z' a" "r_ID x \<notin> I a" for a k x
    using that Z [of a] tracksD(5) [OF f, of a x k] assms(4) unfolding c by auto
qed

lemma contents_update_empty:
  "contents (snd (Update s \<lparr>z_Name = apex, z_Records = fmempty, z_SOA = None\<rparr>)) a = (if a = apex then {} else contents s a)"
  by (simp add: contents_def Update_def records_of_def)

lemma ids_ok_update_empty: "ids_ok s \<Longrightarrow> ids_ok (snd (Update s \<lparr>z_Name = apex, z_Records = fmempty, z_SOA = None\<rparr>))"
  by (auto simp: ids_ok_def Update_def records_of_def unique_ids_def)

lemma tracks_empty:
  assumes f: "tracks L Z I db s" and "db_contents L db apex = {}" and "\<And>b. Z b \<Longrightarrow> Z' b \<or> b = apex"
  shows "tracks L Z' I db (snd (Update s \<lparr>z_Name = apex, z_Records = fmempty, z_SOA = None\<rparr>))"
    and "tracks L Z' I db (snd (Delete s apex))"
  by (rule tracks_cleared [OF f _ _ assms(2,3)];
      simp add: contents_update_empty ids_ok_update_empty contents_delete tracksD(3) [OF f])+

lemma no_contents:
  assumes "db_wf db" and "rows_ok L db" and "z \<in> set (db_zones db)"
    and "zr_deleted z \<noteq> None \<or> (\<forall>r \<in> set (db_records db). rr_zone r \<noteq> zr_id z)"
  shows "db_contents L db (fqdn (zr_name z)) = {}"
proof -
  have "(k, x) \<notin> db_contents L db (fqdn (zr_name z))" for k x
  proof
    assume "(k, x) \<in> db_contents L db (fqdn (zr_name z))"
    then obtain z' r where z': "z' \<in> set (db_zones db)" "r \<in> set (db_records db)" "rr_zone r = zr_id z'" "fqdn (zr_name z') = fqdn (zr_name z)"
      "zr_deleted z' = None" by (rule db_contents_row)
    then have "z' = z" using zone_name [OF assms(1,2) z'(1) assms(3)] by simp
    then show False using z' assms(4) by auto
  qed
  then show ?thesis by auto
qed

section \<open>Requests\<close>

definition node :: "mdns_lib \<Rightarrow> pg_env \<Rightarrow> range_oracle \<Rightarrow> (DB, RWMutexStore) Server" where
  "node L E ord = \<lparr>srv_pg = PG_iface L E, srv_store = RWMutexStore_iface ord\<rparr>"

lemma node_simps [simp]: "srv_pg (node L E ord) = PG_iface L E" "srv_store (node L E ord) = RWMutexStore_iface ord"
  by (simp_all add: node_def)

text \<open>
  The requests the result is about: a domain that exists is not created again, a record is not renamed
  and does not change its type, and the type of a record is not the empty string (which binding rejects).
\<close>

fun benign :: "DB \<Rightarrow> route \<Rightarrow> bool" where
  "benign db (POST_domains (Inr req)) = (\<forall>z \<in> set (db_zones db). \<not> active_zone (FQDN (cq_Name req)) z)"
| "benign db (POST_records domain (Inr req)) = (rq_Type req \<noteq> [])"
| "benign db (PUT_record domain i (Inr req)) = (rq_Type req \<noteq> [] \<and>
     (\<forall>r \<in> set (db_records db). ParseInt i = Inr (rr_id r) \<longrightarrow> rr_name r = FQDN (rq_Name req) \<and> rr_type r = rq_Type req))"
| "benign db route = True"

lemma no_active_contents:
  assumes "rows_ok L db" and "HasSuffix apex ''.''" and "\<And>z. z \<in> set (db_zones db) \<Longrightarrow> active_zone apex z \<Longrightarrow> \<forall>r \<in> set (db_records db). rr_zone r \<noteq> zr_id z"
  shows "db_contents L db apex = {}"
proof -
  have False if "(k, x) \<in> db_contents L db apex" for k x
  proof -
    from that obtain z r where z: "z \<in> set (db_zones db)" "r \<in> set (db_records db)" "rr_zone r = zr_id z" "fqdn (zr_name z) = apex"
      "zr_deleted z = None" by (rule db_contents_row)
    then have "active_zone apex z" using assms(1) by (simp add: active_zone_def rows_ok_def)
    then show False using assms(3) z(1-3) by blast
  qed
  then show ?thesis by auto
qed

lemma created_zone_empty:
  assumes w: "db_write L now db db'" and wf: "db_wf db" and ok: "rows_ok L db" and "HasSuffix apex ''.''"
    and no: "\<forall>z \<in> set (db_zones db). \<not> active_zone apex z"
  shows "db_contents L db' apex = {}"
proof (rule no_active_contents [OF db_write_rows_ok [OF w ok] assms(4)])
  fix z assume z: "z \<in> set (db_zones db')" "active_zone apex z"
  from w show "\<forall>r \<in> set (db_records db'). rr_zone r \<noteq> zr_id z"
  proof cases
    case (zone y)
    then have "z = y" using z no by auto
    then show ?thesis using zone(2,4) row_ok(5) [OF wf] by metis
  next
    case (unzone y y')
    then show ?thesis using z no by (auto simp: active_zone_def)
  qed (use z no in auto)
qed

lemma deleted_zone_inactive:
  assumes "SoftDeleteZone fate now db apex = (None, db')" and "z \<in> set (db_zones db')" shows "\<not> active_zone apex z"
proof -
  obtain n where n: "run_stmt fate (delete_zone now apex) db = (Inr n, db')"
    using assms(1) by (auto simp: SoftDeleteZone_def split: prod.splits sum.splits)
  let ?f = "\<lambda>z. if active_zone apex z then stamp_zone db now (z\<lparr>zr_deleted := Some now\<rparr>) else z"
  have "delete_zone now apex db = (Inr n, db')" using n by (rule run_stmt_Inr)
  then have "db' = db\<lparr>db_zones := map ?f (db_zones db)\<rparr>" by (simp add: delete_zone_def split: if_splits)
  then have "z \<in> ?f ` set (db_zones db)" using assms(2) by simp
  then obtain y where "z = ?f y" by (rule imageE)
  then show ?thesis by (cases "active_zone apex y") (simp_all, simp add: active_zone_def)
qed

lemma deleted_record_row:
  assumes "SoftDeleteRecord fate now db zid rid = (None, db')"
  obtains r where "r \<in> set (db_records db')" "rr_id r = rid" "rr_zone r = zid" "rr_deleted r \<noteq> None"
proof -
  obtain n where n: "run_stmt fate (delete_record now rid zid) db = (Inr n, db')" "n \<noteq> 0"
    using assms by (auto simp: SoftDeleteRecord_def split: prod.splits sum.splits if_splits)
  have d: "delete_record now rid zid db = (Inr n, db')" using n(1) by (rule run_stmt_Inr)
  then have "filter (active_record rid zid) (db_records db) \<noteq> []" using n(2) by (auto simp: delete_record_def split: if_splits)
  then obtain r where r: "r \<in> set (db_records db)" "active_record rid zid r" by (auto simp: filter_empty_conv)
  then have "stamp_record db now (r\<lparr>rr_deleted := Some now\<rparr>) \<in> set (db_records db')"
    using d by (force simp: delete_record_def split: if_splits)
  then show ?thesis by (rule that) (use r(2) in \<open>simp_all add: active_record_def\<close>)
qed

lemma GetZone_zone:
  assumes "GetZone fate db (FQDN domain) = Inr zone"
  obtains z where "z \<in> set (db_zones db)" "zr_deleted z = None" "zr_id z = zm_ID zone" "zr_name z = FQDN domain" "fqdn (zr_name z) = FQDN domain"
  using GetZone_Inr [OF assms] by (auto simp: active_zone_def)

lemma req_text_ok:
  assumes "mdns_ok L" and "StringToType L (rq_Type req) = Some qtype" and "rq_Type req \<noteq> []" and "NewRR L (reqText req) = Inr rr"
  shows "row_text_ok L (FQDN (rq_Name req)) (typeName L qtype) (rq_TTL req) (rq_Value req)"
  using assms known_typeI [OF assms(1-3)] by (simp add: row_text_ok_def)

text \<open>A row that was scanned into a record is loaded as the same record.\<close>

lemma scanned_loadRow:
  assumes "db_wf db" and "rows_ok L db" and "r \<in> set (db_records db)" and "scan_record L r = Inr rec"
  shows "loadRow L r = Some rec"
proof -
  have "StringToType L (rr_type r) \<noteq> None"
    using assms(2,3) by (auto simp: rows_ok_def loadRow_def Let_def split: option.splits)
  then show ?thesis
    using loadRow_scan [of r L] row_ok(3,4) [OF assms(1,3)] assms by (simp add: rows_ok_def)
qed

text \<open>The database calls of the handlers, with the arguments they make them with.\<close>

lemma write_create:
  assumes "db_wf db" and "mdns_ok L" and "StringToType L (rq_Type req) = Some qtype" and "rq_Type req \<noteq> []"
    and "NewRR L (reqText req) = Inr rr" and g: "GetZone gfate db (FQDN domain) = Inr zone"
    and "CreateRecord L fate now db (zm_ID zone) (reqRecord 0 req qtype rr) = (res, db')"
  shows "db_write L now db db' \<and> db_wf db'"
proof -
  obtain z where z: "z \<in> set (db_zones db)" "zr_deleted z = None" "zr_id z = zm_ID zone" using g by (rule GetZone_zone)
  show ?thesis
    using write_CreateRecord [OF assms(1) z(1,2), of L "reqRecord 0 req qtype rr" now fate] req_text_ok [OF assms(2-5)]
      db_wf_CreateRecord [OF assms(1), of L fate now "zm_ID zone" "reqRecord 0 req qtype rr"] z(3) assms(7) by simp
qed

lemma write_update:
  assumes "db_wf db" and "mdns_ok L" and "StringToType L (rq_Type req) = Some qtype" and "rq_Type req \<noteq> []"
    and "NewRR L (reqText req) = Inr rr" and g: "GetZone gfate db (FQDN domain) = Inr zone"
    and "UpdateRecord L fate now db (zm_ID zone) rid (reqRecord rid req qtype rr) = (res, db')"
    and "\<And>r. r \<in> set (db_records db) \<Longrightarrow> rr_id r = rid \<Longrightarrow> rr_name r = FQDN (rq_Name req) \<and> rr_type r = rq_Type req"
  shows "db_write L now db db' \<and> db_wf db'"
proof -
  obtain z where z: "z \<in> set (db_zones db)" "zr_deleted z = None" "zr_id z = zm_ID zone" using g by (rule GetZone_zone)
  have "typeName L qtype = rq_Type req" using known_typeI [OF assms(2-4)] by simp
  then show ?thesis
    using write_UpdateRecord [OF assms(1) z(1,2), of L "reqRecord rid req qtype rr" rid now fate] req_text_ok [OF assms(2-5)]
      db_wf_UpdateRecord [OF assms(1), of L fate now "zm_ID zone" rid "reqRecord rid req qtype rr"] z(3) assms(7,8) by simp
qed

lemma write_delete:
  assumes "db_wf db" and "rows_ok L db" and g: "GetZone gfate db (FQDN domain) = Inr zone"
    and "SoftDeleteRecord fate now db (zm_ID zone) rid = (res, db')"
  shows "db_write L now db db' \<and> db_wf db'"
proof -
  obtain z where z: "z \<in> set (db_zones db)" "zr_deleted z = None" "zr_id z = zm_ID zone" using g by (rule GetZone_zone)
  show ?thesis
    using write_SoftDeleteRecord [OF assms(1) z(1,2) assms(2), of now fate rid] db_wf_SoftDeleteRecord [OF assms(1), of fate now "zm_ID zone" rid]
      z(3) assms(4) by simp
qed

lemma domain_request_write:
  assumes "db_wf db"
  shows "createDomain (node L E ord) alone bound (db, s) = ((st, bd), db', s') \<Longrightarrow> db_write L (pe_now E) db db' \<and> db_wf db'"
    and "deleteDomain (node L E ord) alone domain (db, s) = ((st, bd), db', s') \<Longrightarrow> db_write L (pe_now E) db db' \<and> db_wf db'"
proof -
  note sp = arg_cong [where f = snd]
  have idle: "db_write L (pe_now E) db db" by (rule db_write.same) simp_all
  {
    assume "createDomain (node L E ord) alone bound (db, s) = ((st, bd), db', s')"
    then show "db_write L (pe_now E) db db' \<and> db_wf db'"
      by (cases rule: createDomain_cases)
        (use idle assms(1) write_CreateZone [OF assms(1) FQDN_suffix] db_wf_CreateZone [OF assms(1)] in \<open>auto dest!: sp\<close>)
  next
    assume "deleteDomain (node L E ord) alone domain (db, s) = ((st, bd), db', s')"
    then show "db_write L (pe_now E) db db' \<and> db_wf db'"
      by (cases rule: deleteDomain_cases)
        (use write_SoftDeleteZone [OF assms(1)] db_wf_SoftDeleteZone [OF assms(1)] in \<open>auto dest!: sp\<close>)
  }
qed

lemma record_request_write:
  assumes "db_wf db" and "rows_ok L db" and "mdns_ok L"
  shows "createRecord L (node L E ord) alone domain bound (db, s) = ((st, bd), db', s') \<Longrightarrow> benign db (POST_records domain bound) \<Longrightarrow>
      db_write L (pe_now E) db db' \<and> db_wf db'"
    and "updateRecord L (node L E ord) alone domain i bound (db, s) = ((st, bd), db', s') \<Longrightarrow> benign db (PUT_record domain i bound) \<Longrightarrow>
      db_write L (pe_now E) db db' \<and> db_wf db'"
    and "deleteRecord (node L E ord) alone domain i (db, s) = ((st, bd), db', s') \<Longrightarrow> db_write L (pe_now E) db db' \<and> db_wf db'"
proof -
  have idle: "db_write L (pe_now E) db db" by (rule db_write.same) simp_all
  {
    assume "createRecord L (node L E ord) alone domain bound (db, s) = ((st, bd), db', s')" and b: "benign db (POST_records domain bound)"
    then show "db_write L (pe_now E) db db' \<and> db_wf db'"
    proof (cases rule: createRecord_cases)
      case (failed req qtype rr zone err)
      then show ?thesis using b by (intro write_create [OF assms(1,3) failed(2) _ failed(3)]) auto
    next
      case (stored req qtype rr zone rec isNew)
      then show ?thesis using b by (intro write_create [OF assms(1,3) stored(2) _ stored(3)]) auto
    qed (use idle assms(1) in simp)
  next
    assume "updateRecord L (node L E ord) alone domain i bound (db, s) = ((st, bd), db', s')" and b: "benign db (PUT_record domain i bound)"
    then show "db_write L (pe_now E) db db' \<and> db_wf db'"
    proof (cases rule: updateRecord_cases)
      case (failed rid req qtype rr zone err)
      then show ?thesis using b by (intro write_update [OF assms(1,3) failed(3) _ failed(4)]) auto
    next
      case (stored rid req qtype rr zone rec)
      then show ?thesis using b by (intro write_update [OF assms(1,3) stored(3) _ stored(4)]) auto
    qed (use idle assms(1) in simp)
  next
    assume "deleteRecord (node L E ord) alone domain i (db, s) = ((st, bd), db', s')"
    then show "db_write L (pe_now E) db db' \<and> db_wf db'"
    proof (cases rule: deleteRecord_cases)
      case (failed rid zone err)
      then show ?thesis by (intro write_delete [OF assms(1,2)]) auto
    next
      case (dropped rid zone)
      then show ?thesis by (intro write_delete [OF assms(1,2)]) auto
    qed (use idle assms(1) in simp)
  }
qed

lemma request_write:
  assumes "db_wf db" and "rows_ok L db" and "mdns_ok L" and "benign db route"
    and "serveAPI L (node L E ord) alone route (db, s) = ((st, bd), db', s')"
  shows "db_write L (pe_now E) db db' \<and> db_wf db'"
proof -
  have idle: "db_write L (pe_now E) db db" by (rule db_write.same) simp_all
  note parts = domain_request_write [OF assms(1)] record_request_write [OF assms(1-3)]
  show ?thesis
    by (cases route) (use assms(1,4,5) idle parts in \<open>auto simp: listDomains_def listRecords_def healthz_def Let_def split: sum.splits\<close>)
qed

lemma run_stmt_zones: "db_zones (snd (f db)) = db_zones db \<Longrightarrow> db_zones (snd (run_stmt fate f db)) = db_zones db"
  using run_stmt_state [of fate f db] by auto

lemma record_calls_zones:
  shows CreateRecord_zones: "db_zones (snd (CreateRecord L fates now db zid rec)) = db_zones db"
    and UpdateRecord_zones: "db_zones (snd (UpdateRecord L fate now db zid rid rec)) = db_zones db"
    and SoftDeleteRecord_zones: "db_zones (snd (SoftDeleteRecord fate now db zid rid)) = db_zones db"
proof -
  let ?ins = "insert_record now zid (r_Name rec) (typeName L (r_Type rec)) (uint (r_TTL rec)) (r_Value rec) (r_Weight rec)"
  have "db_zones (snd (?ins db)) = db_zones db"
    by (cases rule: insert_record_cases [of now zid "r_Name rec" "typeName L (r_Type rec)" "uint (r_TTL rec)" "r_Value rec" "r_Weight rec" db]) simp_all
  then have i: "db_zones (snd (run_stmt (fates 0) ?ins db)) = db_zones db" by (rule run_stmt_zones)
  obtain res db1 where r: "run_stmt (fates 0) ?ins db = (res, db1)" by fastforce
  obtain res2 where "run_stmt (fates 1) (select_record zid (r_Name rec) (typeName L (r_Type rec)) (r_Value rec)) db1 = (res2, db1)"
    by (metis run_stmt_select select_record_state prod.collapse)
  then show "db_zones (snd (CreateRecord L fates now db zid rec)) = db_zones db"
    using r i by (auto simp: CreateRecord_def Let_def split: sum.split)
  show "db_zones (snd (UpdateRecord L fate now db zid rid rec)) = db_zones db"
    unfolding snd_calls
    by (rule run_stmt_zones, cases rule: update_record_cases [of now rid zid "r_Name rec" "typeName L (r_Type rec)" "uint (r_TTL rec)" "r_Value rec" "r_Weight rec" db]) simp_all
  show "db_zones (snd (SoftDeleteRecord fate now db zid rid)) = db_zones db"
    unfolding snd_calls by (rule run_stmt_zones) (simp add: delete_record_def)
qed

text \<open>The row behind a record that a write returned, and the row that a deletion left.\<close>

lemma created_row:
  assumes "db_wf db" and g: "GetZone gfate db (FQDN domain) = Inr zone"
    and c: "CreateRecord L fates now db (zm_ID zone) rec0 = (Inr (rec, isNew), db')" and "db_wf db'" and "rows_ok L db'"
  obtains z r where "z \<in> set (db_zones db')" "zr_deleted z = None" "fqdn (zr_name z) = FQDN domain"
    "r \<in> set (db_records db')" "rr_zone r = zr_id z" "rr_deleted r = None" "loadRow L r = Some rec"
proof -
  obtain z where z: "z \<in> set (db_zones db)" "zr_deleted z = None" "zr_id z = zm_ID zone" "fqdn (zr_name z) = FQDN domain"
    using g by (rule GetZone_zone)
  note cf = arg_cong [OF c, of fst, unfolded fst_conv] and cs = arg_cong [OF c, of snd, unfolded snd_conv]
  obtain r where r: "scan_record L r = Inr rec" "r \<in> set (db_records db')" "rr_zone r = zm_ID zone" "rr_deleted r = None"
    using CreateRecord_row [OF assms(1) cf] unfolding cs by blast
  show ?thesis
    by (rule that [of z r]) (use z r CreateRecord_zones [of L fates now db "zm_ID zone" rec0] cs scanned_loadRow [OF assms(4,5) r(2,1)] in simp_all)
qed

lemma updated_row:
  assumes "db_wf db" and g: "GetZone gfate db (FQDN domain) = Inr zone"
    and c: "UpdateRecord L fate now db (zm_ID zone) rid rec0 = (Inr rec, db')" and "db_wf db'" and "rows_ok L db'"
  obtains z r where "z \<in> set (db_zones db')" "zr_deleted z = None" "fqdn (zr_name z) = FQDN domain"
    "r \<in> set (db_records db')" "rr_zone r = zr_id z" "rr_deleted r = None" "loadRow L r = Some rec" "rr_id r = rid"
proof -
  obtain z where z: "z \<in> set (db_zones db)" "zr_deleted z = None" "zr_id z = zm_ID zone" "fqdn (zr_name z) = FQDN domain"
    using g by (rule GetZone_zone)
  note cf = arg_cong [OF c, of fst, unfolded fst_conv] and cs = arg_cong [OF c, of snd, unfolded snd_conv]
  obtain r where r: "scan_record L r = Inr rec" "r \<in> set (db_records db')" "rr_zone r = zm_ID zone" "rr_deleted r = None" "rr_id r = rid"
    using UpdateRecord_row [OF assms(1) cf] unfolding cs by blast
  show ?thesis
    by (rule that [of z r]) (use z r UpdateRecord_zones [of L fate now db "zm_ID zone" rid rec0] cs scanned_loadRow [OF assms(4,5) r(2,1)] in simp_all)
qed

lemma dropped_row:
  assumes g: "GetZone gfate db (FQDN domain) = Inr zone" and c: "SoftDeleteRecord fate now db (zm_ID zone) rid = (None, db')"
  obtains z r where "z \<in> set (db_zones db')" "fqdn (zr_name z) = FQDN domain"
    "r \<in> set (db_records db')" "rr_zone r = zr_id z" "rr_deleted r \<noteq> None" "rr_id r = rid"
proof -
  obtain z where z: "z \<in> set (db_zones db)" "zr_id z = zm_ID zone" "fqdn (zr_name z) = FQDN domain"
    using g by (rule GetZone_zone)
  obtain r where r: "r \<in> set (db_records db')" "rr_id r = rid" "rr_zone r = zm_ID zone" "rr_deleted r \<noteq> None"
    using c by (rule deleted_record_row)
  show ?thesis
    by (rule that [of z r]) (use z r SoftDeleteRecord_zones [of fate now db "zm_ID zone" rid] c in simp_all)
qed

text \<open>The store write of a handler, after its database write: first the domains, then the records.\<close>

lemma domain_request_tracks:
  assumes f': "tracks L Z I db' s" and w: "db_write L (pe_now E) db db'" and wf: "db_wf db" and ok: "rows_ok L db"
  shows "createDomain (node L E ord) alone bound (db, s) = ((st, bd), db', s') \<Longrightarrow> benign db (POST_domains bound) \<Longrightarrow> tracks L Z I db' s'"
    and "deleteDomain (node L E ord) alone domain (db, s) = ((st, bd), db', s') \<Longrightarrow> tracks L Z I db' s'"
proof -
  assume "createDomain (node L E ord) alone bound (db, s) = ((st, bd), db', s')" and b: "benign db (POST_domains bound)"
  then show "tracks L Z I db' s'"
  proof (cases rule: createDomain_cases)
    case (stored req meta created)
    then have "db_contents L db' (FQDN (cq_Name req)) = {}" using created_zone_empty [OF w wf ok FQDN_suffix] b by simp
    then show ?thesis using tracks_empty(1) [OF f'] stored(5) by simp
  qed (use f' in simp_all)
next
  assume "deleteDomain (node L E ord) alone domain (db, s) = ((st, bd), db', s')"
  then show "tracks L Z I db' s'"
  proof (cases rule: deleteDomain_cases)
    case dropped
    then have "\<not> active_zone (FQDN domain) z" if "z \<in> set (db_zones db')" for z
      using deleted_zone_inactive [of "pe_deleteZone E" "pe_now E" db "FQDN domain" db' z] that by simp
    then have "db_contents L db' (FQDN domain) = {}" using no_active_contents [OF tracksD(2) [OF f'] FQDN_suffix, of domain] by blast
    then show ?thesis using tracks_empty(2) [OF f'] dropped(4) by simp
  qed (use f' in simp_all)
qed

lemma record_request_tracks:
  assumes f': "tracks L Z I db' s" and wf: "db_wf db" and "range_ok ord"
  shows "createRecord L (node L E ord) alone domain bound (db, s) = ((st, bd), db', s') \<Longrightarrow> tracks L Z I db' s'"
    and "updateRecord L (node L E ord) alone domain i bound (db, s) = ((st, bd), db', s') \<Longrightarrow> tracks L Z I db' s'"
    and "deleteRecord (node L E ord) alone domain i (db, s) = ((st, bd), db', s') \<Longrightarrow> tracks L Z I db' s'"
proof -
  note db' = tracksD(1,2) [OF f']
  have put: "tracks L Z I db' (snd (PutRecord s (FQDN domain) rec))"
    if "z \<in> set (db_zones db')" "zr_deleted z = None" "fqdn (zr_name z) = FQDN domain"
      "r \<in> set (db_records db')" "rr_zone r = zr_id z" "rr_deleted r = None" "loadRow L r = Some rec" for z r rec
    unfolding that(3) [symmetric] using that loadRow_fields [OF that(7)] by (intro tracks_put [OF f']) auto
  {
    assume "createRecord L (node L E ord) alone domain bound (db, s) = ((st, bd), db', s')"
    then show "tracks L Z I db' s'"
    proof (cases rule: createRecord_cases)
      case (stored req qtype rr zone rec isNew)
      have "tracks L Z I db' (snd (PutRecord s (FQDN domain) rec))"
        by (rule created_row [OF wf _ _ db']) (use stored in simp, use stored in simp, erule (6) put)
      then show ?thesis using stored(8) by simp
    qed (use f' in simp_all)
  next
    assume "updateRecord L (node L E ord) alone domain i bound (db, s) = ((st, bd), db', s')"
    then show "tracks L Z I db' s'"
    proof (cases rule: updateRecord_cases)
      case (stored rid req qtype rr zone rec)
      have "tracks L Z I db' (snd (PutRecord s (FQDN domain) rec))"
        by (rule updated_row [OF wf _ _ db']) (use stored in simp, use stored in simp, erule (6) put)
      then show ?thesis using stored(9) by simp
    qed (use f' in simp_all)
  next
    assume "deleteRecord (node L E ord) alone domain i (db, s) = ((st, bd), db', s')"
    then show "tracks L Z I db' s'"
    proof (cases rule: deleteRecord_cases)
      case (dropped rid zone)
      obtain z r where z: "z \<in> set (db_zones db')" "fqdn (zr_name z) = FQDN domain"
        "r \<in> set (db_records db')" "rr_zone r = zr_id z" "rr_deleted r \<noteq> None" "rr_id r = rid"
        by (rule dropped_row) (use dropped in simp_all)
      then have "tracks L Z I db' (snd (DropRecord ord s (fqdn (zr_name z)) (rr_id r)))" by (intro tracks_drop [OF f' assms(3)]) simp_all
      then show ?thesis using dropped(6) z(2,6) by simp
    qed (use f' in simp_all)
  }
qed

text \<open>
  A request at a later time than \<open>t\<close>: where the store tracked the database before, it does so afterwards,
  but for what the request wrote.
\<close>

lemma request_tracks:
  assumes f: "tracks L Z I db s" and "t < pe_now E" and "mdns_ok L" and "range_ok ord" and "benign db route"
    and sv: "serveAPI L (node L E ord) alone route (db, s) = ((st, bd), db', s')"
    and "\<And>a. Z a \<or> stale_zone t db' a \<Longrightarrow> Z' a" and "\<And>a. \<not> Z' a \<Longrightarrow> I a \<union> stale_ids t db' a \<subseteq> I' a"
  shows "tracks L Z' I' db' s'"
proof -
  note wf = tracksD(1) [OF f] and ok = tracksD(2) [OF f]
  have w: "db_write L (pe_now E) db db'" and wf': "db_wf db'" using request_write [OF wf ok assms(3,5) sv] by simp_all
  have f': "tracks L Z' I' db' s" by (rule tracks_write [OF w assms(2) f wf' assms(7,8)])
  note parts = domain_request_tracks [OF f' w wf ok] record_request_tracks [OF f' wf assms(4)]
  show ?thesis
    by (cases route) (use sv f f' assms(5) in \<open>auto simp: listDomains_def listRecords_def healthz_def Let_def split: sum.splits intro: parts\<close>)
qed

section \<open>The full load\<close>

lemma changed_rows_mem:
  "(z, r) \<in> set (changed_rows t db) \<longleftrightarrow> z \<in> set (db_zones db) \<and> r \<in> set (db_records db) \<and> rr_zone r = zr_id z \<and> t < rr_updated r \<and> zr_deleted z = None"
  by (auto simp: changed_rows_def join_rows_mem)

lemma tracks_exact:
  assumes "db_wf db" and "rows_ok L db" and "ids_ok s" and "\<And>a. contents s a = db_contents L db a" shows "tracks L Z I db s"
proof -
  have "keyed L db s"
    unfolding keyed_mem assms(4)
  proof (intro allI impI)
    fix a k x assume "(k, x) \<in> db_contents L db a"
    then obtain z r where "z \<in> set (db_zones db)" "r \<in> set (db_records db)" "rr_zone r = zr_id z" "fqdn (zr_name z) = a"
      "loadRow L r = Some x" "r_ID x = rr_id r" "k = key_of x" by (rule db_contents_row)
    then show "\<exists>z \<in> set (db_zones db). \<exists>r \<in> set (db_records db). rr_zone r = zr_id z \<and> fqdn (zr_name z) = a \<and> rr_id r = r_ID x \<and> k = row_key L r"
      using loadRow_fields(2) by metis
  qed
  then show ?thesis using assms by (simp add: tracks_def)
qed

lemma map_filter_mem: "x \<in> set (List.map_filter f xs) \<longleftrightarrow> (\<exists>y \<in> set xs. f y = Some x)"
  by (induction xs) (auto split: option.splits)

lemma loadable_Some: "loadable L a k zr = Some x \<longleftrightarrow> loadRow L (snd zr) = Some x \<and> fqdn (zr_name (fst zr)) = a \<and> k = key_of x"
  by (auto simp: loadable_def split: option.splits)

lemma db_contents_loadable:
  "x \<in> set (List.map_filter (loadable L a k) (filter active_row (join_rows db))) \<longleftrightarrow> (k, x) \<in> db_contents L db a"
  unfolding map_filter_mem loadable_Some db_contents_def by (auto; force)

lemma loaded_contents:
  assumes wf: "db_wf db" and "permutes scan" and "\<And>m. range_order (zord m) m"
  shows "\<exists>s'. LoadAll L (RWMutexStore_iface ord) Done None le scan zord db New = (None, s') \<and> ids_ok s' \<and>
    (\<forall>a. contents s' a = db_contents L db a)"
proof -
  obtain s' where s': "LoadAll L (RWMutexStore_iface ord) Done None le scan zord db New = (None, s')"
    and m: "\<And>a k. mset (rrset (records_of (zones s') a) k) = mset (List.map_filter (loadable L a k) (filter active_row (join_rows db)))"
    using LoadAll_loads [OF assms, of L ord le] by blast
  have "set (rrset (records_of (zones s') a) k) = set (List.map_filter (loadable L a k) (filter active_row (join_rows db)))" for a k
    using m by (metis set_mset_mset)
  then have "(k, x) \<in> contents s' a \<longleftrightarrow> (k, x) \<in> db_contents L db a" for a k x
    by (simp add: contents_def db_contents_loadable)
  then have c: "contents s' a = db_contents L db a" for a by auto
  have d: "distinct (map r_ID (List.map_filter (loadable L a k) rows))" if "distinct (map (rr_id \<circ> snd) rows)" for a k rows
    using that
  proof (induction rows)
    case (Cons zr rows)
    have i: "r_ID x = rr_id (snd y)" if "loadable L a k y = Some x" for x y
      using that loadRow_fields(1) [of L "snd y"] by (simp add: loadable_Some)
    have "rr_id (snd zr) \<notin> (rr_id \<circ> snd) ` set rows" using Cons.prems by simp
    then have "rr_id (snd zr) \<notin> r_ID ` set (List.map_filter (loadable L a k) rows)"
      unfolding map_filter_mem [THEN eq_reflection] image_iff by (metis comp_apply i map_filter_mem)
    then show ?case using Cons i [of zr] by (cases "loadable L a k zr") simp_all
  qed (simp add: List.map_filter_def)
  have "unique_ids (records_of (zones s') a)" for a
  proof (rule unique_ids_contents)
    show "distinct (map r_ID (rrset (records_of (zones s') a) k))" for k
      using d [OF distinct_map_filter [OF join_rows_ids [OF wf]]] m by (metis mset_eq_imp_distinct_iff mset_map)
    fix k k' x x' assume "x \<in> set (rrset (records_of (zones s') a) k)" "x' \<in> set (rrset (records_of (zones s') a) k')" and i: "r_ID x = r_ID x'"
    then have "(k, x) \<in> db_contents L db a" "(k', x') \<in> db_contents L db a" using c [of a] unfolding contents_def by blast+
    then obtain r r' where "r \<in> set (db_records db)" "loadRow L r = Some x" "k = key_of x" "r' \<in> set (db_records db)" "loadRow L r' = Some x'" "k' = key_of x'"
      by (metis db_contents_row)
    then show "k = k'" using row_id [OF wf] i loadRow_fields by metis
  qed
  then show ?thesis using s' c by (auto simp: ids_ok_def)
qed

lemma restart_contents:
  assumes "db_wf db" and "permutes scan" and "\<And>m. range_order (zord m) m"
    and "LoadAll L (RWMutexStore_iface ord) Done None le scan zord db New = (None, s')"
  shows "contents s' a = db_contents L db a"
  using loaded_contents [OF assms(1-3), of L ord le] assms(4) by auto

end
