(* ===== verification/Replica.thy ===== *)
theory Replica
  imports Consistency Loading
begin

text \<open>
  One instance as a replica of the database, over any interleaving of requests, here and elsewhere, with the
  single steps of incremental loads. The invariant says what the zone store may lack in each phase of a load;
  it makes the store catch up with every load that gets through, however much was written meanwhile.
\<close>

section \<open>What the store lacks\<close>

text \<open>
  The time whose changes the next load, or the one under way, does not have to catch; \<open>t\<close> is the start of the last
  load that got through.
\<close>

fun window :: "int \<Rightarrow> loading \<Rightarrow> int" where
  "window t Idle = t"
| "window t (Zones q zs) = q"
| "window t (Records q rs) = q"

text \<open>
  Between loads the store may lack what was written since \<open>t\<close>. During the first half of a load it may still have
  the deleted zones that have not been applied, and those that were deleted since the load began; during the
  second half it may lack the records that have not been applied, and those that were written since.
\<close>

fun lacks_zone :: "int \<Rightarrow> DB \<Rightarrow> loading \<Rightarrow> string \<Rightarrow> bool" where
  "lacks_zone t db Idle a = stale_zone t db a"
| "lacks_zone t db (Zones q zs) a = (stale_zone q db a \<or> (\<exists>z \<in> set zs. zr_deleted z \<noteq> None \<and> fqdn (zr_name z) = a))"
| "lacks_zone t db (Records q rs) a = stale_zone q db a"

fun lacks_ids :: "int \<Rightarrow> DB \<Rightarrow> loading \<Rightarrow> string \<Rightarrow> int set" where
  "lacks_ids t db Idle a = stale_ids t db a"
| "lacks_ids t db (Zones q zs) a = stale_ids t db a"
| "lacks_ids t db (Records q rs) a = stale_ids q db a \<union> {rr_id r | z r. (z, r) \<in> set rs \<and> fqdn (zr_name z) = a}"

text \<open>
  The rows still to be applied were changed since \<open>t\<close>; where they are no longer what the database holds, it was
  written after the load began.
\<close>

definition zone_pending :: "int \<Rightarrow> DB \<Rightarrow> zone_row \<Rightarrow> bool" where
  "zone_pending t db z \<longleftrightarrow> zr_deleted z \<noteq> None \<longrightarrow>
     (\<exists>z' \<in> set (db_zones db). zr_name z' = zr_name z \<and> zr_deleted z' \<noteq> None \<and> t < zr_updated z')"

definition row_pending :: "mdns_lib \<Rightarrow> int \<Rightarrow> int \<Rightarrow> DB \<Rightarrow> zone_row \<Rightarrow> rec_row \<Rightarrow> bool" where
  "row_pending L t q db z r \<longleftrightarrow> syncRow L r \<noteq> None \<and> syncRow L r = loadRow L r \<and>
     (\<exists>z' \<in> set (db_zones db). \<exists>r' \<in> set (db_records db). zr_id z' = zr_id z \<and> zr_name z' = zr_name z \<and>
        rr_id r' = rr_id r \<and> rr_zone r' = zr_id z \<and> row_key L r' = row_key L r \<and> t < rr_updated r' \<and>
        (zr_deleted z' = None \<or> q < zr_updated z') \<and> (r' = r \<or> q < rr_updated r'))"

fun pending_ok :: "mdns_lib \<Rightarrow> int \<Rightarrow> DB \<Rightarrow> loading \<Rightarrow> bool" where
  "pending_ok L t db Idle = True"
| "pending_ok L t db (Zones q zs) = (t \<le> q \<and> (\<forall>z \<in> set zs. zone_pending t db z))"
| "pending_ok L t db (Records q rs) = (t \<le> q \<and> (\<forall>(z, r) \<in> set rs. row_pending L t q db z r))"

definition catching_up :: "mdns_lib \<Rightarrow> int \<Rightarrow> DB \<Rightarrow> loading \<Rightarrow> RWMutexStore \<Rightarrow> bool" where
  "catching_up L t db ph s \<longleftrightarrow> tracks L (lacks_zone t db ph) (lacks_ids t db ph) db s \<and> pending_ok L t db ph"

lemma lacks_Idle: "lacks_zone t db Idle = stale_zone t db" "lacks_ids t db Idle = stale_ids t db"
  by (rule ext, simp)+

lemma catching_up_Idle: "catching_up L t db Idle s \<longleftrightarrow> follows L t db s"
  by (simp add: catching_up_def lacks_Idle)

section \<open>Requests\<close>

lemma window_ge: "pending_ok L t db ph \<Longrightarrow> t \<le> window t ph"
  by (cases ph) simp_all

text \<open>A write makes the store lack at most what it wrote, in each phase.\<close>

lemma lacks_zone_write:
  assumes "db_write L now db db'" and "window t ph < now" and "pending_ok L t db ph"
    and "lacks_zone t db ph a \<or> stale_zone (window t ph) db' a"
  shows "lacks_zone t db' ph a"
  using assms db_write_stale_zone [OF assms(1,2), of a] by (cases ph) auto

lemma lacks_ids_write:
  assumes "db_write L now db db'" and "db_wf db" and "window t ph < now" and "pending_ok L t db ph" and "\<not> lacks_zone t db' ph a"
  shows "lacks_ids t db ph a \<union> stale_ids (window t ph) db' a \<subseteq> lacks_ids t db' ph a"
proof -
  have "\<not> stale_zone (window t ph) db' a" using assms(5) by (cases ph) auto
  moreover have "stale_ids q db' a \<subseteq> stale_ids t db' a" if "t \<le> q" for q
    using that unfolding stale_ids_mem subset_iff by (meson le_less_trans)
  ultimately show ?thesis
    using db_write_stale_ids [OF assms(1-3) _ \<open>\<not> stale_zone (window t ph) db' a\<close>, of t]
      db_write_stale_ids [OF assms(1-3) order_refl, of a] window_ge [OF assms(4)] assms(4) by (cases ph) auto
qed

lemma zone_pending_write:
  assumes "db_write L now db db'" and "t < now" and "zone_pending t db z" shows "zone_pending t db' z"
  unfolding zone_pending_def
proof
  assume "zr_deleted z \<noteq> None"
  then obtain z' where z': "z' \<in> set (db_zones db)" "zr_name z' = zr_name z" "zr_deleted z' \<noteq> None" "t < zr_updated z'"
    using assms(3) by (auto simp: zone_pending_def)
  from assms(1) show "\<exists>z' \<in> set (db_zones db'). zr_name z' = zr_name z \<and> zr_deleted z' \<noteq> None \<and> t < zr_updated z'"
  proof cases
    case (unzone y y')
    then show ?thesis using z' assms(2) by (cases "z' = y") auto
  qed (use z' in auto)
qed

lemma row_pending_write:
  assumes "db_write L now db db'" and "t \<le> q" and "q < now" and "row_pending L t q db z r" shows "row_pending L t q db' z r"
proof -
  obtain z' r' where zr: "z' \<in> set (db_zones db)" "r' \<in> set (db_records db)" "zr_id z' = zr_id z" "zr_name z' = zr_name z"
    "rr_id r' = rr_id r" "rr_zone r' = zr_id z" "row_key L r' = row_key L r" "t < rr_updated r'"
    "zr_deleted z' = None \<or> q < zr_updated z'" "r' = r \<or> q < rr_updated r'"
    using assms(4) unfolding row_pending_def by blast
  have "\<exists>z' \<in> set (db_zones db'). \<exists>r' \<in> set (db_records db'). zr_id z' = zr_id z \<and> zr_name z' = zr_name z \<and>
        rr_id r' = rr_id r \<and> rr_zone r' = zr_id z \<and> row_key L r' = row_key L r \<and> t < rr_updated r' \<and>
        (zr_deleted z' = None \<or> q < zr_updated z') \<and> (r' = r \<or> q < rr_updated r')"
    using assms(1)
  proof cases
    case same
    then show ?thesis using zr by metis
  next
    case (zone y)
    then have "z' \<in> set (db_zones db')" using zr(1) by simp
    then show ?thesis using zr zone(2) by metis
  next
    case (unzone y y')
    define z2 where "z2 = (if z' = y then y' else z')"
    have "z2 \<in> set (db_zones db')" "zr_id z2 = zr_id z" "zr_name z2 = zr_name z" "zr_deleted z2 = None \<or> q < zr_updated z2"
      using unzone zr assms(3) by (auto simp: z2_def)
    then show ?thesis using zr(2,5-8,10) unzone(3) by metis
  next
    case (row y u)
    define r2 where "r2 = (if rr_id r' = rr_id y then y else r')"
    have "r2 \<in> set (db_records db')" "rr_id r2 = rr_id r" "rr_zone r2 = zr_id z" "row_key L r2 = row_key L r" "t < rr_updated r2"
      "r2 = r \<or> q < rr_updated r2"
      using row(2,6) row(7) [OF zr(2)] zr assms(2,3) by (auto simp: r2_def)
    then show ?thesis using zr(1,3,4,9) row(1) by metis
  qed
  then show ?thesis using assms(4) unfolding row_pending_def by blast
qed

lemma pending_ok_write:
  assumes "db_write L now db db'" and "window t ph < now" and "pending_ok L t db ph" shows "pending_ok L t db' ph"
  using assms window_ge [OF assms(3)] zone_pending_write [OF assms(1), of t] row_pending_write [OF assms(1), of t]
  by (cases ph) fastforce+

lemma catching_up_here:
  assumes f: "catching_up L t db ph s" and "window t ph < pe_now E" and "mdns_ok L" and "range_ok ord" and "benign db route"
    and sv: "serveAPI L (node L E ord) alone route (db, s) = (resp, db', s')"
  shows "catching_up L t db' ph s'"
proof -
  obtain st bd where r: "resp = (st, bd)" by fastforce
  have tr: "tracks L (lacks_zone t db ph) (lacks_ids t db ph) db s" and p: "pending_ok L t db ph" using f by (simp_all add: catching_up_def)
  have w: "db_write L (pe_now E) db db'" using request_write [OF tracksD(1,2) [OF tr] assms(3,5)] sv r by simp
  show ?thesis
    unfolding catching_up_def
    by (intro conjI request_tracks [OF tr assms(2-5) sv [unfolded r]] pending_ok_write [OF w assms(2) p]
        lacks_zone_write [OF w assms(2) p] lacks_ids_write [OF w tracksD(1) [OF tr] assms(2) p])
qed

lemma catching_up_elsewhere:
  assumes f: "catching_up L t db ph s" and "window t ph < pe_now E" and "mdns_ok L" and "benign db route"
    and sv: "serveAPI L (node L E ord) alone route (db, s1) = (resp, db', s1')"
  shows "catching_up L t db' ph s"
proof -
  obtain st bd where r: "resp = (st, bd)" by fastforce
  have tr: "tracks L (lacks_zone t db ph) (lacks_ids t db ph) db s" and p: "pending_ok L t db ph" using f by (simp_all add: catching_up_def)
  have w: "db_write L (pe_now E) db db'" "db_wf db'" using request_write [OF tracksD(1,2) [OF tr] assms(3,4)] sv r by simp_all
  show ?thesis
    unfolding catching_up_def
    by (intro conjI tracks_write [OF w(1) assms(2) tr w(2)] pending_ok_write [OF w(1) assms(2) p]
        lacks_zone_write [OF w(1) assms(2) p] lacks_ids_write [OF w(1) tracksD(1) [OF tr] assms(2) p])
qed

section \<open>Loads\<close>

lemma catching_up_begin:
  assumes "follows L t db s" and "t \<le> q" and "permutes scan"
  shows "catching_up L t db (Zones q (queryIncrementalZones scan t db)) s"
proof -
  have rows: "z \<in> set (queryIncrementalZones scan t db) \<longleftrightarrow> z \<in> set (db_zones db) \<and> t < zr_updated z" for z
    using permutes_set [OF assms(3)] by (auto simp: queryIncrementalZones_def)
  show ?thesis
    unfolding catching_up_def
  proof
    show "tracks L (lacks_zone t db (Zones q (queryIncrementalZones scan t db))) (lacks_ids t db (Zones q (queryIncrementalZones scan t db))) db s"
      by (rule tracks_mono [OF assms(1)]) (auto simp: stale_zone_def rows)
    have "zone_pending t db z" if "z \<in> set (queryIncrementalZones scan t db)" for z
      using that unfolding rows zone_pending_def by blast
    then show "pending_ok L t db (Zones q (queryIncrementalZones scan t db))" using assms(2) by simp
  qed
qed

lemma changed_row_loads:
  assumes "db_wf db" and "rows_ok L db" and "(z, r) \<in> set (changed_rows t db)"
  shows "syncRow L r = loadRow L r" and "syncRow L r \<noteq> None"
  using assms row_ok(3,4) [OF assms(1)] loadRow_syncRow by (auto simp: changed_rows_mem rows_ok_def)

lemma deleted_zone_contents:
  assumes "tracks L Z I db s" and "zone_pending t db z" and "zr_deleted z \<noteq> None" shows "db_contents L db (fqdn (zr_name z)) = {}"
proof -
  obtain z' where "z' \<in> set (db_zones db)" "zr_name z' = zr_name z" "zr_deleted z' \<noteq> None"
    using assms(2,3) by (auto simp: zone_pending_def)
  then show ?thesis using no_contents [OF tracksD(1,2) [OF assms(1)], of z'] by simp
qed

lemma tracks_record_row:
  assumes tr: "tracks L (stale_zone q db) I db s" and "range_ok ord" and "row_pending L t q db z r"
    and I: "\<And>b. I b \<subseteq> I' b \<union> (if b = fqdn (zr_name z) then {rr_id r} else {})" and st: "\<And>b. stale_ids q db b \<subseteq> I' b"
  shows "tracks L (stale_zone q db) I' db (applyRecordRow L (RWMutexStore_iface ord) (z, r) s)"
proof -
  obtain z' r' rec where zr: "z' \<in> set (db_zones db)" "r' \<in> set (db_records db)" "zr_name z' = zr_name z"
    "rr_id r' = rr_id r" "rr_zone r' = zr_id z'" "row_key L r' = row_key L r"
    "zr_deleted z' = None \<or> q < zr_updated z'" "r' = r \<or> q < rr_updated r'" and rec: "syncRow L r = Some rec" "loadRow L r = Some rec"
    using assms(3) unfolding row_pending_def by fastforce
  have gone: "zr_deleted z' = None \<or> stale_zone q db (fqdn (zr_name z'))"
    using zr(1,7) unfolding stale_zone_def by blast
  have "rr_id r' \<in> stale_ids q db (fqdn (zr_name z'))" if "q < rr_updated r'" "zr_deleted z' = None"
    using zr(1,2,5) that unfolding stale_ids_mem by blast
  then have new: "r' = r \<or> zr_deleted z' \<noteq> None \<or> rr_id r' \<in> I' (fqdn (zr_name z'))" using zr(8) st by blast
  have I'': "I b \<subseteq> I' b \<union> (if b = fqdn (zr_name z') then {rr_id r'} else {})" for b using I [of b] unfolding zr(3,4) .
  have "tracks L (stale_zone q db) I' db (snd (DropRecord ord s (fqdn (zr_name z')) (rr_id r')))" if "rr_deleted r \<noteq> None"
    by (rule tracks_drop [OF tr assms(2) zr(1,2,5) _ I'']) (use gone new that in blast)
  moreover have "tracks L (stale_zone q db) I' db (snd (PutRecord s (fqdn (zr_name z')) rec))" if "rr_deleted r = None"
    by (rule tracks_put [OF tr zr(1,2,5) _ _ _ I'']) (use loadRow_fields [OF rec(2)] zr(4,6) gone new that rec(2) in auto)
  ultimately show ?thesis using zr(3,4) rec(1) by (auto simp: applyRecordRow_def Let_def)
qed

lemma catching_up_load:
  assumes "load_step L (RWMutexStore_iface ord) db t (s, ph) (s', ph')" and f: "catching_up L t db ph s" and "range_ok ord"
  shows "catching_up L t db ph' s'"
proof -
  have tr: "tracks L (lacks_zone t db ph) (lacks_ids t db ph) db s" and p: "pending_ok L t db ph" using f by (simp_all add: catching_up_def)
  from assms(1) show ?thesis
  proof cases
    case (zone_row q z zs)
    have "tracks L (lacks_zone t db ph') (lacks_ids t db ph) db s'"
    proof (cases "zr_deleted z = None")
      case True
      then have "s' = s" using zone_row by (simp add: applyZoneRow_def)
      then show ?thesis using zone_row True by (auto intro!: tracks_mono [OF tr])
    next
      case False
      have "zone_pending t db z" using p zone_row(1) by simp
      then have "db_contents L db (fqdn (zr_name z)) = {}" by (rule deleted_zone_contents [OF tr _ False])
      then have "tracks L (lacks_zone t db ph') (lacks_ids t db ph) db (snd (Delete s (fqdn (zr_name z))))"
        by (rule tracks_empty(2) [OF tr]) (use zone_row in auto)
      then show ?thesis using False zone_row(2) by (simp add: applyZoneRow_def)
    qed
    moreover have "lacks_ids t db ph' = lacks_ids t db ph" by (rule ext) (simp add: zone_row)
    ultimately show ?thesis using p zone_row by (simp add: catching_up_def)
  next
    case (records scan q)
    have rows: "set (queryIncrementalRecords scan t db) = set (changed_rows t db)"
      using permutes_set [OF records(4)] by (simp add: queryIncrementalRecords_def changed_rows_def)
    have "tracks L (lacks_zone t db ph') (lacks_ids t db ph') db s'"
      unfolding records(2)
      by (rule tracks_mono [OF tr]) (auto simp: records(1,3) rows stale_ids_def)
    moreover have "row_pending L t q db z r" if "(z, r) \<in> set (changed_rows t db)" for z r
      using that changed_row_loads [OF tracksD(1,2) [OF tr] that] unfolding row_pending_def changed_rows_mem by metis
    ultimately show ?thesis using p records(1,3) rows by (auto simp: catching_up_def)
  next
    case (record_row q zr rs)
    obtain z r where zr: "zr = (z, r)" by fastforce
    have l: "lacks_zone t db ph = stale_zone q db" "lacks_zone t db ph' = stale_zone q db" by (rule ext, simp add: record_row)+
    have "tracks L (lacks_zone t db ph') (lacks_ids t db ph') db s'"
      unfolding l(2) record_row(2) zr
      by (rule tracks_record_row [OF tr [unfolded l(1)] assms(3)]) (use p in \<open>auto simp: record_row zr\<close>)
    then show ?thesis using p record_row by (simp add: catching_up_def)
  qed
qed

lemma catching_up_finish:
  assumes "catching_up L t db (Records q []) s" shows "follows L q db s"
  using assms by (auto simp: catching_up_def elim!: tracks_mono)

text \<open>A load that is broken off leaves the store no further behind than it was.\<close>

lemma stale_later: "t \<le> q \<Longrightarrow> stale_zone q db a \<Longrightarrow> stale_zone t db a" "t \<le> q \<Longrightarrow> stale_ids q db a \<subseteq> stale_ids t db a"
  unfolding stale_zone_def stale_ids_mem subset_iff by (meson le_less_trans)+

lemma catching_up_break:
  assumes "catching_up L t db ph s" shows "follows L t db s"
proof -
  have tr: "tracks L (lacks_zone t db ph) (lacks_ids t db ph) db s" and p: "pending_ok L t db ph" using assms by (simp_all add: catching_up_def)
  have "stale_zone t db a" if a: "lacks_zone t db ph a" for a
  proof (cases ph)
    case (Zones q zs)
    have "stale_zone t db a" if "z \<in> set zs" "zr_deleted z \<noteq> None" "fqdn (zr_name z) = a" for z
      using that p unfolding Zones pending_ok.simps zone_pending_def stale_zone_def by metis
    then show ?thesis using a p stale_later(1) [of t q db a] unfolding Zones by auto
  qed (use a p stale_later(1) [of t _ db a] in auto)
  moreover have "\<not> stale_zone t db a \<Longrightarrow> lacks_ids t db ph a \<subseteq> stale_ids t db a" for a
  proof (cases ph)
    case (Records q rs)
    assume a: "\<not> stale_zone t db a"
    have "rr_id r \<in> stale_ids t db a" if m: "(z, r) \<in> set rs" "fqdn (zr_name z) = a" for z r
    proof -
      have "row_pending L t q db z r" using p m(1) Records by auto
      then obtain z' r' where zr: "z' \<in> set (db_zones db)" "zr_name z' = zr_name z" "zr_deleted z' = None \<or> q < zr_updated z'" "zr_id z' = zr_id z"
        "r' \<in> set (db_records db)" "rr_id r' = rr_id r" "rr_zone r' = zr_id z" "t < rr_updated r'"
        unfolding row_pending_def by metis
      have "\<not> stale_zone q db a" using a stale_later(1) [of t q db a] p Records by auto
      then have "zr_deleted z' = None" using zr(1-3) m(2) unfolding stale_zone_def by metis
      then show ?thesis using zr m(2) unfolding stale_ids_mem by metis
    qed
    then show ?thesis using stale_later(2) [of t q db a] p Records by auto
  qed simp_all
  ultimately show ?thesis by (intro tracks_mono [OF tr])
qed

section \<open>A replica of the database\<close>

text \<open>
  The states of one instance, as the database, its zone store, the time \<open>t\<close> at which the last load that got through
  began, and the load under way. It starts with a full load. Then requests arrive here or at other
  instances, also in the middle of a load, at times after the load under way, or else the last one, began,
  whatever happens to their statements; and loads begin, go on, and get through or break off anywhere.
\<close>

inductive replica :: "mdns_lib \<Rightarrow> range_oracle \<Rightarrow> DB \<Rightarrow> RWMutexStore \<Rightarrow> int \<Rightarrow> loading \<Rightarrow> bool" for L ord where
  start: "db_wf db \<Longrightarrow> rows_ok L db \<Longrightarrow> permutes scan \<Longrightarrow> (\<And>m. range_order (zord m) m) \<Longrightarrow>
    LoadAll L (RWMutexStore_iface ord) Done None le scan zord db New = (None, s) \<Longrightarrow> replica L ord db s t Idle"
| local: "replica L ord db s t ph \<Longrightarrow> window t ph < pe_now E \<Longrightarrow> benign db route \<Longrightarrow>
    serveAPI L (node L E ord) alone route (db, s) = (resp, db', s') \<Longrightarrow> replica L ord db' s' t ph"
| remote: "replica L ord db s t ph \<Longrightarrow> window t ph < pe_now E \<Longrightarrow> benign db route \<Longrightarrow>
    serveAPI L (node L E ord') alone route (db, r) = (resp, db', r') \<Longrightarrow> replica L ord db' s t ph"
| begin_load: "replica L ord db s t Idle \<Longrightarrow> t \<le> q \<Longrightarrow> permutes scan \<Longrightarrow>
    replica L ord db s t (Zones q (queryIncrementalZones scan t db))"
| load: "replica L ord db s t ph \<Longrightarrow> load_step L (RWMutexStore_iface ord) db t (s, ph) (s', ph') \<Longrightarrow> replica L ord db s' t ph'"
| through: "replica L ord db s t (Records q []) \<Longrightarrow> replica L ord db s q Idle"
| broken: "replica L ord db s t ph \<Longrightarrow> replica L ord db s t Idle"

lemma replica_catching_up:
  assumes "replica L ord db s t ph" and "mdns_ok L" and "range_ok ord" shows "catching_up L t db ph s"
  using assms(1)
proof (induction rule: replica.induct)
  case (start db scan zord le s t)
  obtain s' where "LoadAll L (RWMutexStore_iface ord) Done None le scan zord db New = (None, s')" "ids_ok s'" "\<forall>a. contents s' a = db_contents L db a"
    using loaded_contents [OF start(1,3,4)] by blast
  then show ?case using start(1,2,5) unfolding catching_up_Idle by (intro tracks_exact) simp_all
next
  case (local db s t ph E route resp db' s')
  show ?case by (rule catching_up_here [OF local(5,2) assms(2,3) local(3,4)])
next
  case (remote db s t ph E route ord' r resp db' r')
  show ?case by (rule catching_up_elsewhere [OF remote(5,2) assms(2) remote(3,4)])
next
  case (begin_load db s t q scan)
  then show ?case using catching_up_begin by (simp add: catching_up_Idle)
next
  case (load db s t ph s' ph')
  show ?case by (rule catching_up_load [OF load(2,3) assms(3)])
next
  case (through db s t q)
  then show ?case using catching_up_finish by (simp add: catching_up_Idle)
next
  case (broken db s t ph)
  then show ?case using catching_up_break by (simp add: catching_up_Idle)
qed

lemma replica_follows: "replica L ord db s t Idle \<Longrightarrow> mdns_ok L \<Longrightarrow> range_ok ord \<Longrightarrow> follows L t db s"
  using replica_catching_up catching_up_Idle by blast

section \<open>Whole loads\<close>

lemma load_steps_catching_up:
  assumes "(load_step L (RWMutexStore_iface ord) db t)\<^sup>*\<^sup>* x y" and "catching_up L t db (snd x) (fst x)" and "range_ok ord"
  shows "catching_up L t db (snd y) (fst y)"
  using assms(1,2)
proof (induction rule: rtranclp_induct)
  case (step y z)
  then show ?case using catching_up_load [of L ord db t "fst y" "snd y" "fst z" "snd z"] assms(3) by simp
qed

lemma follows_IncrementalLoad:
  assumes f: "follows L t db s" and "range_ok ord" and E: "permutes (se_zscan E)" "permutes (se_rscan E)" and "t \<le> q"
    and l: "IncrementalLoad L (RWMutexStore_iface ord) E db db t s = (e, s')"
  shows "follows L (if e = None then q else t) db s'"
proof -
  have tb: "''zones'' \<in> set (db_tables db)" "''records'' \<in> set (db_tables db)"
    using tracksD(1) [OF f] by (simp_all add: db_wf_def schema_ok_simps)
  obtain scan ph where s: "permutes scan" and st: "(load_step L (RWMutexStore_iface ord) db t)\<^sup>*\<^sup>* (s, Zones q (queryIncrementalZones scan t db)) (s', ph)"
    and ph: "e = None \<Longrightarrow> ph = Records q []"
    using load_steps_IncrementalLoad [OF tb, of L "RWMutexStore_iface ord" t s q s' "e = None"] E l by blast
  have "catching_up L t db ph s'"
    using load_steps_catching_up [OF st _ assms(2)] catching_up_begin [OF f assms(5) s] by simp
  then show ?thesis using ph catching_up_finish catching_up_break by (cases e) auto
qed

text \<open>At the end of a load that nothing disturbed, nothing is left that was written later.\<close>

lemma tracks_all:
  assumes f: "follows L q db s" and "\<forall>z \<in> set (db_zones db). zr_updated z \<le> q" and "\<forall>r \<in> set (db_records db). rr_updated r \<le> q"
  shows "contents s a = db_contents L db a"
proof -
  have "\<not> stale_zone q db a" "i \<notin> stale_ids q db a" for i
    using assms(2,3) by (auto simp: stale_zone_def stale_ids_mem)
  then show ?thesis using tracksD(5) [OF f] by auto
qed

lemma follows_undisturbed:
  assumes f: "follows L t db s" and "range_ok ord" and "permutes (se_zscan E)" "permutes (se_rscan E)"
    and s': "IncrementalLoad L (RWMutexStore_iface ord) E db db t s = (None, s')"
  shows "contents s' a = db_contents L db a"
proof -
  define q where "q = Max (insert t (zr_updated ` set (db_zones db) \<union> rr_updated ` set (db_records db)))"
  have q: "t \<le> q" "\<forall>z \<in> set (db_zones db). zr_updated z \<le> q" "\<forall>r \<in> set (db_records db). rr_updated r \<le> q"
    unfolding q_def by (auto intro!: Max_ge)
  have "follows L q db s'" using follows_IncrementalLoad [OF f assms(2-4) q(1) s'] by simp
  then show ?thesis by (rule tracks_all [OF _ q(2,3)])
qed

lemma synced_contents:
  assumes f: "follows L t db s" and "range_ok ord" and E: "sync_done E"
  shows "\<exists>s'. IncrementalLoad L (RWMutexStore_iface ord) E db db t s = (None, s') \<and> (\<forall>a. contents s' a = db_contents L db a)"
proof -
  have "''zones'' \<in> set (db_tables db)" "''records'' \<in> set (db_tables db)"
    using tracksD(1) [OF f] by (simp_all add: db_wf_def schema_ok_simps)
  then obtain s' where s': "IncrementalLoad L (RWMutexStore_iface ord) E db db t s = (None, s')"
    using E by (simp add: IncrementalLoad_def sync_done_def Let_def)
  then show ?thesis using follows_undisturbed [OF f assms(2)] E by (auto simp: sync_done_def)
qed

text \<open>
  C17: incremental loads make every instance converge. However an instance got where it is, through requests
  here and elsewhere, also between the steps of loads, statements that failed or whose results were lost, and loads
  that got through or broke off, an incremental load that gets through undisturbed leaves every zone with the
  contents that a restart would load from the database; and already before it, every record that was not written
  since the last one began is as in the database, except in zones that were deleted since. (A domain that exists is
  not created again, and no record is renamed or changes its type: in these two cases the code does not do it.)
\<close>

theorem sync_converges:
  assumes "replica L ord db s t Idle" and "mdns_ok L" and "range_ok ord" and "sync_done E" and "permutes scan" and "\<And>m. range_order (zord m) m"
  shows "\<exists>s' s''. IncrementalLoad L (RWMutexStore_iface ord) E db db t s = (None, s') \<and>
    LoadAll L (RWMutexStore_iface ord) Done None le scan zord db New = (None, s'') \<and>
    (\<forall>a. contents s' a = contents s'' a) \<and>
    (\<forall>a k x. \<not> (\<exists>z \<in> set (db_zones db). t < zr_updated z \<and> zr_deleted z \<noteq> None \<and> fqdn (zr_name z) = a) \<and>
       r_ID x \<notin> rr_id ` {r \<in> set (db_records db). t < rr_updated r} \<longrightarrow>
       ((k, x) \<in> contents s a \<longleftrightarrow> (k, x) \<in> contents s'' a))"
proof -
  have f: "follows L t db s" by (rule replica_follows [OF assms(1-3)])
  obtain s' where s': "IncrementalLoad L (RWMutexStore_iface ord) E db db t s = (None, s')" "\<And>a. contents s' a = db_contents L db a"
    using synced_contents [OF f assms(3,4)] by blast
  obtain s'' where s'': "LoadAll L (RWMutexStore_iface ord) Done None le scan zord db New = (None, s'')" "\<And>a. contents s'' a = db_contents L db a"
    using loaded_contents [OF tracksD(1) [OF f] assms(5,6)] by blast
  have "(k, x) \<in> contents s a \<longleftrightarrow> (k, x) \<in> contents s'' a"
    if "\<not> stale_zone t db a" "r_ID x \<notin> rr_id ` {r \<in> set (db_records db). t < rr_updated r}" for a k x
  proof -
    have "r_ID x \<notin> stale_ids t db a" using that(2) unfolding stale_ids_mem by force
    then show ?thesis using tracksD(5) [OF f that(1)] s''(2) by simp
  qed
  then show ?thesis using s' s'' unfolding stale_zone_def by (intro exI conjI) auto
qed

lemma demo_arb_rows_ok: "rows_ok demo_lib demo_arb"
  by (simp add: rows_ok_def demo_arb_tables HasSuffix_def)

lemma demo_posted:
  assumes "serveAPI demo_lib demo_server alone (POST_records ''b'' (Inr demo_req)) (demo_arb, s) = ((st, bd), db, s2)" and "st < 400"
  shows "\<exists>x. (rkey ''w.b.'' 1, x) \<in> db_contents demo_lib db ''b.''"
proof -
  have nd: "demo_server = node demo_lib demo_pg sorted_range" by (simp add: demo_server_def node_def)
  have n: "FQDN ''b'' = ''b.''" "FQDN ''w.b'' = ''w.b.''" "fqdn ''b.'' = ''b.''" by (simp_all add: FQDN_def fqdn_def HasSuffix_def)
  have "createRecord demo_lib demo_server alone ''b'' (Inr demo_req) (demo_arb, s) = ((st, bd), db, s2)" using assms(1) by simp
  then show ?thesis
  proof (cases rule: createRecord_cases)
    case (stored req qtype rr zone rec isNew)
    have req: "req = demo_req" using stored(1) by simp
    then have q: "qtype = 1" using stored(2) by (simp add: demo_req_def demo_lib_A)
    have c: "CreateRecord demo_lib (\<lambda>_. Done) 8 demo_arb (zm_ID zone) (reqRecord 0 demo_req 1 rr) = (Inr (rec, isNew), db)"
      using stored(5) req q by simp
    have g: "GetZone Done demo_arb (FQDN ''b'') = Inr zone" using stored(4) by simp
    have b: "benign demo_arb (POST_records ''b'' (Inr demo_req))" by (simp add: demo_req_def)
    have w: "db_write demo_lib 8 demo_arb db" "db_wf db"
      using request_write [OF demo_arb_tables(1) demo_arb_rows_ok demo_lib_ok b assms(1) [unfolded nd]] by simp_all
    have "(key_of rec, rec) \<in> db_contents demo_lib db ''b.''"
      by (rule created_row [OF demo_arb_tables(1) g c w(2) db_write_rows_ok [OF w(1) demo_arb_rows_ok]])
        (metis db_contentsI n(1))
    moreover have "r_Name rec = ''w.b.'' \<and> r_Type rec = 1"
      using pg.create_record [of demo_arb demo_lib "reqRecord 0 demo_req 1 rr" demo_pg "zm_ID zone" rec isNew] c demo_arb_tables(1)
      by (simp add: demo_req_def n known_type_def demo_lib_A)
    ultimately show ?thesis by auto
  qed (use assms(2) in auto)
qed

theorem sync_converges_witness:
  "\<exists>db s0 s1. LoadAll demo_lib (RWMutexStore_iface sorted_range) Done None (\<lambda>_ _. True) (\<lambda>x. x) (\<lambda>m. sorted_list_of_set (fmdom' m)) demo_arb New = (None, s0) \<and>
     IncrementalLoad demo_lib (RWMutexStore_iface sorted_range) demo_env db db 6 s0 = (None, s1) \<and>
     contents s0 ''b.'' = {} \<and> (\<exists>x. (rkey ''w.b.'' 1, x) \<in> contents s1 ''b.'')"
proof -
  let ?I = "RWMutexStore_iface sorted_range" and ?z = "\<lambda>m :: (string, Zone) fmap. sorted_list_of_set (fmdom' m)"
  have zo: "range_order (?z m) m" for m by (simp add: range_order_def)
  have p: "permutes (\<lambda>x :: (zone_row \<times> rec_row) list. x)" by (simp add: permutes_def)
  have e: "sync_done demo_env" by (simp add: sync_done_def demo_env_def permutes_def)
  obtain s0 where s0: "LoadAll demo_lib ?I Done None (\<lambda>_ _. True) (\<lambda>x. x) ?z demo_arb New = (None, s0)" "\<And>a. contents s0 a = db_contents demo_lib demo_arb a"
    using loaded_contents [OF demo_arb_tables(1) p zo] by blast
  have "replica demo_lib sorted_range demo_arb s0 6 Idle"
    by (rule replica.start [OF demo_arb_tables(1) demo_arb_rows_ok p zo s0(1)])
  then have r0: "replica demo_lib sorted_range demo_arb s0 6 (Zones 7 (queryIncrementalZones (\<lambda>x. x) 6 demo_arb))"
    by (rule replica.begin_load) (simp_all add: permutes_def)
  obtain st bd db s2 where sv: "serveAPI demo_lib demo_server alone (POST_records ''b'' (Inr demo_req)) (demo_arb, demo_store) = ((st, bd), db, s2)"
    by (metis prod.collapse)
  have nd: "demo_server = node demo_lib demo_pg sorted_range" by (simp add: demo_server_def node_def)
  have "benign demo_arb (POST_records ''b'' (Inr demo_req))" by (simp add: demo_req_def)
  from replica.remote [OF r0 _ this, of demo_pg sorted_range demo_store "(st, bd)" db s2]
  have "replica demo_lib sorted_range db s0 6 (Zones 7 (queryIncrementalZones (\<lambda>x. x) 6 demo_arb))" using sv nd by simp
  then have r1: "replica demo_lib sorted_range db s0 6 Idle" by (rule replica.broken)
  have st: "st < 400" using demo_post_status sv by simp
  obtain x where x: "(rkey ''w.b.'' 1, x) \<in> db_contents demo_lib db ''b.''"
    using demo_posted [OF sv st] by blast
  obtain s1 s' where s1: "IncrementalLoad demo_lib ?I demo_env db db 6 s0 = (None, s1)"
    "LoadAll demo_lib ?I Done None (\<lambda>_ _. True) (\<lambda>x. x) ?z db New = (None, s')" "\<forall>a. contents s1 a = contents s' a"
    using sync_converges [OF r1 demo_lib_ok range_ok_sorted e p zo, where le = "\<lambda>_ _. True"] by blast
  obtain s'' where "LoadAll demo_lib ?I Done None (\<lambda>_ _. True) (\<lambda>x. x) ?z db New = (None, s'')" "\<forall>a. contents s'' a = db_contents demo_lib db a"
    using loaded_contents [OF tracksD(1) [OF replica_follows [OF r1 demo_lib_ok range_ok_sorted]] p zo] by blast
  then have "(rkey ''w.b.'' 1, x) \<in> contents s1 ''b.''" using s1 x by simp
  moreover have "contents s0 ''b.'' = {}" unfolding s0(2) by (auto simp: db_contents_mem demo_arb_tables)
  ultimately show ?thesis using s0(1) s1(1) by blast
qed

end
