(* ===== verification/Duration.thy ===== *)
theory Duration
  imports Strconv Complex_Main
begin

text \<open>
  \<^verbatim>\<open>time.ParseDuration\<close>, which the configuration reads the sync interval with. Unsigned 64-bit
  values are naturals with the checks of the library written out; \<open>fl\<close> is the rounding of a
  floating-point operation, which only durations with a fraction go through.
\<close>

datatype duration_error = InvalidDuration | MissingUnit | UnknownUnit string

definition is_digit :: "char \<Rightarrow> bool" where
  "is_digit c \<longleftrightarrow> digit_of c \<noteq> None"

text \<open>\<^verbatim>\<open>leadingInt\<close> and \<^verbatim>\<open>leadingFraction\<close>: the digits at the front, with their value; the fraction also
  with its scale, and without the digits that do not fit.\<close>

fun leadingInt :: "nat \<Rightarrow> string \<Rightarrow> (nat \<times> string) option" where
  "leadingInt x [] = Some (x, [])"
| "leadingInt x (c # cs) =
     (case digit_of c of
        None \<Rightarrow> Some (x, c # cs)
      | Some d \<Rightarrow>
          if 2 ^ 63 div 10 < x then None
          else if 2 ^ 63 < x * 10 + d then None
          else leadingInt (x * 10 + d) cs)"

fun leadingFraction :: "(rat \<Rightarrow> rat) \<Rightarrow> bool \<Rightarrow> nat \<Rightarrow> rat \<Rightarrow> string \<Rightarrow> nat \<times> rat \<times> string" where
  "leadingFraction fl over x scale [] = (x, scale, [])"
| "leadingFraction fl over x scale (c # cs) =
     (case digit_of c of
        None \<Rightarrow> (x, scale, c # cs)
      | Some d \<Rightarrow>
          if over then leadingFraction fl over x scale cs
          else if (2 ^ 63 - 1) div 10 < x then leadingFraction fl True x scale cs
          else if 2 ^ 63 < x * 10 + d then leadingFraction fl True x scale cs
          else leadingFraction fl over (x * 10 + d) (fl (scale * 10)) cs)"

definition unitMap :: "string \<Rightarrow> nat option" where
  "unitMap u =
     (if u = ''ns'' then Some 1
      else if u = ''us'' \<or> u = [char_of (194 :: nat), char_of (181 :: nat), CHR ''s''] \<or>
              u = [char_of (206 :: nat), char_of (188 :: nat), CHR ''s''] then Some 1000
      else if u = ''ms'' then Some 1000000
      else if u = ''s'' then Some 1000000000
      else if u = ''m'' then Some 60000000000
      else if u = ''h'' then Some 3600000000000
      else None)"

definition unit_char :: "char \<Rightarrow> bool" where
  "unit_char c \<longleftrightarrow> c \<noteq> CHR ''.'' \<and> \<not> is_digit c"

text \<open>One round of the loop: the value of the first component in nanoseconds, and the rest.\<close>

definition durationTerm :: "(rat \<Rightarrow> rat) \<Rightarrow> string \<Rightarrow> duration_error + nat \<times> string" where
  "durationTerm fl s =
     (if \<not> (hd s = CHR ''.'' \<or> is_digit (hd s)) then Inl InvalidDuration
      else
        (case leadingInt 0 s of
           None \<Rightarrow> Inl InvalidDuration
         | Some (v, s1) \<Rightarrow>
             (let pre = length s \<noteq> length s1;
                  (f, scale, s2) = (if s1 \<noteq> [] \<and> hd s1 = CHR ''.'' then leadingFraction fl False 0 1 (tl s1) else (0, 1, s1));
                  post = (s1 \<noteq> [] \<and> hd s1 = CHR ''.'' \<and> length (tl s1) \<noteq> length s2);
                  u = takeWhile unit_char s2; rest = dropWhile unit_char s2
              in if \<not> pre \<and> \<not> post then Inl InvalidDuration
                 else if u = [] then Inl MissingUnit
                 else
                   (case unitMap u of
                      None \<Rightarrow> Inl (UnknownUnit u)
                    | Some unit \<Rightarrow>
                        if 2 ^ 63 div unit < v then Inl InvalidDuration
                        else
                          (let v1 = v * unit;
                               v2 = (if 0 < f then (v1 + nat \<lfloor>fl (fl (of_nat f) * fl (fl (of_nat unit) / scale))\<rfloor>) mod 2 ^ 64 else v1)
                           in if 0 < f \<and> 2 ^ 63 < v2 then Inl InvalidDuration else Inr (v2, rest))))))"

lemma leadingInt_length: "leadingInt x s = Some (v, s1) \<Longrightarrow> length s1 \<le> length s"
  by (induction x s rule: leadingInt.induct) (fastforce split: option.splits if_splits)+

lemma leadingFraction_length: "leadingFraction fl ov x sc s = (f, scale, s1) \<Longrightarrow> length s1 \<le> length s"
  by (induction fl ov x sc s rule: leadingFraction.induct) (fastforce split: option.splits if_splits)+

lemma durationTerm_rest:
  assumes "durationTerm fl s = Inr (v, rest)" shows "length rest < length s"
proof -
  obtain v' s1 where i: "leadingInt 0 s = Some (v', s1)"
    using assms by (auto simp: durationTerm_def split: if_splits option.splits)
  obtain f scale s2 where f: "(if s1 \<noteq> [] \<and> hd s1 = CHR ''.'' then leadingFraction fl False 0 1 (tl s1) else (0, 1, s1)) = (f, scale, s2)"
    using prod_cases3 by blast
  have "length s2 \<le> length s1" using f leadingFraction_length [of fl False 0 1 "tl s1" f scale s2] by (auto split: if_splits)
  moreover have "takeWhile unit_char s2 \<noteq> []" "rest = dropWhile unit_char s2"
    using assms by (auto simp: durationTerm_def i f Let_def split: if_splits option.splits)
  then have "length rest < length s2"
    using takeWhile_dropWhile_id [of unit_char s2] by (metis length_append length_greater_0_conv less_add_same_cancel2)
  ultimately show ?thesis using leadingInt_length [OF i] by simp
qed

function durationLoop :: "(rat \<Rightarrow> rat) \<Rightarrow> nat \<Rightarrow> string \<Rightarrow> duration_error + nat" where
  "durationLoop fl d s =
     (if s = [] then Inr d
      else
        (case durationTerm fl s of
           Inl e \<Rightarrow> Inl e
         | Inr (v, rest) \<Rightarrow>
             if 2 ^ 63 < (d + v) mod 2 ^ 64 then Inl InvalidDuration else durationLoop fl ((d + v) mod 2 ^ 64) rest))"
  by pat_completeness auto
termination by (relation "measure (\<lambda>(fl, d, s). length s)") (auto dest: durationTerm_rest)

declare durationLoop.simps [simp del]

definition ParseDuration :: "(rat \<Rightarrow> rat) \<Rightarrow> string \<Rightarrow> duration_error + int" where
  "ParseDuration fl orig =
     (let (neg, s) = signed orig in
      if s = ''0'' then Inr 0
      else if s = [] then Inl InvalidDuration
      else
        (case durationLoop fl 0 s of
           Inl e \<Rightarrow> Inl e
         | Inr d \<Rightarrow>
             if neg then Inr (- int d)
             else if 2 ^ 63 - 1 < d then Inl InvalidDuration
             else Inr (int d)))"

lemma durationLoop_range: "durationLoop fl d s = Inr d' \<Longrightarrow> d \<le> 2 ^ 63 \<Longrightarrow> d' \<le> 2 ^ 63"
proof (induction fl d s rule: durationLoop.induct)
  case (1 fl d s)
  show ?case
  proof (cases "s = []")
    case True
    then show ?thesis using 1(2,3) by (simp add: durationLoop.simps)
  next
    case False
    then obtain v rest where t: "durationTerm fl s = Inr (v, rest)" "\<not> 2 ^ 63 < (d + v) mod 2 ^ 64"
      "durationLoop fl ((d + v) mod 2 ^ 64) rest = Inr d'"
      using 1(2) by (subst (asm) durationLoop.simps) (auto split: sum.splits if_splits)
    then show ?thesis using 1(1) [OF False t(1) refl t(2) t(3)] by simp
  qed
qed

lemma ParseDuration_range: "ParseDuration fl s = Inr d \<Longrightarrow> is_int64 d"
  using durationLoop_range [of fl 0 "snd (signed s)"]
  by (auto simp: ParseDuration_def is_int64_def split: prod.splits if_splits sum.splits)

text \<open>A whole number of nanoseconds, printed with its unit, is read back.\<close>

lemma leadingInt_append:
  "leadingInt x xs = Some (v, []) \<Longrightarrow> leadingInt x (xs @ ys) = leadingInt v ys"
  by (induction x xs rule: leadingInt.induct) (auto split: option.splits if_splits)

lemma leadingInt_Utoa: "n \<le> 2 ^ 63 \<Longrightarrow> leadingInt 0 (Utoa n) = Some (n, [])"
proof (induction n rule: Utoa.induct)
  case (1 n)
  show ?case
  proof (cases "n < 10")
    case True
    then show ?thesis by (subst Utoa.simps) simp
  next
    case False
    have "n div 10 * 10 + n mod 10 = n" by simp
    moreover have "leadingInt 0 (Utoa (n div 10)) = Some (n div 10, [])" using 1 False by simp
    moreover have "n div 10 \<le> 2 ^ 63 div 10" using 1(2) by (rule div_le_mono)
    ultimately show ?thesis
      using False 1(2) by (subst Utoa.simps) (simp add: leadingInt_append)
  qed
qed

lemma ParseDuration_ns:
  assumes "is_int64 d" shows "ParseDuration fl (Itoa d @ ''ns'') = Inr d"
proof -
  have ns: "digit_of (CHR ''n'') = None" "unit_char (CHR ''n'')" "unit_char (CHR ''s'')"
    by (simp_all add: digit_of_def unit_char_def is_digit_def)
  have one: "durationTerm fl (Utoa n @ ''ns'') = Inr (n, [])" if "n \<le> 2 ^ 63" for n
  proof -
    obtain c cs where u: "Utoa n = c # cs" by (cases "Utoa n") auto
    then obtain k where "k < 10" "c = char_of_digit k" using Utoa_digits [of c n] by auto
    then have "is_digit (hd (Utoa n @ ''ns''))" by (simp add: u is_digit_def)
    moreover have "leadingInt 0 (Utoa n @ ''ns'') = Some (n, ''ns'')"
      by (simp add: leadingInt_append [OF leadingInt_Utoa [OF that]] ns)
    ultimately show ?thesis using that by (simp add: durationTerm_def ns unitMap_def)
  qed
  have loop: "durationLoop fl 0 (Utoa n @ ''ns'') = Inr n" if "n \<le> 2 ^ 63" for n
    using that by (subst durationLoop.simps) (simp add: one durationLoop.simps)
  have s: "signed (Utoa n @ ''ns'') = (False, Utoa n @ ''ns'')" for n
    using signed_Utoa [of n] by (cases "Utoa n") (simp_all split: if_splits)
  have z: "Utoa n @ ''ns'' \<noteq> ''0''" for n by (cases "Utoa n") simp_all
  show ?thesis
  proof (cases "d < 0")
    case True
    then have "nat (- d) \<le> 2 ^ 63" using assms by (simp add: is_int64_def)
    then show ?thesis using True by (simp add: ParseDuration_def Itoa_def z loop)
  next
    case False
    then have "nat d \<le> 2 ^ 63 - 1" using assms by (simp add: is_int64_def)
    then show ?thesis using False by (simp add: ParseDuration_def Itoa_def s z loop)
  qed
qed

end
