(* ===== verification/Config_Parser.thy ===== *)
theory Config_Parser
  imports Config Duration
begin

text \<open>
  \<^verbatim>\<open>config/parser.go\<close>: the lexer and the recursive-descent parser of the configuration file. A file is
  its bytes and, when reading it fails after them, the error. \<^verbatim>\<open>strconv.ParseFloat\<close> is the argument
  \<open>ParseFloat\<close>; \<open>fl\<close> is the rounding that \<open>ParseDuration\<close> uses. Positions in errors are line numbers as in the
  code.
\<close>

section \<open>Lexer\<close>

record tok =
  tk_text :: string
  tk_line :: nat

datatype cfg_error =
    OpenError string
  | ReadError string
  | TooLong
  | UnterminatedString nat
  | UnexpectedEOF string
  | Expected nat string string
  | RequiresValue nat string
  | BadBlockName nat string
  | EOFInside string
  | UnknownKey nat string string
  | BadInteger nat string num_error
  | BadDuration nat string duration_error
  | BadFloat nat string num_error

abbreviation newline :: char where
  "newline \<equiv> CHR 0x0A"

abbreviation carriageReturn :: char where
  "carriageReturn \<equiv> CHR 0x0D"

abbreviation tab :: char where
  "tab \<equiv> CHR 0x09"

text \<open>The lines that \<^verbatim>\<open>bufio.Scanner\<close> delivers: an empty last line is none, and a carriage return before
  the line break is not part of the line. A line that does not fit its buffer ends the scan.\<close>

function splitLines :: "string \<Rightarrow> string list" where
  "splitLines s = (if s = [] then [] else takeWhile ((\<noteq>) newline) s # splitLines (tl (dropWhile ((\<noteq>) newline) s)))"
  by pat_completeness auto
termination
proof (relation "measure length")
  fix s :: string assume "s \<noteq> []"
  then have "length (tl (dropWhile ((\<noteq>) newline) s)) < length s"
    by (metis diff_less length_dropWhile_le length_greater_0_conv length_tl less_numeral_extra(1) order_le_less_trans diff_le_self
        le_imp_less_or_eq zero_less_diff list.sel(2) length_0_conv)
  then show "(tl (dropWhile ((\<noteq>) newline) s), s) \<in> measure length" by simp
qed simp

declare splitLines.simps [simp del]

definition dropCR :: "string \<Rightarrow> string" where
  "dropCR l = (if l \<noteq> [] \<and> last l = carriageReturn then butlast l else l)"

definition maxLine :: nat where
  "maxLine = 64 * 1024"

definition blank :: "char \<Rightarrow> bool" where
  "blank c \<longleftrightarrow> c = CHR '' '' \<or> c = tab \<or> c = carriageReturn"

definition bare :: "char \<Rightarrow> bool" where
  "bare c \<longleftrightarrow> \<not> blank c \<and> c \<noteq> CHR ''{'' \<and> c \<noteq> CHR ''}'' \<and> c \<noteq> CHR 0x22"

text \<open>The characters of a line from the position on; \<open>None\<close> for an unterminated string.\<close>

function lexLine :: "string \<Rightarrow> nat \<Rightarrow> tok list option" where
  "lexLine line n =
     (case line of
        [] \<Rightarrow> Some []
      | c # cs \<Rightarrow>
          if blank c then lexLine cs n
          else if c = CHR ''{'' \<or> c = CHR ''}'' then map_option (Cons \<lparr>tk_text = [c], tk_line = n\<rparr>) (lexLine cs n)
          else if c = CHR 0x22 then
            (let s = takeWhile ((\<noteq>) (CHR 0x22)) cs; rest = dropWhile ((\<noteq>) (CHR 0x22)) cs in
             if rest = [] then None
             else map_option (Cons \<lparr>tk_text = s, tk_line = n\<rparr>) (lexLine (tl rest) n))
          else map_option (Cons \<lparr>tk_text = takeWhile bare line, tk_line = n\<rparr>) (lexLine (dropWhile bare line) n))"
  by pat_completeness auto
termination
proof (relation "measure (length \<circ> fst)")
  fix line :: string and n c cs s rest
  assume "line = c # cs" "rest = dropWhile ((\<noteq>) (CHR 0x22)) cs"
  then have "length rest \<le> length cs" by (simp add: length_dropWhile_le)
  then show "((tl rest, n), line, n) \<in> measure (length \<circ> fst)" using \<open>line = c # cs\<close> by simp
next
  fix line :: string and n c cs
  assume "line = c # cs" "\<not> blank c" "\<not> (c = CHR ''{'' \<or> c = CHR ''}'')" "c \<noteq> CHR 0x22"
  then have "dropWhile bare line = dropWhile bare cs" by (simp add: bare_def)
  then show "((dropWhile bare line, n), line, n) \<in> measure (length \<circ> fst)"
    using \<open>line = c # cs\<close> length_dropWhile_le [of bare cs] by simp
qed simp_all

declare lexLine.simps [simp del]

definition stripComment :: "string \<Rightarrow> string" where
  "stripComment line = (let ci = IndexByte line (CHR ''#'') in if 0 \<le> ci then take (nat ci) line else line)"

fun tokenizeLines :: "string option \<Rightarrow> nat \<Rightarrow> string list \<Rightarrow> cfg_error + tok list" where
  "tokenizeLines rerr lineNum [] = (case rerr of None \<Rightarrow> Inr [] | Some e \<Rightarrow> Inl (ReadError e))"
| "tokenizeLines rerr lineNum (l # ls) =
     (if maxLine \<le> length l then Inl TooLong
      else
        (case lexLine (stripComment (dropCR l)) (lineNum + 1) of
           None \<Rightarrow> Inl (UnterminatedString (lineNum + 1))
         | Some toks \<Rightarrow> map_sum id (append toks) (tokenizeLines rerr (lineNum + 1) ls)))"

definition tokenize :: "string \<times> string option \<Rightarrow> cfg_error + tok list" where
  "tokenize r = tokenizeLines (snd r) 0 (splitLines (fst r))"

section \<open>Parser\<close>

record parser =
  p_tokens :: "tok list"
  p_pos :: nat

definition peek :: "parser \<Rightarrow> tok option" where
  "peek p = (if length (p_tokens p) \<le> p_pos p then None else Some (p_tokens p ! p_pos p))"

definition next_tok :: "parser \<Rightarrow> tok option \<times> parser" where
  "next_tok p = (case peek p of None \<Rightarrow> (None, p) | Some t \<Rightarrow> (Some t, p\<lparr>p_pos := p_pos p + 1\<rparr>))"

definition expect :: "string \<Rightarrow> parser \<Rightarrow> cfg_error + parser" where
  "expect s p =
     (case next_tok p of
        (None, _) \<Rightarrow> Inl (UnexpectedEOF s)
      | (Some t, p') \<Rightarrow> if tk_text t \<noteq> s then Inl (Expected (tk_line t) s (tk_text t)) else Inr p')"

definition nextVal :: "tok \<Rightarrow> parser \<Rightarrow> cfg_error + string \<times> parser" where
  "nextVal key p =
     (case next_tok p of
        (None, _) \<Rightarrow> Inl (RequiresValue (tk_line key) (tk_text key))
      | (Some t, p') \<Rightarrow>
          if tk_text t = ''}'' then Inl (RequiresValue (tk_line key) (tk_text key)) else Inr (tk_text t, p'))"

definition isTruthy :: "string \<Rightarrow> bool" where
  "isTruthy s \<longleftrightarrow> s = ''true'' \<or> s = ''1'' \<or> s = ''yes''"

text \<open>The number of tokens left, which every round of a loop makes smaller.\<close>

definition left :: "parser \<Rightarrow> nat" where
  "left p = length (p_tokens p) - p_pos p"

lemma next_left: "next_tok p = (Some t, p') \<Longrightarrow> left p' < left p"
  by (auto simp: next_tok_def peek_def left_def split: if_splits)

lemma peek_next: "peek p = Some t \<Longrightarrow> next_tok p = (Some t, p\<lparr>p_pos := p_pos p + 1\<rparr>)"
  by (simp add: next_tok_def)

lemma nextVal_left: "nextVal key p = Inr (v, p') \<Longrightarrow> left p' < left p"
  by (auto simp: nextVal_def split: prod.splits option.splits if_splits dest: next_left)

lemma expect_left: "expect s p = Inr p' \<Longrightarrow> left p' < left p"
  by (auto simp: expect_def split: prod.splits option.splits if_splits dest: next_left)

lemma peek_left: "peek p = Some t \<Longrightarrow> left (snd (next_tok p)) < left p"
  using next_left [of p t] by (simp add: peek_next)

lemma loop_left: "peek p = Some t \<Longrightarrow> nextVal key (snd (next_tok p)) = Inr (v, p') \<Longrightarrow> left p' < left p"
  using nextVal_left peek_left by fastforce

text \<open>The blocks. Each loop reads keys with their values until the closing brace.\<close>

function parseAPI :: "parser \<Rightarrow> APIConfig \<Rightarrow> cfg_error + APIConfig \<times> parser" where
  "parseAPI p cfg =
     (case peek p of
        None \<Rightarrow> Inl (EOFInside ''api'')
      | Some key \<Rightarrow>
          if tk_text key = ''}'' then Inr (cfg, snd (next_tok p))
          else if tk_text key = ''listen'' then
            (case nextVal key (snd (next_tok p)) of Inl e \<Rightarrow> Inl e | Inr (v, p') \<Rightarrow> parseAPI p' (cfg\<lparr>ac_Listen := v\<rparr>))
          else Inl (UnknownKey (tk_line key) (tk_text key) ''api''))"
  by pat_completeness auto
termination by (relation "measure (left \<circ> fst)") (auto dest: loop_left)

function parsePG :: "parser \<Rightarrow> PGConfig \<Rightarrow> cfg_error + PGConfig \<times> parser" where
  "parsePG p cfg =
     (case peek p of
        None \<Rightarrow> Inl (EOFInside ''postgres'')
      | Some key \<Rightarrow>
          if tk_text key = ''}'' then Inr (cfg, snd (next_tok p))
          else if tk_text key = ''dsn'' then
            (case nextVal key (snd (next_tok p)) of Inl e \<Rightarrow> Inl e | Inr (v, p') \<Rightarrow> parsePG p' (cfg\<lparr>pc_DSN := v\<rparr>))
          else Inl (UnknownKey (tk_line key) (tk_text key) ''postgres''))"
  by pat_completeness auto
termination by (relation "measure (left \<circ> fst)") (auto dest: loop_left)

function parseNacos :: "parser \<Rightarrow> NacosConfig \<Rightarrow> cfg_error + NacosConfig \<times> parser" where
  "parseNacos p cfg =
     (case peek p of
        None \<Rightarrow> Inl (EOFInside ''nacos'')
      | Some key \<Rightarrow>
          if tk_text key = ''}'' then Inr (cfg, snd (next_tok p))
          else if tk_text key = ''addr'' then
            (case nextVal key (snd (next_tok p)) of Inl e \<Rightarrow> Inl e | Inr (v, p') \<Rightarrow> parseNacos p' (cfg\<lparr>nc_Addr := v\<rparr>))
          else if tk_text key = ''namespace'' then
            (case nextVal key (snd (next_tok p)) of Inl e \<Rightarrow> Inl e | Inr (v, p') \<Rightarrow> parseNacos p' (cfg\<lparr>nc_Namespace := v\<rparr>))
          else if tk_text key = ''group'' then
            (case nextVal key (snd (next_tok p)) of Inl e \<Rightarrow> Inl e | Inr (v, p') \<Rightarrow> parseNacos p' (cfg\<lparr>nc_Group := v\<rparr>))
          else if tk_text key = ''data_id_prefix'' then
            (case nextVal key (snd (next_tok p)) of Inl e \<Rightarrow> Inl e | Inr (v, p') \<Rightarrow> parseNacos p' (cfg\<lparr>nc_DataIDPrefix := v\<rparr>))
          else if tk_text key = ''username'' then
            (case nextVal key (snd (next_tok p)) of Inl e \<Rightarrow> Inl e | Inr (v, p') \<Rightarrow> parseNacos p' (cfg\<lparr>nc_Username := v\<rparr>))
          else if tk_text key = ''password'' then
            (case nextVal key (snd (next_tok p)) of Inl e \<Rightarrow> Inl e | Inr (v, p') \<Rightarrow> parseNacos p' (cfg\<lparr>nc_Password := v\<rparr>))
          else Inl (UnknownKey (tk_line key) (tk_text key) ''nacos''))"
  by pat_completeness auto
termination by (relation "measure (left \<circ> fst)") (auto dest: loop_left)

function parseSync :: "(rat \<Rightarrow> rat) \<Rightarrow> (string \<Rightarrow> num_error + rat) \<Rightarrow> parser \<Rightarrow> SyncConfig \<Rightarrow> cfg_error + SyncConfig \<times> parser" where
  "parseSync fl ParseFloat p cfg =
     (case peek p of
        None \<Rightarrow> Inl (EOFInside ''sync'')
      | Some key \<Rightarrow>
          if tk_text key = ''}'' then Inr (cfg, snd (next_tok p))
          else if tk_text key = ''interval'' then
            (case nextVal key (snd (next_tok p)) of
               Inl e \<Rightarrow> Inl e
             | Inr (v, p') \<Rightarrow>
                 (case ParseDuration fl v of
                    Inl e \<Rightarrow> Inl (BadDuration (tk_line key) v e)
                  | Inr d \<Rightarrow> parseSync fl ParseFloat p' (cfg\<lparr>sc_Interval := d\<rparr>)))
          else if tk_text key = ''prob'' then
            (case nextVal key (snd (next_tok p)) of
               Inl e \<Rightarrow> Inl e
             | Inr (v, p') \<Rightarrow>
                 (case ParseFloat v of
                    Inl e \<Rightarrow> Inl (BadFloat (tk_line key) v e)
                  | Inr f \<Rightarrow> parseSync fl ParseFloat p' (cfg\<lparr>sc_Prob := f\<rparr>)))
          else if tk_text key = ''ratelimit'' then
            (case nextVal key (snd (next_tok p)) of
               Inl e \<Rightarrow> Inl e
             | Inr (v, p') \<Rightarrow>
                 (case Atoi v of
                    Inl e \<Rightarrow> Inl (BadInteger (tk_line key) ''ratelimit'' e)
                  | Inr n \<Rightarrow> parseSync fl ParseFloat p' (cfg\<lparr>sc_RateLimit := n\<rparr>)))
          else Inl (UnknownKey (tk_line key) (tk_text key) ''sync''))"
  by pat_completeness auto
termination by (relation "measure (\<lambda>(fl, pf, p, cfg). left p)") (auto dest: loop_left)

declare parseAPI.simps [simp del] parsePG.simps [simp del] parseNacos.simps [simp del] parseSync.simps [simp del]

section \<open>Blocks, once for all four\<close>

text \<open>
  What the four loops have in common: keys and values alternate up to a closing brace, a value is never a
  closing brace, and each pair changes the block by \<open>setter\<close>, or is rejected.
\<close>

definition texts :: "parser \<Rightarrow> string list" where
  "texts p = map tk_text (drop (p_pos p) (p_tokens p))"

definition advance :: "nat \<Rightarrow> parser \<Rightarrow> parser" where
  "advance n p = p\<lparr>p_pos := p_pos p + n\<rparr>"

fun pairs :: "(string \<times> string) list \<Rightarrow> string list" where
  "pairs [] = []"
| "pairs ((k, v) # kvs) = k # v # pairs kvs"

fun assign :: "(string \<Rightarrow> string \<Rightarrow> 'c \<Rightarrow> 'c option) \<Rightarrow> (string \<times> string) list \<Rightarrow> 'c \<Rightarrow> 'c option" where
  "assign setter [] c = Some c"
| "assign setter ((k, v) # kvs) c =
     (if k = ''}'' \<or> v = ''}'' then None else Option.bind (setter k v c) (assign setter kvs))"

lemma texts_peek: "peek p = None \<longleftrightarrow> texts p = []" "peek p = Some t \<Longrightarrow> texts p = tk_text t # texts (advance 1 p)"
  by (auto simp: peek_def texts_def advance_def Cons_nth_drop_Suc [symmetric] split: if_splits)

lemma texts_Cons: "texts p = x # xs \<Longrightarrow> \<exists>t. peek p = Some t \<and> tk_text t = x \<and> texts (advance 1 p) = xs"
  using texts_peek(1) [of p] texts_peek(2) [of p] by (cases "peek p") auto

lemma advance_simps [simp]: "advance m (advance n p) = advance (n + m) p" "advance 0 p = p"
  by (simp_all add: advance_def add_ac)

lemma snd_next: "peek p = Some t \<Longrightarrow> snd (next_tok p) = advance 1 p"
  by (simp add: peek_next advance_def)

lemma nextVal_Inr: "nextVal key p = Inr (v, p') \<longleftrightarrow> v \<noteq> ''}'' \<and> (\<exists>r. texts p = v # r) \<and> p' = advance 1 p"
proof (cases "peek p")
  case None
  then show ?thesis using texts_peek(1) [of p] by (simp add: nextVal_def next_tok_def)
next
  case (Some t)
  then show ?thesis using texts_peek(2) [OF Some] by (auto simp: nextVal_def peek_next advance_def)
qed

lemma expect_Inr: "expect s p = Inr p' \<longleftrightarrow> (\<exists>r. texts p = s # r) \<and> p' = advance 1 p"
proof (cases "peek p")
  case None
  then show ?thesis using texts_peek(1) [of p] by (simp add: expect_def next_tok_def)
next
  case (Some t)
  then show ?thesis using texts_peek(2) [OF Some] by (auto simp: expect_def peek_next advance_def)
qed

locale block_parser =
  fixes parse :: "parser \<Rightarrow> 'c \<Rightarrow> cfg_error + 'c \<times> parser" and setter :: "string \<Rightarrow> string \<Rightarrow> 'c \<Rightarrow> 'c option"
  assumes round: "parse p c = Inr r \<longleftrightarrow> (\<exists>key. peek p = Some key \<and>
    (if tk_text key = ''}'' then r = (c, advance 1 p)
     else \<exists>v p' c'. nextVal key (advance 1 p) = Inr (v, p') \<and> setter (tk_text key) v c = Some c' \<and> parse p' c' = Inr r))"
begin

text \<open>A block is accepted exactly when it is a list of pairs that can be assigned, and a brace.\<close>

lemma parse_pairs:
  "texts p = pairs kvs @ ''}'' # r \<Longrightarrow> assign setter kvs c = Some c' \<Longrightarrow> parse p c = Inr (c', advance (2 * length kvs + 1) p)"
proof (induction kvs arbitrary: p c)
  case Nil
  then show ?case using texts_Cons [of p "''}''" r] by (auto simp: round [of p])
next
  case (Cons kv kvs)
  obtain k v where kv: "kv = (k, v)" by fastforce
  obtain key where key: "peek p = Some key" "tk_text key = k" "texts (advance 1 p) = v # pairs kvs @ ''}'' # r"
    using texts_Cons [of p k] Cons.prems(1) by (auto simp: kv)
  obtain c1 where c1: "k \<noteq> ''}''" "v \<noteq> ''}''" "setter k v c = Some c1" "assign setter kvs c1 = Some c'"
    using Cons.prems(2) by (auto simp: kv split: if_splits bind_splits)
  have "texts (advance 2 p) = pairs kvs @ ''}'' # r" using texts_Cons [OF key(3)] by (auto simp: numeral_2_eq_2)
  from Cons.IH [OF this c1(4)] have "parse (advance 2 p) c1 = Inr (c', advance (2 * length (kv # kvs) + 1) p)" by simp
  moreover have "nextVal key (advance 1 p) = Inr (v, advance 2 p)"
    unfolding nextVal_Inr using key(3) c1(2) by (simp add: numeral_2_eq_2)
  ultimately show ?case using key(1,2) c1(1,3) unfolding round [of p c] by auto
qed

lemma parse_sound:
  assumes "parse p c = Inr (c', p')"
  shows "\<exists>kvs r. texts p = pairs kvs @ ''}'' # r \<and> assign setter kvs c = Some c' \<and> p' = advance (2 * length kvs + 1) p"
  using assms
proof (induction "left p" arbitrary: p c rule: less_induct)
  case less
  obtain key where key: "peek p = Some key" and
    b: "if tk_text key = ''}'' then (c', p') = (c, advance 1 p)
       else \<exists>v p1 c1. nextVal key (advance 1 p) = Inr (v, p1) \<and> setter (tk_text key) v c = Some c1 \<and> parse p1 c1 = Inr (c', p')"
    using less.prems unfolding round [of p c] by auto
  have t: "texts p = tk_text key # texts (advance 1 p)" by (rule texts_peek(2) [OF key])
  show ?case
  proof (cases "tk_text key = ''}''")
    case True
    then show ?thesis using b t by (intro exI [of _ "[]"] exI [of _ "texts (advance 1 p)"]) auto
  next
    case False
    then obtain v p1 c1 where n: "nextVal key (advance 1 p) = Inr (v, p1)" "setter (tk_text key) v c = Some c1" "parse p1 c1 = Inr (c', p')"
      using b by auto
    have "left p1 < left p" using loop_left [OF key, of key v p1] n(1) by (simp add: snd_next [OF key])
    from less.hyps [OF this n(3)] obtain kvs r where k: "texts p1 = pairs kvs @ ''}'' # r" "assign setter kvs c1 = Some c'"
      "p' = advance (2 * length kvs + 1) p1" by blast
    have v: "v \<noteq> ''}''" "texts (advance 1 p) = v # texts p1" "p1 = advance 2 p"
    proof -
      obtain r where r: "v \<noteq> ''}''" "texts (advance 1 p) = v # r" "p1 = advance 1 (advance 1 p)" using n(1) unfolding nextVal_Inr by auto
      then show "v \<noteq> ''}''" "texts (advance 1 p) = v # texts p1" "p1 = advance 2 p" using texts_Cons [OF r(2)] by (auto simp: numeral_2_eq_2)
    qed
    show ?thesis
      using t k v n(2) False by (intro exI [of _ "(tk_text key, v) # kvs"] exI [of _ r]) auto
  qed
qed

lemma parse_iff:
  "parse p c = Inr (c', p') \<longleftrightarrow>
     (\<exists>kvs r. texts p = pairs kvs @ ''}'' # r \<and> assign setter kvs c = Some c' \<and> p' = advance (2 * length kvs + 1) p)"
  using parse_pairs parse_sound by blast

text \<open>The same with the opening brace.\<close>

lemma enter_pairs:
  assumes "texts p = ''{'' # pairs kvs @ ''}'' # r" and "assign setter kvs c = Some c'"
  shows "expect ''{'' p = Inr (advance 1 p)" and "parse (advance 1 p) c = Inr (c', advance (2 * length kvs + 2) p)"
proof -
  show "expect ''{'' p = Inr (advance 1 p)" using assms(1) by (simp add: expect_Inr)
  have "texts (advance 1 p) = pairs kvs @ ''}'' # r" using texts_Cons [OF assms(1)] by blast
  from parse_pairs [OF this assms(2)] show "parse (advance 1 p) c = Inr (c', advance (2 * length kvs + 2) p)" by simp
qed

lemma enter_sound:
  assumes "expect ''{'' p = Inr p1" and "parse p1 c = Inr (c', p')"
  shows "\<exists>kvs r. texts p = ''{'' # pairs kvs @ ''}'' # r \<and> assign setter kvs c = Some c'"
proof -
  have "texts p = ''{'' # texts p1" using assms(1) texts_Cons [of p "''{''"] unfolding expect_Inr by auto
  then show ?thesis using parse_sound [OF assms(2)] by auto
qed

lemma parse_left:
  assumes "parse p c = Inr (c', p')" shows "left p' \<le> left p"
  using parse_sound [OF assms] by (auto simp: left_def advance_def)

end

definition setAPI :: "string \<Rightarrow> string \<Rightarrow> APIConfig \<Rightarrow> APIConfig option" where
  "setAPI k v c = (if k = ''listen'' then Some (c\<lparr>ac_Listen := v\<rparr>) else None)"

definition setPG :: "string \<Rightarrow> string \<Rightarrow> PGConfig \<Rightarrow> PGConfig option" where
  "setPG k v c = (if k = ''dsn'' then Some (c\<lparr>pc_DSN := v\<rparr>) else None)"

definition setNacos :: "string \<Rightarrow> string \<Rightarrow> NacosConfig \<Rightarrow> NacosConfig option" where
  "setNacos k v c =
     (if k = ''addr'' then Some (c\<lparr>nc_Addr := v\<rparr>)
      else if k = ''namespace'' then Some (c\<lparr>nc_Namespace := v\<rparr>)
      else if k = ''group'' then Some (c\<lparr>nc_Group := v\<rparr>)
      else if k = ''data_id_prefix'' then Some (c\<lparr>nc_DataIDPrefix := v\<rparr>)
      else if k = ''username'' then Some (c\<lparr>nc_Username := v\<rparr>)
      else if k = ''password'' then Some (c\<lparr>nc_Password := v\<rparr>)
      else None)"

definition setSync :: "(rat \<Rightarrow> rat) \<Rightarrow> (string \<Rightarrow> num_error + rat) \<Rightarrow> string \<Rightarrow> string \<Rightarrow> SyncConfig \<Rightarrow> SyncConfig option" where
  "setSync fl ParseFloat k v c =
     (if k = ''interval'' then (case ParseDuration fl v of Inl e \<Rightarrow> None | Inr d \<Rightarrow> Some (c\<lparr>sc_Interval := d\<rparr>))
      else if k = ''prob'' then (case ParseFloat v of Inl e \<Rightarrow> None | Inr f \<Rightarrow> Some (c\<lparr>sc_Prob := f\<rparr>))
      else if k = ''ratelimit'' then (case Atoi v of Inl e \<Rightarrow> None | Inr n \<Rightarrow> Some (c\<lparr>sc_RateLimit := n\<rparr>))
      else None)"

interpretation api_block: block_parser parseAPI setAPI
  by unfold_locales
    (subst parseAPI.simps, auto simp: setAPI_def snd_next split: option.split sum.split if_splits)

interpretation pg_block: block_parser parsePG setPG
  by unfold_locales
    (subst parsePG.simps, auto simp: setPG_def snd_next split: option.split sum.split if_splits)

interpretation nacos_block: block_parser parseNacos setNacos
proof unfold_locales
  fix p c r
  show "parseNacos p c = Inr r \<longleftrightarrow> (\<exists>key. peek p = Some key \<and> (if tk_text key = ''}'' then r = (c, advance 1 p)
     else \<exists>v p' c'. nextVal key (advance 1 p) = Inr (v, p') \<and> setNacos (tk_text key) v c = Some c' \<and> parseNacos p' c' = Inr r))"
  proof (cases "peek p")
    case (Some key)
    show ?thesis
    proof (cases "nextVal key (advance 1 p)")
      case (Inr vp)
      obtain v p' where vp: "vp = (v, p')" by fastforce
      show ?thesis
        by (subst parseNacos.simps) (simp add: Some snd_next [OF Some] Inr [unfolded One_nat_def] vp setNacos_def, auto)
    qed (subst parseNacos.simps, simp add: Some snd_next [OF Some], auto)
  qed (subst parseNacos.simps, simp)
qed

interpretation sync_block: block_parser "parseSync fl ParseFloat" "setSync fl ParseFloat" for fl ParseFloat
proof unfold_locales
  fix p c r
  show "parseSync fl ParseFloat p c = Inr r \<longleftrightarrow> (\<exists>key. peek p = Some key \<and> (if tk_text key = ''}'' then r = (c, advance 1 p)
     else \<exists>v p' c'. nextVal key (advance 1 p) = Inr (v, p') \<and> setSync fl ParseFloat (tk_text key) v c = Some c' \<and>
       parseSync fl ParseFloat p' c' = Inr r))"
  proof (cases "peek p")
    case (Some key)
    show ?thesis
    proof (cases "nextVal key (advance 1 p)")
      case (Inr vp)
      obtain v p' where vp: "vp = (v, p')" by fastforce
      show ?thesis
        by (subst parseSync.simps) (simp add: Some snd_next [OF Some] Inr [unfolded One_nat_def] vp setSync_def, auto split: sum.splits)
    qed (subst parseSync.simps, simp add: Some snd_next [OF Some], auto)
  qed (subst parseSync.simps, simp)
qed

section \<open>The main block\<close>

text \<open>A block inside the main one is read by its own parser, which uses up tokens.\<close>

lemma block_left:
  "parseAPI p a = Inr (a', p') \<Longrightarrow> left p' \<le> left p" "parsePG p b = Inr (b', p') \<Longrightarrow> left p' \<le> left p"
  "parseNacos p n = Inr (n', p') \<Longrightarrow> left p' \<le> left p" "parseSync fl ParseFloat p s = Inr (s', p') \<Longrightarrow> left p' \<le> left p"
  using api_block.parse_left pg_block.parse_left nacos_block.parse_left sync_block.parse_left by blast+

lemma enter_left: "peek p = Some t \<Longrightarrow> expect s (snd (next_tok p)) = Inr p1 \<Longrightarrow> left p2 \<le> left p1 \<Longrightarrow> left p2 < left p"
  using expect_left peek_left by fastforce

function parseMain :: "(rat \<Rightarrow> rat) \<Rightarrow> (string \<Rightarrow> num_error + rat) \<Rightarrow> parser \<Rightarrow> Config \<Rightarrow> cfg_error + Config \<times> parser" where
  "parseMain fl ParseFloat p cfg =
     (case peek p of
        None \<Rightarrow> Inl (EOFInside ''dns-edge'')
      | Some key \<Rightarrow>
          if tk_text key = ''}'' then Inr (cfg, snd (next_tok p))
          else if tk_text key = ''listen'' then
            (case nextVal key (snd (next_tok p)) of Inl e \<Rightarrow> Inl e | Inr (v, p') \<Rightarrow> parseMain fl ParseFloat p' (cfg\<lparr>cf_Listen := v\<rparr>))
          else if tk_text key = ''workers'' then
            (case nextVal key (snd (next_tok p)) of
               Inl e \<Rightarrow> Inl e
             | Inr (v, p') \<Rightarrow>
                 (case Atoi v of
                    Inl e \<Rightarrow> Inl (BadInteger (tk_line key) ''workers'' e)
                  | Inr n \<Rightarrow> parseMain fl ParseFloat p' (cfg\<lparr>cf_Workers := n\<rparr>)))
          else if tk_text key = ''tcp'' then
            (case nextVal key (snd (next_tok p)) of Inl e \<Rightarrow> Inl e | Inr (v, p') \<Rightarrow> parseMain fl ParseFloat p' (cfg\<lparr>cf_TCP := isTruthy v\<rparr>))
          else if tk_text key = ''edns0'' then
            (case nextVal key (snd (next_tok p)) of Inl e \<Rightarrow> Inl e | Inr (v, p') \<Rightarrow> parseMain fl ParseFloat p' (cfg\<lparr>cf_EDNS0 := isTruthy v\<rparr>))
          else if tk_text key = ''api'' then
            (case expect ''{'' (snd (next_tok p)) of
               Inl e \<Rightarrow> Inl e
             | Inr p1 \<Rightarrow>
                 (case parseAPI p1 (cf_API cfg) of
                    Inl e \<Rightarrow> Inl e
                  | Inr (b, p') \<Rightarrow> parseMain fl ParseFloat p' (cfg\<lparr>cf_API := b\<rparr>)))
          else if tk_text key = ''postgres'' then
            (case expect ''{'' (snd (next_tok p)) of
               Inl e \<Rightarrow> Inl e
             | Inr p1 \<Rightarrow>
                 (case parsePG p1 (cf_PG cfg) of
                    Inl e \<Rightarrow> Inl e
                  | Inr (b, p') \<Rightarrow> parseMain fl ParseFloat p' (cfg\<lparr>cf_PG := b\<rparr>)))
          else if tk_text key = ''nacos'' then
            (case expect ''{'' (snd (next_tok p)) of
               Inl e \<Rightarrow> Inl e
             | Inr p1 \<Rightarrow>
                 (case parseNacos p1 (cf_Nacos cfg) of
                    Inl e \<Rightarrow> Inl e
                  | Inr (b, p') \<Rightarrow> parseMain fl ParseFloat p' (cfg\<lparr>cf_Nacos := b\<rparr>)))
          else if tk_text key = ''sync'' then
            (case expect ''{'' (snd (next_tok p)) of
               Inl e \<Rightarrow> Inl e
             | Inr p1 \<Rightarrow>
                 (case parseSync fl ParseFloat p1 (cf_Sync cfg) of
                    Inl e \<Rightarrow> Inl e
                  | Inr (b, p') \<Rightarrow> parseMain fl ParseFloat p' (cfg\<lparr>cf_Sync := b\<rparr>)))
          else Inl (UnknownKey (tk_line key) (tk_text key) ''dns-edge''))"
  by pat_completeness auto
termination
  by (relation "measure (\<lambda>(fl, pf, p, cfg). left p)")
    (auto dest: loop_left dest!: block_left intro: enter_left)

declare parseMain.simps [simp del]

definition parse :: "(rat \<Rightarrow> rat) \<Rightarrow> (string \<Rightarrow> num_error + rat) \<Rightarrow> parser \<Rightarrow> cfg_error + Config" where
  "parse fl ParseFloat p =
     (let cfg = Defaults in
      case next_tok p of
        (None, _) \<Rightarrow> Inr cfg
      | (Some name, p1) \<Rightarrow>
          if tk_text name \<noteq> ''dns-edge'' then Inl (BadBlockName (tk_line name) (tk_text name))
          else
            (case expect ''{'' p1 of
               Inl e \<Rightarrow> Inl e
             | Inr p2 \<Rightarrow> map_sum id fst (parseMain fl ParseFloat p2 cfg)))"

definition Parse :: "(rat \<Rightarrow> rat) \<Rightarrow> (string \<Rightarrow> num_error + rat) \<Rightarrow> string \<times> string option \<Rightarrow> cfg_error + Config" where
  "Parse fl ParseFloat r =
     (case tokenize r of
        Inl e \<Rightarrow> Inl e
      | Inr tokens \<Rightarrow> parse fl ParseFloat \<lparr>p_tokens = tokens, p_pos = 0\<rparr>)"

definition ParseFile :: "(rat \<Rightarrow> rat) \<Rightarrow> (string \<Rightarrow> num_error + rat) \<Rightarrow> (string \<Rightarrow> string + string \<times> string option) \<Rightarrow> string \<Rightarrow>
    cfg_error + Config" where
  "ParseFile fl ParseFloat Open path =
     (case Open path of Inl e \<Rightarrow> Inl (OpenError e) | Inr f \<Rightarrow> Parse fl ParseFloat f)"

section \<open>The grammar\<close>

text \<open>
  A configuration as a list of items, the tokens it is written with, and what it does to the settings,
  independent of the parser: later items win, and an item that is not allowed has no effect defined.
\<close>

datatype item = Setting string string | Section string "(string \<times> string) list"

fun item_texts :: "item \<Rightarrow> string list" where
  "item_texts (Setting k v) = [k, v]"
| "item_texts (Section n kvs) = n # ''{'' # pairs kvs @ [''}'']"

definition setMain :: "string \<Rightarrow> string \<Rightarrow> Config \<Rightarrow> Config option" where
  "setMain k v c =
     (if k = ''listen'' then Some (c\<lparr>cf_Listen := v\<rparr>)
      else if k = ''workers'' then (case Atoi v of Inl e \<Rightarrow> None | Inr n \<Rightarrow> Some (c\<lparr>cf_Workers := n\<rparr>))
      else if k = ''tcp'' then Some (c\<lparr>cf_TCP := v \<in> {''true'', ''1'', ''yes''}\<rparr>)
      else if k = ''edns0'' then Some (c\<lparr>cf_EDNS0 := v \<in> {''true'', ''1'', ''yes''}\<rparr>)
      else None)"

fun effect :: "(rat \<Rightarrow> rat) \<Rightarrow> (string \<Rightarrow> num_error + rat) \<Rightarrow> item \<Rightarrow> Config \<Rightarrow> Config option" where
  "effect fl ParseFloat (Setting k v) c = (if v = ''}'' then None else setMain k v c)"
| "effect fl ParseFloat (Section n kvs) c =
     (if n = ''api'' then map_option (\<lambda>b. c\<lparr>cf_API := b\<rparr>) (assign setAPI kvs (cf_API c))
      else if n = ''postgres'' then map_option (\<lambda>b. c\<lparr>cf_PG := b\<rparr>) (assign setPG kvs (cf_PG c))
      else if n = ''nacos'' then map_option (\<lambda>b. c\<lparr>cf_Nacos := b\<rparr>) (assign setNacos kvs (cf_Nacos c))
      else if n = ''sync'' then map_option (\<lambda>b. c\<lparr>cf_Sync := b\<rparr>) (assign (setSync fl ParseFloat) kvs (cf_Sync c))
      else None)"

fun effects :: "(rat \<Rightarrow> rat) \<Rightarrow> (string \<Rightarrow> num_error + rat) \<Rightarrow> item list \<Rightarrow> Config \<Rightarrow> Config option" where
  "effects fl ParseFloat [] c = Some c"
| "effects fl ParseFloat (i # items) c = Option.bind (effect fl ParseFloat i c) (effects fl ParseFloat items)"

abbreviation doc_texts :: "item list \<Rightarrow> string list" where
  "doc_texts items \<equiv> concat (map item_texts items)"

lemma advance_texts: "texts (advance n p) = drop n (texts p)"
  by (simp add: texts_def advance_def drop_map add.commute)

lemma length_pairs [simp]: "length (pairs kvs) = 2 * length kvs"
  by (induction kvs rule: pairs.induct) auto

lemma isTruthy_iff: "isTruthy v \<longleftrightarrow> v \<in> {''true'', ''1'', ''yes''}"
  by (simp add: isTruthy_def)

text \<open>An item that has an effect is read in one round of the loop.\<close>

lemma main_setting:
  assumes "texts p = k # v # s" and "v \<noteq> ''}''" and "setMain k v c = Some c'"
  shows "parseMain fl ParseFloat p c = parseMain fl ParseFloat (advance 2 p) c'"
proof -
  obtain key where key: "peek p = Some key" "tk_text key = k" "texts (advance 1 p) = v # s" using texts_Cons [OF assms(1)] by auto
  have n: "nextVal key (advance (Suc 0) p) = Inr (v, advance 2 p)" using key(3) assms(2) by (simp add: nextVal_Inr numeral_2_eq_2)
  note unf = parseMain.simps [of fl ParseFloat p c, unfolded key(1) option.case key(2) snd_next [OF key(1)] One_nat_def n sum.case prod.case]
  have "k \<in> {''listen'', ''workers'', ''tcp'', ''edns0''}" using assms(3) by (auto simp: setMain_def split: if_splits)
  then consider "k = ''listen''" | "k = ''workers''" | "k = ''tcp''" | "k = ''edns0''" by blast
  then show ?thesis
  proof cases
    case 1
    then show ?thesis using assms(3) unfolding unf by (simp add: setMain_def)
  next
    case 2
    then obtain m where "Atoi v = Inr m" "c' = c\<lparr>cf_Workers := m\<rparr>" using assms(3) by (simp add: setMain_def split: sum.splits)
    then show ?thesis using 2 unfolding unf by simp
  next
    case 3
    then show ?thesis using assms(3) unfolding unf by (simp add: setMain_def isTruthy_iff)
  next
    case 4
    then show ?thesis using assms(3) unfolding unf by (simp add: setMain_def isTruthy_iff)
  qed
qed

lemma main_section:
  assumes "texts p = nm # ''{'' # pairs kvs @ ''}'' # s" and eff: "effect fl ParseFloat (Section nm kvs) c = Some c'"
  shows "parseMain fl ParseFloat p c = parseMain fl ParseFloat (advance (2 * length kvs + 3) p) c'"
proof -
  obtain key where key: "peek p = Some key" "tk_text key = nm" "texts (advance 1 p) = ''{'' # pairs kvs @ ''}'' # s"
    using texts_Cons [OF assms(1)] by auto
  have e: "expect ''{'' (advance (Suc 0) p) = Inr (advance 2 p)" using key(3) by (simp add: expect_Inr numeral_2_eq_2)
  note unf = parseMain.simps [of fl ParseFloat p c, unfolded key(1) option.case key(2) snd_next [OF key(1)] One_nat_def e sum.case]
  have l: "advance (2 * length kvs + 2) (advance 1 p) = advance (2 * length kvs + 3) p" "advance 1 (advance 1 p) = advance 2 p"
    by (simp_all add: numeral_2_eq_2 numeral_3_eq_3)
  consider "nm = ''api''" | "nm = ''postgres''" | "nm = ''nacos''" | "nm = ''sync''" using eff by (auto split: if_splits)
  then show ?thesis
  proof cases
    case 1
    then obtain b where b: "assign setAPI kvs (cf_API c) = Some b" "c' = c\<lparr>cf_API := b\<rparr>" using eff by auto
    show ?thesis using 1 b(2) api_block.enter_pairs(2) [OF key(3) b(1), unfolded l] unfolding unf by simp
  next
    case 2
    then obtain b where b: "assign setPG kvs (cf_PG c) = Some b" "c' = c\<lparr>cf_PG := b\<rparr>" using eff by auto
    show ?thesis using 2 b(2) pg_block.enter_pairs(2) [OF key(3) b(1), unfolded l] unfolding unf by simp
  next
    case 3
    then obtain b where b: "assign setNacos kvs (cf_Nacos c) = Some b" "c' = c\<lparr>cf_Nacos := b\<rparr>" using eff by auto
    show ?thesis using 3 b(2) nacos_block.enter_pairs(2) [OF key(3) b(1), unfolded l] unfolding unf by simp
  next
    case 4
    then obtain b where b: "assign (setSync fl ParseFloat) kvs (cf_Sync c) = Some b" "c' = c\<lparr>cf_Sync := b\<rparr>" using eff by auto
    show ?thesis using 4 b(2) sync_block.enter_pairs(2) [OF key(3) b(1), unfolded l] unfolding unf by simp
  qed
qed

lemma main_item:
  assumes "texts p = item_texts i @ s" and "effect fl ParseFloat i c = Some c'"
  shows "parseMain fl ParseFloat p c = parseMain fl ParseFloat (advance (length (item_texts i)) p) c'"
proof (cases i)
  case (Setting k v)
  then show ?thesis using assms main_setting [of p k v s c c'] by (simp add: numeral_2_eq_2 split: if_splits)
next
  case (Section nm kvs)
  then show ?thesis using assms main_section [of p nm kvs s fl ParseFloat c c'] by (simp add: numeral_3_eq_3)
qed

lemma main_round_cases:
  assumes r: "parseMain fl ParseFloat p c = Inr r" and key: "peek p = Some key" and "tk_text key \<noteq> ''}''"
  obtains (setting) v p' c' where "nextVal key (advance 1 p) = Inr (v, p')" "setMain (tk_text key) v c = Some c'"
    | (api) p1 b p' where "tk_text key = ''api''" "expect ''{'' (advance 1 p) = Inr p1" "parseAPI p1 (cf_API c) = Inr (b, p')"
    | (pg) p1 b p' where "tk_text key = ''postgres''" "expect ''{'' (advance 1 p) = Inr p1" "parsePG p1 (cf_PG c) = Inr (b, p')"
    | (nacos) p1 b p' where "tk_text key = ''nacos''" "expect ''{'' (advance 1 p) = Inr p1" "parseNacos p1 (cf_Nacos c) = Inr (b, p')"
    | (sync) p1 b p' where "tk_text key = ''sync''" "expect ''{'' (advance 1 p) = Inr p1" "parseSync fl ParseFloat p1 (cf_Sync c) = Inr (b, p')"
proof -
  note unf = r [unfolded parseMain.simps [of fl ParseFloat p c] key option.case if_not_P [OF assms(3)] snd_next [OF key]]
  have val: thesis if "\<exists>v p'. nextVal key (advance 1 p) = Inr (v, p')" "\<And>v. setMain (tk_text key) v c \<noteq> None"
    using that setting by fastforce
  have "tk_text key \<in> {''listen'', ''workers'', ''tcp'', ''edns0'', ''api'', ''postgres'', ''nacos'', ''sync''}"
    using unf by (auto split: if_splits)
  then consider (l) "tk_text key = ''listen''" | (w) "tk_text key = ''workers''" | (t) "tk_text key = ''tcp''" | (e) "tk_text key = ''edns0''"
    | (a) "tk_text key = ''api''" | (p) "tk_text key = ''postgres''" | (n) "tk_text key = ''nacos''" | (s) "tk_text key = ''sync''" by blast
  then show thesis
  proof cases
    case l
    show thesis by (rule val) (use unf l in \<open>auto simp: setMain_def split: sum.splits\<close>)
  next
    case w
    then obtain v p' m where n: "nextVal key (advance 1 p) = Inr (v, p')" "Atoi v = Inr m" using unf by (auto split: sum.splits)
    show thesis using setting [OF n(1)] w n(2) by (simp add: setMain_def)
  next
    case t
    show thesis by (rule val) (use unf t in \<open>auto simp: setMain_def split: sum.splits\<close>)
  next
    case e
    show thesis by (rule val) (use unf e in \<open>auto simp: setMain_def split: sum.splits\<close>)
  qed (use unf in \<open>auto split: sum.splits intro: api pg nacos sync\<close>)
qed

lemma main_round:
  assumes "parseMain fl ParseFloat p c = Inr r" and key: "peek p = Some key" and "tk_text key \<noteq> ''}''"
  shows "\<exists>i s c'. texts p = item_texts i @ s \<and> effect fl ParseFloat i c = Some c'"
proof -
  have t: "texts p = tk_text key # texts (advance 1 p)" by (rule texts_peek(2) [OF key])
  have sec: ?thesis if "tk_text key = nm" "texts (advance 1 p) = ''{'' # pairs kvs @ ''}'' # rest" "effect fl ParseFloat (Section nm kvs) c \<noteq> None" for nm kvs rest
    using t that by (intro exI [of _ "Section nm kvs"]) auto
  from assms show ?thesis
  proof (cases rule: main_round_cases)
    case (setting v p' c')
    then obtain rest where "v \<noteq> ''}''" "texts (advance 1 p) = v # rest" unfolding nextVal_Inr by auto
    then show ?thesis using t setting(2) by (intro exI [of _ "Setting (tk_text key) v"]) auto
  next
    case (api p1 b p')
    then show ?thesis using api_block.enter_sound [OF api(2,3)] sec [OF api(1)] by auto
  next
    case (pg p1 b p')
    then show ?thesis using pg_block.enter_sound [OF pg(2,3)] sec [OF pg(1)] by auto
  next
    case (nacos p1 b p')
    then show ?thesis using nacos_block.enter_sound [OF nacos(2,3)] sec [OF nacos(1)] by auto
  next
    case (sync p1 b p')
    then show ?thesis using sync_block.enter_sound [OF sync(2,3)] sec [OF sync(1)] by auto
  qed
qed

lemma main_doc:
  "texts p = doc_texts items @ ''}'' # s \<Longrightarrow> effects fl ParseFloat items c = Some c' \<Longrightarrow>
     \<exists>p'. parseMain fl ParseFloat p c = Inr (c', p')"
proof (induction items arbitrary: p c)
  case Nil
  then obtain t where "peek p = Some t" "tk_text t = ''}''" using texts_Cons [of p "''}''" s] by auto
  then show ?case using Nil by (subst parseMain.simps) simp
next
  case (Cons i items)
  then obtain c1 where c1: "effect fl ParseFloat i c = Some c1" "effects fl ParseFloat items c1 = Some c'"
    by (auto split: bind_splits)
  have t: "texts p = item_texts i @ doc_texts items @ ''}'' # s" using Cons.prems(1) by simp
  then have "texts (advance (length (item_texts i)) p) = doc_texts items @ ''}'' # s"
    by (metis advance_texts append_eq_conv_conj)
  then show ?case using Cons.IH c1(2) main_item [OF t c1(1)] by simp
qed

lemma main_sound:
  "parseMain fl ParseFloat p c = Inr (c', p') \<Longrightarrow>
     \<exists>items s. texts p = doc_texts items @ ''}'' # s \<and> effects fl ParseFloat items c = Some c'"
proof (induction "left p" arbitrary: p c rule: less_induct)
  case less
  show ?case
  proof (cases "peek p")
    case None
    then show ?thesis using less.prems by (subst (asm) parseMain.simps) simp
  next
    case (Some key)
    show ?thesis
    proof (cases "tk_text key = ''}''")
      case True
      then have "c' = c" using less.prems Some by (subst (asm) parseMain.simps) simp
      then show ?thesis using texts_peek(2) [OF Some] True by (intro exI [of _ "[]"] exI [of _ "texts (advance 1 p)"]) simp
    next
      case False
      obtain i s c1 where i: "texts p = item_texts i @ s" "effect fl ParseFloat i c = Some c1"
        using main_round [OF less.prems Some False] by blast
      let ?p = "advance (length (item_texts i)) p"
      have ts: "texts ?p = s" using i(1) by (metis advance_texts append_eq_conv_conj)
      have "left ?p < left p"
        using i(1) by (cases i) (auto simp: left_def advance_def texts_def dest!: arg_cong [where f = length])
      moreover have "parseMain fl ParseFloat ?p c1 = Inr (c', p')" using less.prems main_item [OF i] by simp
      ultimately obtain items s' where "texts ?p = doc_texts items @ ''}'' # s'" "effects fl ParseFloat items c1 = Some c'"
        using less.hyps [of ?p c1] by blast
      then show ?thesis using i ts by (intro exI [of _ "i # items"] exI [of _ s']) simp
    qed
  qed
qed

lemma parse_accepts:
  "parse fl ParseFloat \<lparr>p_tokens = tokens, p_pos = 0\<rparr> = Inr cfg \<longleftrightarrow>
     tokens = [] \<and> cfg = Defaults \<or>
     (\<exists>items s. map tk_text tokens = ''dns-edge'' # ''{'' # doc_texts items @ ''}'' # s \<and>
        effects fl ParseFloat items Defaults = Some cfg)"
proof (cases tokens)
  case Nil
  then show ?thesis by (auto simp: parse_def next_tok_def peek_def)
next
  case (Cons t ts)
  let ?p = "\<lparr>p_tokens = tokens, p_pos = 0\<rparr>"
  have p: "peek ?p = Some t" using Cons by (simp add: peek_def)
  have tx: "texts ?p = map tk_text tokens" "texts (advance 1 ?p) = map tk_text ts" "texts (advance 2 ?p) = map tk_text (tl ts)"
    using Cons by (simp_all add: texts_def advance_def drop_Suc numeral_2_eq_2)
  have n: "next_tok ?p = (Some t, advance 1 ?p)" using p by (simp add: peek_next advance_def)
  have "parse fl ParseFloat ?p = Inr cfg \<longleftrightarrow> tk_text t = ''dns-edge'' \<and> (\<exists>r. map tk_text ts = ''{'' # r) \<and>
      (\<exists>p'. parseMain fl ParseFloat (advance 2 ?p) Defaults = Inr (cfg, p'))"
  proof (cases "expect ''{'' (advance 1 ?p)")
    case (Inl e)
    then have "\<nexists>r. map tk_text ts = ''{'' # r" using expect_Inr [of "''{''" "advance 1 ?p" "advance 2 ?p"] tx(2) by (auto simp: numeral_2_eq_2)
    then show ?thesis using Inl by (simp add: parse_def n)
  next
    case (Inr p2)
    then have "\<exists>r. map tk_text ts = ''{'' # r" "p2 = advance 2 ?p" using expect_Inr [of "''{''" "advance 1 ?p" p2] tx(2) by (auto simp: numeral_2_eq_2)
    then show ?thesis using Inr by (cases "parseMain fl ParseFloat (advance 2 ?p) Defaults") (auto simp: parse_def n)
  qed
  also have "(\<exists>p'. parseMain fl ParseFloat (advance 2 ?p) Defaults = Inr (cfg, p')) \<longleftrightarrow>
      (\<exists>items s. map tk_text (tl ts) = doc_texts items @ ''}'' # s \<and> effects fl ParseFloat items Defaults = Some cfg)"
    using main_doc [of "advance 2 ?p"] main_sound [of fl ParseFloat "advance 2 ?p"] unfolding tx(3) by blast
  finally show ?thesis using Cons by (cases ts) auto
qed

text \<open>
  C37: the parser accepts exactly the grammar. A file is read successfully when it can be split into
  tokens, and these are either none, which gives the defaults, or the block \<^verbatim>\<open>dns-edge\<close> with a list of
  allowed items, whose effects in order, starting from the defaults, are the result; whatever follows the
  closing brace is ignored. Everything else is an error.
\<close>

theorem parse_grammar:
  "Parse fl ParseFloat r = Inr cfg \<longleftrightarrow>
     (\<exists>tokens. tokenize r = Inr tokens \<and>
        (tokens = [] \<and> cfg = Defaults \<or>
         (\<exists>items s. map tk_text tokens = ''dns-edge'' # ''{'' # doc_texts items @ ''}'' # s \<and>
            effects fl ParseFloat items Defaults = Some cfg)))"
  unfolding Parse_def by (cases "tokenize r") (simp_all add: parse_accepts)

section \<open>Writing a configuration\<close>

datatype cline = LOpen string | LPair string string | LClose

fun line_text :: "cline \<Rightarrow> string" where
  "line_text (LOpen n) = n @ '' {''"
| "line_text (LPair k v) = k @ [CHR '' '', CHR 0x22] @ v @ [CHR 0x22]"
| "line_text LClose = ''}''"

fun line_texts :: "cline \<Rightarrow> string list" where
  "line_texts (LOpen n) = [n, ''{'']"
| "line_texts (LPair k v) = [k, v]"
| "line_texts LClose = [''}'']"

fun item_lines :: "item \<Rightarrow> cline list" where
  "item_lines (Setting k v) = [LPair k v]"
| "item_lines (Section n kvs) = LOpen n # map (\<lambda>(k, v). LPair k v) kvs @ [LClose]"

definition doc_lines :: "item list \<Rightarrow> cline list" where
  "doc_lines items = LOpen ''dns-edge'' # concat (map item_lines items) @ [LClose]"

definition render :: "item list \<Rightarrow> string" where
  "render items = concat (map (\<lambda>l. line_text l @ [newline]) (doc_lines items))"

text \<open>A value that a quoted string can hold, and a word that needs no quotes.\<close>

definition quotable :: "string \<Rightarrow> bool" where
  "quotable v \<longleftrightarrow> CHR 0x22 \<notin> set v \<and> CHR ''#'' \<notin> set v \<and> newline \<notin> set v \<and> length v < 60000"

definition word :: "string \<Rightarrow> bool" where
  "word w \<longleftrightarrow> w \<noteq> [] \<and> (\<forall>c \<in> set w. bare c \<and> c \<noteq> CHR ''#'' \<and> c \<noteq> newline) \<and> length w < 1000"

fun line_ok :: "cline \<Rightarrow> bool" where
  "line_ok (LOpen n) = word n"
| "line_ok (LPair k v) = (word k \<and> quotable v)"
| "line_ok LClose = True"

fun item_ok :: "item \<Rightarrow> bool" where
  "item_ok (Setting k v) = (word k \<and> quotable v)"
| "item_ok (Section n kvs) = (word n \<and> (\<forall>(k, v) \<in> set kvs. word k \<and> quotable v))"

lemma lex_blank: "blank c \<Longrightarrow> lexLine (c # cs) n = lexLine cs n"
  by (subst lexLine.simps) simp

lemma lex_nil [simp]: "lexLine [] n = Some []"
  by (subst lexLine.simps) simp

lemma lex_brace: "c = CHR ''{'' \<or> c = CHR ''}'' \<Longrightarrow> lexLine (c # cs) n = map_option (Cons \<lparr>tk_text = [c], tk_line = n\<rparr>) (lexLine cs n)"
  by (subst lexLine.simps) (auto simp: blank_def)

lemma lex_quoted:
  assumes "CHR 0x22 \<notin> set v"
  shows "lexLine (CHR 0x22 # v @ CHR 0x22 # rest) n = map_option (Cons \<lparr>tk_text = v, tk_line = n\<rparr>) (lexLine rest n)"
proof -
  have "\<forall>c \<in> set v. (\<noteq>) (CHR 0x22) c" using assms by auto
  then have "takeWhile ((\<noteq>) (CHR 0x22)) (v @ CHR 0x22 # rest) = v" "dropWhile ((\<noteq>) (CHR 0x22)) (v @ CHR 0x22 # rest) = CHR 0x22 # rest"
    by (simp_all add: takeWhile_append2 dropWhile_append2)
  then show ?thesis by (subst lexLine.simps) (simp add: blank_def)
qed

lemma lex_word:
  assumes "word w" and "rest = [] \<or> \<not> bare (hd rest)"
  shows "lexLine (w @ rest) n = map_option (Cons \<lparr>tk_text = w, tk_line = n\<rparr>) (lexLine rest n)"
proof -
  have b: "\<forall>c \<in> set w. bare c" using assms(1) by (simp add: word_def)
  have "takeWhile bare rest = []" "dropWhile bare rest = rest" using assms(2) by (cases rest; simp)+
  then have t: "takeWhile bare (w @ rest) = w" "dropWhile bare (w @ rest) = rest" using b by (simp_all add: takeWhile_append2 dropWhile_append2)
  obtain c cs where c: "w = c # cs" "bare c" using assms(1) b by (cases w) (auto simp: word_def)
  have "lexLine (w @ rest) n = map_option (Cons \<lparr>tk_text = takeWhile bare (w @ rest), tk_line = n\<rparr>) (lexLine (dropWhile bare (w @ rest)) n)"
    using c by (subst lexLine.simps) (auto simp: bare_def)
  then show ?thesis unfolding t .
qed

lemma lex_line:
  assumes "line_ok l" shows "\<exists>toks. lexLine (line_text l) n = Some toks \<and> map tk_text toks = line_texts l"
proof (cases l)
  case (LOpen w)
  then show ?thesis using assms lex_word [of w "'' {''" n] by (simp add: bare_def blank_def lex_blank lex_brace)
next
  case (LPair k v)
  then show ?thesis
    using assms lex_word [of k "[CHR '' '', CHR 0x22] @ v @ [CHR 0x22]" n] lex_quoted [of v "[]" n]
    by (simp add: bare_def blank_def lex_blank quotable_def)
next
  case LClose
  then show ?thesis by (simp add: lex_brace)
qed

lemma line_chars:
  assumes "line_ok l"
  shows "newline \<notin> set (line_text l)" "CHR ''#'' \<notin> set (line_text l)" "length (line_text l) < maxLine" "dropCR (line_text l) = line_text l"
  using assms by (cases l; auto simp: word_def quotable_def maxLine_def dropCR_def)+

lemma strip_none: "CHR ''#'' \<notin> set l \<Longrightarrow> stripComment l = l"
  by (simp add: stripComment_def IndexByte_notin)

lemma splitLines_concat:
  "(\<And>l. l \<in> set ls \<Longrightarrow> newline \<notin> set l) \<Longrightarrow> splitLines (concat (map (\<lambda>l. l @ [newline]) ls)) = ls"
proof (induction ls)
  case (Cons l ls)
  have "\<forall>c \<in> set l. (\<noteq>) newline c" using Cons.prems [of l] by auto
  then have "takeWhile ((\<noteq>) newline) (l @ newline # concat (map (\<lambda>l. l @ [newline]) ls)) = l"
    "dropWhile ((\<noteq>) newline) (l @ newline # concat (map (\<lambda>l. l @ [newline]) ls)) = newline # concat (map (\<lambda>l. l @ [newline]) ls)"
    by (simp_all add: takeWhile_append2 dropWhile_append2)
  then show ?case using Cons by (subst splitLines.simps) simp
qed (simp add: splitLines.simps)

lemma tokenize_lines:
  "(\<And>l. l \<in> set ls \<Longrightarrow> line_ok l) \<Longrightarrow>
     \<exists>toks. tokenizeLines None n (map line_text ls) = Inr toks \<and> map tk_text toks = concat (map line_texts ls)"
proof (induction ls arbitrary: n)
  case (Cons l ls)
  have ok: "line_ok l" using Cons.prems by simp
  obtain toks where "lexLine (line_text l) (n + 1) = Some toks" "map tk_text toks = line_texts l" using lex_line [OF ok] by blast
  moreover obtain toks' where "tokenizeLines None (n + 1) (map line_text ls) = Inr toks'" "map tk_text toks' = concat (map line_texts ls)"
    using Cons.IH [of "n + 1"] Cons.prems by auto
  ultimately show ?case using line_chars [OF ok] by (simp add: strip_none not_le [symmetric])
qed simp

lemma item_lines_ok: "item_ok i \<Longrightarrow> l \<in> set (item_lines i) \<Longrightarrow> line_ok l"
  by (cases i) auto

lemma pairs_lines: "concat (map line_texts (map (\<lambda>(k, v). LPair k v) kvs)) = pairs kvs"
  by (induction kvs rule: pairs.induct) auto

lemma item_lines_texts: "concat (map line_texts (item_lines i)) = item_texts i"
  using pairs_lines by (cases i) simp_all

lemma doc_lines_texts: "concat (map line_texts (doc_lines items)) = ''dns-edge'' # ''{'' # doc_texts items @ [''}'']"
  by (simp add: doc_lines_def) (induction items, simp_all add: item_lines_texts)

lemma render_tokens:
  assumes "\<And>i. i \<in> set items \<Longrightarrow> item_ok i"
  shows "\<exists>toks. tokenize (render items, None) = Inr toks \<and> map tk_text toks = ''dns-edge'' # ''{'' # doc_texts items @ [''}'']"
proof -
  have "word ''dns-edge''" by (simp add: word_def bare_def blank_def)
  then have ok: "line_ok l" if "l \<in> set (doc_lines items)" for l
    using that item_lines_ok assms by (auto simp: doc_lines_def)
  have "splitLines (render items) = map line_text (doc_lines items)"
    using splitLines_concat [of "map line_text (doc_lines items)"] line_chars(1) ok by (auto simp: render_def comp_def)
  then show ?thesis using tokenize_lines [of "doc_lines items" 0] ok by (simp add: tokenize_def doc_lines_texts)
qed

text \<open>A configuration as a file: every setting, \<open>pt\<close> being a text for the probability.\<close>

definition config_items :: "string \<Rightarrow> Config \<Rightarrow> item list" where
  "config_items pt c =
     [Setting ''listen'' (cf_Listen c), Setting ''workers'' (Itoa (cf_Workers c)),
      Setting ''tcp'' (if cf_TCP c then ''true'' else ''false''), Setting ''edns0'' (if cf_EDNS0 c then ''true'' else ''false''),
      Section ''api'' [(''listen'', ac_Listen (cf_API c))],
      Section ''postgres'' [(''dsn'', pc_DSN (cf_PG c))],
      Section ''nacos'' [(''addr'', nc_Addr (cf_Nacos c)), (''namespace'', nc_Namespace (cf_Nacos c)), (''group'', nc_Group (cf_Nacos c)),
        (''data_id_prefix'', nc_DataIDPrefix (cf_Nacos c)), (''username'', nc_Username (cf_Nacos c)), (''password'', nc_Password (cf_Nacos c))],
      Section ''sync'' [(''interval'', Itoa (sc_Interval (cf_Sync c)) @ ''ns''), (''prob'', pt),
        (''ratelimit'', Itoa (sc_RateLimit (cf_Sync c)))]]"

definition config_strings :: "string \<Rightarrow> Config \<Rightarrow> string list" where
  "config_strings pt c =
     [pt, cf_Listen c, ac_Listen (cf_API c), pc_DSN (cf_PG c), nc_Addr (cf_Nacos c), nc_Namespace (cf_Nacos c), nc_Group (cf_Nacos c),
      nc_DataIDPrefix (cf_Nacos c), nc_Username (cf_Nacos c), nc_Password (cf_Nacos c)]"

definition config_ok :: "string \<Rightarrow> Config \<Rightarrow> bool" where
  "config_ok pt c \<longleftrightarrow> is_int64 (cf_Workers c) \<and> is_int64 (sc_Interval (cf_Sync c)) \<and> is_int64 (sc_RateLimit (cf_Sync c)) \<and>
     (\<forall>s \<in> set (config_strings pt c). quotable s \<and> s \<noteq> ''}'')"

lemma length_Utoa: "n < 10 ^ Suc k \<Longrightarrow> length (Utoa n) \<le> Suc k"
proof (induction k arbitrary: n)
  case 0
  then show ?case by (subst Utoa.simps) simp
next
  case (Suc k)
  then have "n div 10 < 10 ^ Suc k" by (simp add: less_mult_imp_div_less)
  from Suc.IH [OF this] show ?case by (subst Utoa.simps) simp
qed

lemma Utoa_quotable:
  assumes "n \<le> 2 ^ 63" shows "quotable (Utoa n)" "length (Utoa n) \<le> 20" "CHR ''}'' \<notin> set (Utoa n)"
proof -
  have "n < 10 ^ Suc 19" using assms by simp
  from length_Utoa [OF this] show l: "length (Utoa n) \<le> 20" by simp
  have no: "c \<notin> set (Utoa n)" if "digit_of c = None" for c using Utoa_digits [of c n] that by auto
  have "digit_of (CHR 0x22) = None" "digit_of (CHR ''#'') = None" "digit_of newline = None" "digit_of (CHR ''}'') = None"
    by (simp_all add: digit_of_def)
  note no [OF this(1)] no [OF this(2)] no [OF this(3)] no [OF this(4)]
  then show "quotable (Utoa n)" "CHR ''}'' \<notin> set (Utoa n)" using l unfolding quotable_def by simp_all
qed

lemma Itoa_quotable:
  assumes "is_int64 i" shows "quotable (Itoa i)" "quotable (Itoa i @ ''ns'')" "Itoa i \<noteq> ''}''" "Itoa i @ ''ns'' \<noteq> ''}''"
proof -
  have "nat i \<le> 2 ^ 63" "nat (- i) \<le> 2 ^ 63" using assms by (auto simp: is_int64_def nat_le_iff)
  note u = Utoa_quotable [OF this(1)] Utoa_quotable [OF this(2)]
  then show "quotable (Itoa i)" "quotable (Itoa i @ ''ns'')" by (auto simp: quotable_def Itoa_def)
  have "CHR ''}'' \<notin> set (Itoa i)" using u by (auto simp: Itoa_def)
  then show "Itoa i \<noteq> ''}''" "Itoa i @ ''ns'' \<noteq> ''}''" by (auto simp: append_eq_Cons_conv)
qed

lemma config_effects:
  assumes "config_ok pt c" and "ParseFloat pt = Inr (sc_Prob (cf_Sync c))"
  shows "effects fl ParseFloat (config_items pt c) d = Some c"
proof -
  have i: "is_int64 (cf_Workers c)" "is_int64 (sc_Interval (cf_Sync c))" "is_int64 (sc_RateLimit (cf_Sync c))"
    and s: "\<And>x. x \<in> set (config_strings pt c) \<Longrightarrow> x \<noteq> ''}''" using assms(1) by (simp_all add: config_ok_def)
  note n = Itoa_quotable(3,4) [OF i(1)] Itoa_quotable(3,4) [OF i(2)] Itoa_quotable(3,4) [OF i(3)]
  note t = ParseInt_Itoa [OF i(1)] ParseDuration_ns [OF i(2)] ParseInt_Itoa [OF i(3)] assms(2)
  have s': "pt \<noteq> ''}''" "cf_Listen c \<noteq> ''}''" "ac_Listen (cf_API c) \<noteq> ''}''" "pc_DSN (cf_PG c) \<noteq> ''}''" "nc_Addr (cf_Nacos c) \<noteq> ''}''"
    "nc_Namespace (cf_Nacos c) \<noteq> ''}''" "nc_Group (cf_Nacos c) \<noteq> ''}''" "nc_DataIDPrefix (cf_Nacos c) \<noteq> ''}''"
    "nc_Username (cf_Nacos c) \<noteq> ''}''" "nc_Password (cf_Nacos c) \<noteq> ''}''"
    by (rule s, simp add: config_strings_def)+
  have api: "assign setAPI [(''listen'', ac_Listen (cf_API c))] a = Some (cf_API c)" for a using s' by (simp add: setAPI_def)
  have pg: "assign setPG [(''dsn'', pc_DSN (cf_PG c))] a = Some (cf_PG c)" for a using s' by (simp add: setPG_def)
  have nacos: "assign setNacos [(''addr'', nc_Addr (cf_Nacos c)), (''namespace'', nc_Namespace (cf_Nacos c)), (''group'', nc_Group (cf_Nacos c)),
        (''data_id_prefix'', nc_DataIDPrefix (cf_Nacos c)), (''username'', nc_Username (cf_Nacos c)), (''password'', nc_Password (cf_Nacos c))] a =
      Some (cf_Nacos c)" for a using s' by (simp add: setNacos_def)
  have sync: "assign (setSync fl ParseFloat) [(''interval'', Itoa (sc_Interval (cf_Sync c)) @ ''ns''), (''prob'', pt),
        (''ratelimit'', Itoa (sc_RateLimit (cf_Sync c)))] a = Some (cf_Sync c)" for a using s' n t by (simp add: setSync_def)
  show ?thesis
    unfolding config_items_def effects.simps effect.simps api pg nacos sync using s' n t by (simp add: setMain_def)
qed

lemma config_items_ok:
  assumes "config_ok pt c" shows "\<forall>i \<in> set (config_items pt c). item_ok i"
proof -
  have w: "word ''listen''" "word ''workers''" "word ''tcp''" "word ''edns0''" "word ''api''" "word ''postgres''" "word ''nacos''" "word ''sync''"
    "word ''dsn''" "word ''addr''" "word ''namespace''" "word ''group''" "word ''data_id_prefix''" "word ''username''" "word ''password''"
    "word ''interval''" "word ''prob''" "word ''ratelimit''"
    by (simp_all add: word_def bare_def blank_def)
  have n: "quotable (Itoa (cf_Workers c))" "quotable (Itoa (sc_Interval (cf_Sync c)) @ ''ns'')" "quotable (Itoa (sc_RateLimit (cf_Sync c)))"
    using assms(1) Itoa_quotable by (simp_all add: config_ok_def)
  have b: "quotable ''true''" "quotable ''false''" by (simp_all add: quotable_def)
  have s: "quotable s" if "s \<in> set (config_strings pt c)" for s using that assms(1) by (simp add: config_ok_def)
  have s': "quotable pt" "quotable (cf_Listen c)" "quotable (ac_Listen (cf_API c))" "quotable (pc_DSN (cf_PG c))" "quotable (nc_Addr (cf_Nacos c))"
    "quotable (nc_Namespace (cf_Nacos c))" "quotable (nc_Group (cf_Nacos c))" "quotable (nc_DataIDPrefix (cf_Nacos c))"
    "quotable (nc_Username (cf_Nacos c))" "quotable (nc_Password (cf_Nacos c))"
    by (rule s, simp add: config_strings_def)+
  show ?thesis by (simp add: config_items_def w n b s')
qed

text \<open>
  C38: every configuration can be written down. A configuration with 64-bit numbers and strings without
  quotation marks, number signs, line breaks or the single brace is read back from the file with all its
  settings as it is, given a text that the library reads as the probability.
\<close>

theorem config_roundtrip:
  assumes "config_ok pt c" and "ParseFloat pt = Inr (sc_Prob (cf_Sync c))"
  shows "Parse fl ParseFloat (render (config_items pt c), None) = Inr c"
proof -
  obtain toks where t: "tokenize (render (config_items pt c), None) = Inr toks"
    "map tk_text toks = ''dns-edge'' # ''{'' # doc_texts (config_items pt c) @ [''}'']"
    using render_tokens config_items_ok [OF assms(1)] by metis
  have "parse fl ParseFloat \<lparr>p_tokens = toks, p_pos = 0\<rparr> = Inr c"
    unfolding parse_accepts using t(2) config_effects [where ParseFloat = ParseFloat, OF assms] by metis
  then show ?thesis using t(1) by (simp add: Parse_def)
qed

theorem config_roundtrip_witness:
  "Parse id (\<lambda>s. if s = ''0.01'' then Inr (sc_Prob (cf_Sync Defaults)) else Inl ErrSyntax)
     (render (config_items ''0.01'' Defaults), None) = Inr Defaults"
proof (rule config_roundtrip)
  show "config_ok ''0.01'' Defaults"
    by (simp add: config_ok_def config_strings_def Defaults_def Second_def is_int64_def quotable_def)
qed simp

end
