(* ===== verification/Boot.thy ===== *)
theory Boot
  imports Replica Config_Parser Weight_Providers DNS_Handler
begin

text \<open>
  \<^verbatim>\<open>cmd/dns-edge/main.go\<close>, the connecting half of \<^verbatim>\<open>internal/pg/store.go\<close> and the constructors
  \<^verbatim>\<open>dns.NewHandler\<close> and \<^verbatim>\<open>api.New\<close>: how the process gets from its command line to a set of running
  components, or exits. Everything outside is in the record \<open>world\<close>: the file system, the server
  the pool connects to, the Nacos SDK, the clock, the fates of the statements and the orders maps are
  ranged over. The listeners that main starts are given by protocol and address; the DNS and HTTP servers
  behind them are the libraries'.
\<close>

section \<open>Connecting to PostgreSQL\<close>

text \<open>
  \<open>NewPool\<close> and \<open>Ping\<close> are the driver's. The result has the error, whether a pool is left open, and the
  data source name as it is logged. (The ellipsis is three bytes of UTF-8.)
\<close>

datatype connect_error = ConnectError string | PingError string

definition maskDSN :: "string \<Rightarrow> string" where
  "maskDSN dsn = (if 60 < length dsn then take 60 dsn @ [CHR 0xE2, CHR 0x80, CHR 0xA6] else dsn)"

definition pg_New :: "(string \<Rightarrow> string option) \<Rightarrow> (string \<Rightarrow> string option) \<Rightarrow> string \<Rightarrow> connect_error option \<times> bool \<times> string list" where
  "pg_New NewPool Ping dsn =
     (case NewPool dsn of
        Some e \<Rightarrow> (Some (ConnectError e), False, [])
      | None \<Rightarrow>
          (case Ping dsn of
             Some e \<Rightarrow> (Some (PingError e), False, [])
           | None \<Rightarrow> (None, True, [maskDSN dsn])))"

section \<open>Choosing the weights\<close>

text \<open>
  The dynamic type of the variable \<open>weightProvider\<close>, with the state of the provider behind it. A static
  provider refers to the zone store of the process, so at a later call it sees the store of that
  time: \<open>map_provider (\<lambda>_. s)\<close> is the provider when the store is \<open>s\<close>.
\<close>

datatype 's provider = NullProvider | StaticProvider 's | CompositeProvider "NacosWeightProvider \<times> 's"

fun provider_GetWeights :: "mdns_lib \<Rightarrow> 's ZoneStore \<Rightarrow> 's provider \<Rightarrow> string \<Rightarrow> u16 \<Rightarrow> IP option \<Rightarrow> weights option \<times> 's provider" where
  "provider_GetWeights L S NullProvider name qtype ip = map_prod id (\<lambda>_. NullProvider) (GetWeights_m Null () name qtype ip)"
| "provider_GetWeights L S (StaticProvider s) name qtype ip =
     map_prod id StaticProvider (GetWeights_m (NewStatic S) s name qtype ip)"
| "provider_GetWeights L S (CompositeProvider w) name qtype ip =
     map_prod id CompositeProvider (GetWeights_m (NewComposite (NacosProvider L) (NewStatic S)) w name qtype ip)"

definition provider_iface :: "mdns_lib \<Rightarrow> 's ZoneStore \<Rightarrow> 's provider WeightProvider" where
  "provider_iface L S = \<lparr>GetWeights_m = provider_GetWeights L S\<rparr>"

definition selectWeightProvider :: "mdns_lib \<Rightarrow> unmarshal \<Rightarrow> (string \<Rightarrow> nat \<Rightarrow> string \<Rightarrow> string \<Rightarrow> string \<Rightarrow> string + nacos_client) \<Rightarrow>
    ((string, Zone) fmap \<Rightarrow> string list) \<Rightarrow> (Records \<Rightarrow> RecordKey list) \<Rightarrow> NacosConfig \<Rightarrow> 's ZoneStore \<Rightarrow> 's \<Rightarrow> 's provider" where
  "selectWeightProvider L J NewConfigClient zord rord cfg S s =
     (let static = StaticProvider s in
      if nc_Addr cfg = [] then static
      else
        (case NewNacosWeightProvider NewConfigClient cfg of
           Inl e \<Rightarrow> static
         | Inr (K, nacos) \<Rightarrow> CompositeProvider (Nacos_Start L J K zord rord S s nacos, s)))"

section \<open>The seed zone\<close>

datatype seed_error = SeedParse string | SeedStore store_error

definition seedTestZone :: "mdns_lib \<Rightarrow> 's ZoneStore \<Rightarrow> 's \<Rightarrow> seed_error option \<times> 's" where
  "seedTestZone L S s =
     (case NewRR L ''www.example.com. 300 IN A 1.2.3.4'' of
        Inl e \<Rightarrow> (Some (SeedParse e), s)
      | Inr wwwRR \<Rightarrow>
     (case NewRR L ''api.example.com. 10 IN A 1.2.3.4'' of
        Inl e \<Rightarrow> (Some (SeedParse e), s)
      | Inr apiRR1 \<Rightarrow>
     (case NewRR L ''api.example.com. 10 IN A 5.6.7.8'' of
        Inl e \<Rightarrow> (Some (SeedParse e), s)
      | Inr apiRR2 \<Rightarrow>
          map_prod (map_option SeedStore) id (Update_m S s
            \<lparr>z_Name = ''example.com.'',
             z_Records = fmupd (rkey ''api.example.com.'' TypeA)
               [\<lparr>r_ID = 0, r_Name = ''api.example.com.'', r_Type = TypeA, r_TTL = 10, r_Value = ''1.2.3.4'', r_Weight = 70, r_RR = apiRR1\<rparr>,
                \<lparr>r_ID = 0, r_Name = ''api.example.com.'', r_Type = TypeA, r_TTL = 10, r_Value = ''5.6.7.8'', r_Weight = 30, r_RR = apiRR2\<rparr>]
              (fmupd (rkey ''www.example.com.'' TypeA)
               [\<lparr>r_ID = 0, r_Name = ''www.example.com.'', r_Type = TypeA, r_TTL = 300, r_Value = ''1.2.3.4'', r_Weight = 0, r_RR = wwwRR\<rparr>] fmempty),
             z_SOA = None\<rparr>))))"

section \<open>Starting the process\<close>

definition NewHandler :: "'s ZoneStore \<Rightarrow> 'w WeightProvider \<Rightarrow> bool \<Rightarrow> rat \<Rightarrow> ('s, 'w) Handler" where
  "NewHandler store weights syncer prob = \<lparr>hd_store = store, hd_weights = weights, hd_syncer = syncer, hd_prob = prob\<rparr>"

text \<open>\<open>api.New\<close>: the address the server will listen on and what its handlers work on.\<close>

definition NewServer :: "APIConfig \<Rightarrow> 'd RecordStore \<Rightarrow> 's ZoneStore \<Rightarrow> string \<times> ('d, 's) Server" where
  "NewServer cfg pg zs = (ac_Listen cfg, \<lparr>srv_pg = pg, srv_store = zs\<rparr>)"

text \<open>
  The world of one start: \<open>w_elsewhere\<close> is what other processes do to the database between the schema and
  the load, \<open>w_since\<close> the time read just before the load, \<open>w_started\<close> the time the bucket is filled.
\<close>

record world =
  w_Open :: "string \<Rightarrow> string + string \<times> string option"
  w_ParseFloat :: "string \<Rightarrow> num_error + rat"
  w_fl :: "rat \<Rightarrow> rat"
  w_NewPool :: "string \<Rightarrow> string option"
  w_Ping :: "string \<Rightarrow> string option"
  w_schema :: fate
  w_elsewhere :: "DB \<Rightarrow> DB"
  w_since :: int
  w_load :: "fate \<times> nat option"
  w_le :: "string \<Rightarrow> string \<Rightarrow> bool"
  w_scan :: "(zone_row \<times> rec_row) list \<Rightarrow> (zone_row \<times> rec_row) list"
  w_zord :: "(string, Zone) fmap \<Rightarrow> string list"
  w_rord :: "Records \<Rightarrow> RecordKey list"
  w_NewConfigClient :: "string \<Rightarrow> nat \<Rightarrow> string \<Rightarrow> string \<Rightarrow> string \<Rightarrow> string + nacos_client"
  w_Unmarshal :: unmarshal
  w_started :: int
  w_pg :: pg_env

datatype exit = ExitConfig cfg_error | FatalConnect connect_error | FatalSchema pg_error | FatalLoad pg_error

text \<open>What is there when main has started its servers.\<close>

record process =
  pr_cfg :: Config
  pr_store :: RWMutexStore
  pr_provider :: "RWMutexStore provider"
  pr_handler :: "(RWMutexStore, RWMutexStore provider) Handler"
  pr_syncer :: "PGSyncer option"
  pr_api :: "(string \<times> (DB, RWMutexStore) Server) option"
  pr_listeners :: "(string \<times> string) list"

text \<open>
  The branch of main with a database, up to the API server: zone store, weight provider, syncer and API
  server, or the reason to exit. \<^verbatim>\<open>apiSrv.Start\<close> only starts a goroutine and returns no error.
\<close>

definition startPG :: "mdns_lib \<Rightarrow> range_oracle \<Rightarrow> world \<Rightarrow> bool \<Rightarrow> Config \<Rightarrow> DB \<Rightarrow> RWMutexStore \<Rightarrow>
    (exit + RWMutexStore \<times> RWMutexStore provider \<times> PGSyncer \<times> string \<times> (DB, RWMutexStore) Server) \<times> DB" where
  "startPG L ord W autoMigrate cfg db zoneStore =
     (let S = RWMutexStore_iface ord in
      case pg_New (w_NewPool W) (w_Ping W) (pc_DSN (cf_PG cfg)) of
        (Some e, _) \<Rightarrow> (Inl (FatalConnect e), db)
      | (None, _) \<Rightarrow>
          (case if autoMigrate then EnsureSchema (w_schema W) db else (None, db) of
             (Some e, db1) \<Rightarrow> (Inl (FatalSchema e), db1)
           | (None, db1) \<Rightarrow>
               (let syncSince = w_since W; db2 = w_elsewhere W db1 in
                case LoadAll L S (fst (w_load W)) (snd (w_load W)) (w_le W) (w_scan W) (w_zord W) db2 zoneStore of
                  (Some e, _) \<Rightarrow> (Inl (FatalLoad e), db2)
                | (None, s) \<Rightarrow>
                    (Inr (s, selectWeightProvider L (w_Unmarshal W) (w_NewConfigClient W) (w_zord W) (w_rord W) (cf_Nacos cfg) S s,
                       NewSyncer (w_fl W) (w_started W) syncSince (cf_Sync cfg),
                       NewServer (cf_API cfg) (PG_iface L (w_pg W)) S), db2))))"

text \<open>The servers main starts for DNS.\<close>

definition dnsListeners :: "Config \<Rightarrow> (string \<times> string) list" where
  "dnsListeners cfg = (''udp'', cf_Listen cfg) # (if cf_TCP cfg then [(''tcp'', cf_Listen cfg)] else [])"

definition main :: "mdns_lib \<Rightarrow> range_oracle \<Rightarrow> world \<Rightarrow> string \<Rightarrow> bool \<Rightarrow> DB \<Rightarrow> (exit + process) \<times> DB" where
  "main L ord W corefilePath autoMigrate db =
     (case ParseFile (w_fl W) (w_ParseFloat W) (w_Open W) corefilePath of
        Inl e \<Rightarrow> (Inl (ExitConfig e), db)
      | Inr cfg \<Rightarrow>
          (let S = RWMutexStore_iface ord; zoneStore = New;
               proc = (\<lambda>s provider syncer api.
                 \<lparr>pr_cfg = cfg, pr_store = s, pr_provider = provider,
                  pr_handler = NewHandler S (provider_iface L S) (syncer \<noteq> None) (sc_Prob (cf_Sync cfg)),
                  pr_syncer = syncer, pr_api = api, pr_listeners = dnsListeners cfg\<rparr>)
           in
             if pc_DSN (cf_PG cfg) \<noteq> [] then
               (case startPG L ord W autoMigrate cfg db zoneStore of
                  (Inl e, db') \<Rightarrow> (Inl e, db')
                | (Inr (s, provider, pgSyncer, apiSrv), db') \<Rightarrow> (Inr (proc s provider (Some pgSyncer) (Some apiSrv)), db'))
             else
               (case seedTestZone L S zoneStore of (e, s) \<Rightarrow> (Inr (proc s NullProvider None None), db))))"

text \<open>What main stops after the signal, in this order: the API server, then the DNS servers.\<close>

definition shutdown :: "process \<Rightarrow> (string \<times> string) list" where
  "shutdown p = (case pr_api p of Some (addr, _) \<Rightarrow> [(''http'', addr)] | None \<Rightarrow> []) @ pr_listeners p"

section \<open>What a start leaves behind\<close>


lemma LoadAll_None: "LoadAll L S fate brk le scan zord db s = (None, s') \<Longrightarrow> fate = Done \<and> brk = None"
  by (auto simp: LoadAll_def Let_def split: if_splits)

lemma startPG_started:
  assumes "startPG L ord W mig cfg db zs = (Inr (s, provider, y, api), db')"
  shows "LoadAll L (RWMutexStore_iface ord) Done None (w_le W) (w_scan W) (w_zord W) db' zs = (None, s)"
    and "y = NewSyncer (w_fl W) (w_started W) (w_since W) (cf_Sync cfg)"
    and "api = (ac_Listen (cf_API cfg), \<lparr>srv_pg = PG_iface L (w_pg W), srv_store = RWMutexStore_iface ord\<rparr>)"
    and "provider = selectWeightProvider L (w_Unmarshal W) (w_NewConfigClient W) (w_zord W) (w_rord W) (cf_Nacos cfg) (RWMutexStore_iface ord) s"
  using assms LoadAll_None
  by (fastforce simp: startPG_def Let_def NewServer_def split: prod.splits option.splits if_splits)+

lemma main_config:
  assumes "main L ord W path mig db = (Inr p, db')"
  shows "ParseFile (w_fl W) (w_ParseFloat W) (w_Open W) path = Inr (pr_cfg p)"
    and "pc_DSN (cf_PG (pr_cfg p)) \<noteq> [] \<longleftrightarrow> pr_syncer p \<noteq> None"
  using assms by (auto simp: main_def Let_def split: sum.splits prod.splits if_splits)

lemma main_pg:
  assumes "main L ord W path mig db = (Inr p, db')" and "pr_syncer p = Some y"
  shows "LoadAll L (RWMutexStore_iface ord) Done None (w_le W) (w_scan W) (w_zord W) db' New = (None, pr_store p)"
    and "y = NewSyncer (w_fl W) (w_started W) (w_since W) (cf_Sync (pr_cfg p))"
proof -
  obtain provider api where "startPG L ord W mig (pr_cfg p) db New = (Inr (pr_store p, provider, y, api), db')"
    using assms by (auto simp: main_def Let_def split: sum.splits prod.splits if_splits)
  from startPG_started [OF this]
  show "LoadAll L (RWMutexStore_iface ord) Done None (w_le W) (w_scan W) (w_zord W) db' New = (None, pr_store p)"
    and "y = NewSyncer (w_fl W) (w_started W) (w_since W) (cf_Sync (pr_cfg p))" by simp_all
qed

section \<open>A running instance\<close>

text \<open>
  The loader of the syncer on the database \<open>db\<close>: the driver sends a time as microseconds, the syncer
  keeps nanoseconds.
\<close>

definition pgLoader :: "mdns_lib \<Rightarrow> range_oracle \<Rightarrow> sync_env \<Rightarrow> DB \<Rightarrow> RWMutexStore loader" where
  "pgLoader L ord E db = (\<lambda>since. IncrementalLoad L (RWMutexStore_iface ord) E db db (since div 1000))"

text \<open>The clock of one instance does not go back, and no two looks at it are a century apart.\<close>

definition clock_step :: "PGSyncer \<Rightarrow> int \<Rightarrow> bool" where
  "clock_step y now \<longleftrightarrow> tb_last (ps_bucket y) \<le> now \<and> now \<le> tb_last (ps_bucket y) + 2 ^ 62"

text \<open>A run of the sync loop alone, on one database, never loses a change: the contract of the loader.\<close>

interpretation pgl: incremental_loader "{pgLoader L ord E db | ord E. range_ok ord \<and> permutes (se_zscan E) \<and> permutes (se_rscan E)}"
  "\<lambda>t s. follows L (t div 1000) db s" for L db
proof unfold_locales
  fix load t s s' t'
  assume "load \<in> {pgLoader L ord E db | ord E. range_ok ord \<and> permutes (se_zscan E) \<and> permutes (se_rscan E)}"
    and f: "follows L (t div 1000) db s" and l: "load t s = (None, s')"
  then obtain ord E where E: "range_ok ord" "permutes (se_zscan E)" "permutes (se_rscan E)"
    "IncrementalLoad L (RWMutexStore_iface ord) E db db (t div 1000) s = (None, s')" by (auto simp: pgLoader_def)
  have f': "follows L (t div 1000) db s'" using follows_IncrementalLoad [OF f E(1-3) order_refl E(4)] by simp
  show "follows L (t' div 1000) db s'" by (rule tracks_exact [OF tracksD(1-3) [OF f'] follows_undisturbed [OF f E]])
next
  fix load t s e s'
  assume "load \<in> {pgLoader L ord E db | ord E. range_ok ord \<and> permutes (se_zscan E) \<and> permutes (se_rscan E)}"
    and f: "follows L (t div 1000) db s" and l: "load t s = (Some e, s')"
  then obtain ord E where E: "range_ok ord" "permutes (se_zscan E)" "permutes (se_rscan E)"
    "IncrementalLoad L (RWMutexStore_iface ord) E db db (t div 1000) s = (Some e, s')" by (auto simp: pgLoader_def)
  then show "follows L (t div 1000) db s'" using follows_IncrementalLoad [OF f E(1-3) order_refl E(4)] by simp
qed

text \<open>
  The database, the syncer, the zone store and the load under way, and what may happen next: a request to this
  instance or to another one (which changes only the database), a trigger that arrives from a query, a round of the
  loop that the rate limiter refuses or that begins a load, a step of the load, and its end, with or without
  success. The loop makes one load at a time; requests and triggers may come at any moment.
\<close>

type_synonym instance_state = "DB \<times> PGSyncer \<times> RWMutexStore \<times> loading"

inductive instance_step :: "mdns_lib \<Rightarrow> range_oracle \<Rightarrow> (rat \<Rightarrow> rat) \<Rightarrow> instance_state \<Rightarrow> instance_state \<Rightarrow> bool" for L ord fl where
  here: "window (ps_lastAt y) ph div 1000 < pe_now E \<Longrightarrow> benign db route \<Longrightarrow>
    serveAPI L (node L E ord) alone route (db, s) = (resp, db', s') \<Longrightarrow> instance_step L ord fl (db, y, s, ph) (db', y, s', ph)"
| elsewhere: "window (ps_lastAt y) ph div 1000 < pe_now E \<Longrightarrow> benign db route \<Longrightarrow>
    serveAPI L (node L E ord') alone route (db, r) = (resp, db', r') \<Longrightarrow> instance_step L ord fl (db, y, s, ph) (db', y, s, ph)"
| trigger: "instance_step L ord fl (db, y, s, ph) (db, TriggerSync y, s, ph)"
| refused: "received triggered y = Some y1 \<Longrightarrow> clock_step y now \<Longrightarrow> doSync_begin fl now y1 = (False, y2) \<Longrightarrow>
    instance_step L ord fl (db, y, s, Idle) (db, y2, s, Idle)"
| begun: "received triggered y = Some y1 \<Longrightarrow> clock_step y now \<Longrightarrow> doSync_begin fl now y1 = (True, y2) \<Longrightarrow>
    ps_lastAt y \<le> queryStart \<Longrightarrow> permutes scan \<Longrightarrow>
    instance_step L ord fl (db, y, s, Idle) (db, y2, s, Zones queryStart (queryIncrementalZones scan (ps_lastAt y div 1000) db))"
| loads: "load_step L (RWMutexStore_iface ord) db (ps_lastAt y div 1000) (s, ph) (s', ph') \<Longrightarrow>
    instance_step L ord fl (db, y, s, ph) (db, y, s', ph')"
| through: "instance_step L ord fl (db, y, s, Records queryStart []) (db, doSync_end queryStart None y, s, Idle)"
| failed: "ph \<noteq> Idle \<Longrightarrow> instance_step L ord fl (db, y, s, ph) (db, doSync_end queryStart (Some e) y, s, Idle)"

text \<open>The phase with its time as the database compares it.\<close>

fun in_micros :: "loading \<Rightarrow> loading" where
  "in_micros Idle = Idle"
| "in_micros (Zones q zs) = Zones (q div 1000) zs"
| "in_micros (Records q rs) = Records (q div 1000) rs"

lemma window_micros: "window (t div 1000) (in_micros ph) = window t ph div 1000"
  by (cases ph) simp_all

lemma load_step_micros: "load_step L S db t (s, ph) (s', ph') \<Longrightarrow> load_step L S db t (s, in_micros ph) (s', in_micros ph')"
  by (erule load_stepE) (auto intro: load_step.intros)

text \<open>The invariant of a running instance, \<open>c\<close> being the capacity of the bucket.\<close>

fun instance_ok :: "mdns_lib \<Rightarrow> range_oracle \<Rightarrow> (rat \<Rightarrow> rat) \<Rightarrow> int \<Rightarrow> instance_state \<Rightarrow> bool" where
  "instance_ok L ord fl c (db, y, s, ph) \<longleftrightarrow> replica L ord db s (ps_lastAt y div 1000) (in_micros ph) \<and> bucket_wf (ps_bucket y) \<and>
     tb_capacity (ps_bucket y) = of_int c \<and> tb_rate (ps_bucket y) = fl (of_int c / of_int Second)"

lemma syncer_parts:
  "received triggered y = Some y1 \<Longrightarrow> ps_lastAt y1 = ps_lastAt y \<and> ps_bucket y1 = ps_bucket y"
  "doSync_begin fl now y = (ok, y2) \<Longrightarrow> ps_lastAt y2 = ps_lastAt y \<and> ps_bucket y2 = snd (allow fl now (ps_bucket y))"
  "ps_lastAt (doSync_end q e y) = (if e = None then q else ps_lastAt y) \<and> ps_bucket (doSync_end q e y) = ps_bucket y"
  "ps_lastAt (TriggerSync y) = ps_lastAt y \<and> ps_bucket (TriggerSync y) = ps_bucket y"
  by (auto simp: received_def doSync_begin_def doSync_end_def TriggerSync_def split: if_splits prod.splits option.splits)

lemma instance_ok_step:
  assumes "instance_step L ord fl x x'" and "instance_ok L ord fl c x" and "ieee_ok fl"
  shows "instance_ok L ord fl c x'"
proof -
  have b: "bucket_wf (ps_bucket y2)" "tb_capacity (ps_bucket y2) = tb_capacity (ps_bucket y)" "tb_rate (ps_bucket y2) = tb_rate (ps_bucket y)" "ps_lastAt y2 = ps_lastAt y"
    if "received triggered y = Some y1" "clock_step y now" "doSync_begin fl now y1 = (ok, y2)" "bucket_wf (ps_bucket y)" for y y1 y2 now ok triggered
    using allow_wf [OF assms(3) that(4)] syncer_parts(1) [OF that(1)] syncer_parts(2) [OF that(3)] that(2) by (simp_all add: clock_step_def)
  from assms(1) show ?thesis
  proof (cases rule: instance_step.cases)
    case (here y ph E db route s resp db' s')
    then show ?thesis using assms(2) replica.local [OF _ _ here(4,5)] by (simp add: window_micros)
  next
    case (elsewhere y ph E db route ord' r resp db' r' s)
    then show ?thesis using assms(2) replica.remote [OF _ _ elsewhere(4,5)] by (simp add: window_micros)
  next
    case (trigger db y s ph)
    then show ?thesis using assms(2) syncer_parts(4) [of y] by simp
  next
    case (refused triggered y y1 now y2 db s)
    then show ?thesis using assms(2) b [OF refused(3-5)] by simp
  next
    case (begun triggered y y1 now y2 queryStart scan db s)
    then show ?thesis using assms(2) b [OF begun(3-5)] replica.begin_load [OF _ zdiv_mono1 [OF begun(6)] begun(7)] by simp
  next
    case (loads db y s ph s' ph')
    then show ?thesis using assms(2) replica.load [OF _ load_step_micros [OF loads(3)]] by simp
  next
    case (through db y s queryStart)
    then show ?thesis using assms(2) replica.through syncer_parts(3) [of queryStart None y] by auto
  next
    case (failed ph db y s queryStart e)
    then show ?thesis using assms(2) replica.broken syncer_parts(3) [of queryStart "Some e" y] by auto
  qed
qed

text \<open>A round of the loop as \<open>doSync\<close> has it, undisturbed, is a run of these steps.\<close>

lemma load_steps_instance:
  "(load_step L (RWMutexStore_iface ord) db (ps_lastAt y div 1000))\<^sup>*\<^sup>* (s, ph) (s', ph') \<Longrightarrow>
     (instance_step L ord fl)\<^sup>*\<^sup>* (db, y, s, ph) (db, y, s', ph')"
  by (induction "(s', ph')" arbitrary: s' ph' rule: rtranclp_induct) (auto intro: rtranclp.rtrancl_into_rtrancl instance_step.loads)

lemma round_steps:
  assumes "received triggered y = Some y1" and "clock_step y now" and "ps_lastAt y \<le> q" and "db_wf db"
    and "permutes (se_zscan E)" and "permutes (se_rscan E)" and d: "doSync fl now q (pgLoader L ord E db) (y1, s) = (y', s')"
  shows "(instance_step L ord fl)\<^sup>*\<^sup>* (db, y, s, Idle) (db, y', s', Idle)"
proof -
  obtain ok y2 where b: "doSync_begin fl now y1 = (ok, y2)" by fastforce
  have la: "ps_lastAt y2 = ps_lastAt y" using syncer_parts(1) [OF assms(1)] syncer_parts(2) [OF b] by simp
  show ?thesis
  proof (cases ok)
    case False
    then show ?thesis using d b instance_step.refused [OF assms(1,2)] by (auto simp: doSync_def)
  next
    case True
    obtain e where l: "IncrementalLoad L (RWMutexStore_iface ord) E db db (ps_lastAt y div 1000) s = (e, s')" and y': "y' = doSync_end q e y2"
      using d b True la by (auto simp: doSync_def pgLoader_def Let_def split: prod.splits)
    have tb: "''zones'' \<in> set (db_tables db)" "''records'' \<in> set (db_tables db)" using assms(4) by (simp_all add: db_wf_def schema_ok_simps)
    obtain scan ph where p: "permutes scan" and st: "(load_step L (RWMutexStore_iface ord) db (ps_lastAt y2 div 1000))\<^sup>*\<^sup>*
        (s, Zones q (queryIncrementalZones scan (ps_lastAt y div 1000) db)) (s', ph)" and ph: "e = None \<Longrightarrow> ph = Records q []"
      using load_steps_IncrementalLoad [OF tb, of L "RWMutexStore_iface ord" "ps_lastAt y div 1000" s q s' "e = None"] assms(5,6) l la by auto
    have "ph \<noteq> Idle" using load_steps_reach [OF st] by auto
    then have "instance_step L ord fl (db, y2, s', ph) (db, y', s', Idle)"
      using ph y' instance_step.through instance_step.failed by (cases e) auto
    with load_steps_instance [OF st, of fl]
    have "(instance_step L ord fl)\<^sup>*\<^sup>* (db, y2, s, Zones q (queryIncrementalZones scan (ps_lastAt y div 1000) db)) (db, y', s', Idle)"
      by (rule rtranclp.rtrancl_into_rtrancl)
    then show ?thesis
      using instance_step.begun [OF assms(1,2) b [unfolded True [THEN eqTrueI]] assms(3) p] by (meson converse_rtranclp_into_rtranclp)
  qed
qed

lemma instance_ok_run:
  assumes "(instance_step L ord fl)\<^sup>*\<^sup>* x x'" and "instance_ok L ord fl c x" and "ieee_ok fl"
  shows "instance_ok L ord fl c x'"
  using assms(1,2) by (induction rule: rtranclp_induct) (auto intro: instance_ok_step [OF _ _ assms(3)])

lemma instance_ok_start:
  assumes "main L ord W path mig db0 = (Inr p, db)" and "pr_syncer p = Some y" and "db_wf db" and "rows_ok L db"
    and "permutes (w_scan W)" and "\<And>m. range_order (w_zord W m) m" and "ieee_ok (w_fl W)" and "sc_RateLimit (cf_Sync (pr_cfg p)) \<le> 2 ^ 53"
  shows "instance_ok L ord (w_fl W) (max 1 (sc_RateLimit (cf_Sync (pr_cfg p)))) (db, y, pr_store p, Idle)"
proof -
  note m = main_pg [OF assms(1,2)]
  let ?c = "max 1 (sc_RateLimit (cf_Sync (pr_cfg p)))"
  have c: "ps_bucket y = newTokenBucket (w_fl W) (w_started W) ?c"
    unfolding m(2) by (simp add: NewSyncer_def Let_def max_def)
  have "bucket_wf (ps_bucket y)" "tb_capacity (ps_bucket y) = of_int ?c" "tb_rate (ps_bucket y) = w_fl W (of_int ?c / of_int Second)"
    using new_bucket [OF assms(7), of ?c] assms(8) unfolding c by simp_all
  moreover have "replica L ord db (pr_store p) (ps_lastAt y div 1000) Idle"
    by (rule replica.start [OF assms(3-6) m(1)])
  ultimately show ?thesis by simp
qed

lemma instance_tick:
  assumes "instance_ok L ord fl c (db, y, s, Idle)" and "1 \<le> c" and "c \<le> 2 ^ 53" and "ieee_ok fl" and "mdns_ok L" and "range_ok ord" and "sync_done E"
    and "tb_last (ps_bucket y) + 2 * Second \<le> now" and "now \<le> tb_last (ps_bucket y) + 2 ^ 62"
  shows "\<exists>y' s'. doSync fl now q (pgLoader L ord E db) (y, s) = (y', s') \<and> ps_success y' = ps_success y + 1 \<and>
    ps_lastAt y' = q \<and> (\<forall>a. contents s' a = db_contents L db a) \<and> db_wf db"
proof -
  have f: "follows L (ps_lastAt y div 1000) db s" using replica_follows [OF _ assms(5,6)] assms(1) by simp
  obtain s' where s': "IncrementalLoad L (RWMutexStore_iface ord) E db db (ps_lastAt y div 1000) s = (None, s')"
    "\<forall>a. contents s' a = db_contents L db a"
    using synced_contents [OF f assms(6,7)] by blast
  obtain b where "allow fl now (ps_bucket y) = (True, b)"
    using refill_full [OF assms(4) _ assms(2,3) _ _ _ assms(9)] assms(1,8) by (simp add: Second_def)
  then have "doSync fl now q (pgLoader L ord E db) (y, s) = (y\<lparr>ps_bucket := b, ps_success := ps_success y + 1, ps_lastAt := q\<rparr>, s')"
    using s'(1) by (simp add: doSync_defs pgLoader_def)
  then show ?thesis using s'(2) tracksD(1) [OF f] by auto
qed

section \<open>A concrete start\<close>

definition demo_config :: Config where
  "demo_config = Defaults\<lparr>cf_PG := \<lparr>pc_DSN = ''x''\<rparr>\<rparr>"

definition demo_items :: "item list" where
  "demo_items = [Section ''postgres'' [(''dsn'', ''x'')]]"

definition demo_world :: "string \<Rightarrow> world" where
  "demo_world text = \<lparr>w_Open = (\<lambda>_. Inr (text, None)), w_ParseFloat = (\<lambda>_. Inl ErrSyntax), w_fl = (\<lambda>x. x),
     w_NewPool = (\<lambda>_. None), w_Ping = (\<lambda>_. None), w_schema = Done, w_elsewhere = (\<lambda>db. db), w_since = 6000,
     w_load = (Done, None), w_le = (\<lambda>_ _. True), w_scan = (\<lambda>x. x), w_zord = (\<lambda>m. sorted_list_of_set (fmdom' m)),
     w_rord = (\<lambda>m. sorted_list_of_set (fmdom' m)), w_NewConfigClient = (\<lambda>_ _ _ _ _. Inl ''''),
     w_Unmarshal = (\<lambda>_. None), w_started = 7000, w_pg = demo_pg\<rparr>"

lemma demo_world_simps [simp]:
  "w_fl (demo_world t) = (\<lambda>x. x)" "w_scan (demo_world t) = (\<lambda>x. x)" "w_zord (demo_world t) = (\<lambda>m. sorted_list_of_set (fmdom' m))"
  "w_Open (demo_world t) = (\<lambda>_. Inr (t, None))" "w_since (demo_world t) = 6000" "w_started (demo_world t) = 7000"
  by (simp_all add: demo_world_def)

lemma demo_parse: "Parse (\<lambda>x. x) (\<lambda>_. Inl ErrSyntax) (render demo_items, None) = Inr demo_config"
proof -
  obtain toks where t: "tokenize (render demo_items, None) = Inr toks"
    "map tk_text toks = ''dns-edge'' # ''{'' # doc_texts demo_items @ [''}'']"
    using render_tokens [of demo_items] by (auto simp: demo_items_def quotable_def word_def bare_def blank_def)
  have "effects (\<lambda>x. x) (\<lambda>_. Inl ErrSyntax) demo_items Defaults = Some demo_config"
    by (simp add: demo_items_def demo_config_def Defaults_def setPG_def)
  then have "parse (\<lambda>x. x) (\<lambda>_. Inl ErrSyntax) \<lparr>p_tokens = toks, p_pos = 0\<rparr> = Inr demo_config"
    unfolding parse_accepts using t(2) by metis
  then show ?thesis using t(1) by (simp add: Parse_def)
qed

lemma demo_main:
  obtains s p where
    "LoadAll demo_lib (RWMutexStore_iface sorted_range) Done None (\<lambda>_ _. True) (\<lambda>x. x) (\<lambda>m. sorted_list_of_set (fmdom' m)) demo_arb New = (None, s)"
    "main demo_lib sorted_range (demo_world (render demo_items)) path False demo_arb = (Inr p, demo_arb)" "pr_store p = s"
    "pr_cfg p = demo_config" "pr_syncer p = Some (NewSyncer (\<lambda>x. x) 7000 6000 (cf_Sync demo_config))"
proof -
  let ?z = "\<lambda>m :: (string, Zone) fmap. sorted_list_of_set (fmdom' m)"
  have zo: "range_order (?z m) m" for m by (simp add: range_order_def)
  have "permutes (\<lambda>x :: (zone_row \<times> rec_row) list. x)" by (simp add: permutes_def)
  from loaded_contents [OF demo_arb_tables(1) this zo]
  obtain s where s: "LoadAll demo_lib (RWMutexStore_iface sorted_range) Done None (\<lambda>_ _. True) (\<lambda>x. x) ?z demo_arb New = (None, s)"
    by blast
  have d: "pc_DSN (cf_PG demo_config) = ''x''" by (simp add: demo_config_def)
  have "\<exists>p. main demo_lib sorted_range (demo_world (render demo_items)) path False demo_arb = (Inr p, demo_arb) \<and> pr_store p = s \<and>
      pr_cfg p = demo_config \<and> pr_syncer p = Some (NewSyncer (\<lambda>x. x) 7000 6000 (cf_Sync demo_config))"
    by (simp add: main_def startPG_def ParseFile_def demo_world_def demo_parse d s pg_New_def NewServer_def Let_def)
  then show ?thesis using that [OF s] by blast
qed

text \<open>A history of it: a load begins, another instance adds a record before the rows arrive, and the load fails.\<close>

lemma demo_history:
  obtains db y x where
    "(instance_step demo_lib sorted_range (\<lambda>x. x))\<^sup>*\<^sup>* (demo_arb, NewSyncer (\<lambda>x. x) 7000 6000 (cf_Sync demo_config), s, Idle) (db, y, s, Idle)"
    "ps_error y = 1" "ps_success y = 0" "ps_lastAt y = 6000" "tb_last (ps_bucket y) = 7000"
    "db_wf db" "(rkey ''w.b.'' 1, x) \<in> db_contents demo_lib db ''b.''"
proof -
  let ?y = "NewSyncer (\<lambda>x. x) 7000 6000 (cf_Sync demo_config)" and ?zs = "queryIncrementalZones (\<lambda>x. x) 6 demo_arb"
  define y2 where "y2 = snd (doSync_begin (\<lambda>x. x) 7000 ?y)"
  have b: "doSync_begin (\<lambda>x. x) 7000 ?y = (True, y2)" "ps_error y2 = 0" "ps_success y2 = 0" "ps_lastAt y2 = 6000" "tb_last (ps_bucket y2) = 7000"
    by (simp_all add: y2_def doSync_begin_def allow_def NewSyncer_def newTokenBucket_def Let_def demo_config_def Defaults_def)
  obtain st bd db r where sv: "serveAPI demo_lib demo_server alone (POST_records ''b'' (Inr demo_req)) (demo_arb, demo_store) = ((st, bd), db, r)"
    by (metis prod.collapse)
  have nd: "demo_server = node demo_lib demo_pg sorted_range" by (simp add: demo_server_def node_def)
  have bn: "benign demo_arb (POST_records ''b'' (Inr demo_req))" by (simp add: demo_req_def)
  have "instance_step demo_lib sorted_range (\<lambda>x. x) (demo_arb, ?y, s, Idle) (demo_arb, y2, s, Zones 6500 ?zs)"
    using instance_step.begun [where triggered = False, OF _ _ b(1), of ?y 6500 "\<lambda>x. x" demo_lib sorted_range demo_arb s]
    by (simp add: received_def clock_step_def permutes_def NewSyncer_def newTokenBucket_def Let_def)
  moreover have "instance_step demo_lib sorted_range (\<lambda>x. x) (demo_arb, y2, s, Zones 6500 ?zs) (db, y2, s, Zones 6500 ?zs)"
    by (rule instance_step.elsewhere [OF _ bn sv [unfolded nd]]) simp
  moreover have "instance_step demo_lib sorted_range (\<lambda>x. x) (db, y2, s, Zones 6500 ?zs) (db, doSync_end 6500 (Some ErrNotFound) y2, s, Idle)"
    by (rule instance_step.failed) simp
  ultimately have "(instance_step demo_lib sorted_range (\<lambda>x. x))\<^sup>*\<^sup>* (demo_arb, ?y, s, Idle) (db, doSync_end 6500 (Some ErrNotFound) y2, s, Idle)"
    by (meson converse_rtranclp_into_rtranclp rtranclp.rtrancl_refl)
  moreover have "st < 400" using demo_post_status sv by simp
  then obtain x where "(rkey ''w.b.'' 1, x) \<in> db_contents demo_lib db ''b.''" using demo_posted [OF sv] by blast
  moreover have "db_wf db" using request_write [OF demo_arb_tables(1) demo_arb_rows_ok demo_lib_ok bn sv [unfolded nd]] by simp
  ultimately show ?thesis using b(2-5) by (intro that [of db "doSync_end 6500 (Some ErrNotFound) y2"]) (simp_all add: doSync_end_def)
qed

section \<open>Without a database\<close>

lemma main_seeded:
  assumes "main L ord W path mig db = (Inr p, db')" and "pc_DSN (cf_PG (pr_cfg p)) = []"
  shows "pr_store p = snd (seedTestZone L (RWMutexStore_iface ord) New)" and "pr_provider p = NullProvider" and "db' = db"
    and "pr_syncer p = None" and "pr_api p = None" and "hd_store (pr_handler p) = RWMutexStore_iface ord"
    and "hd_weights (pr_handler p) = provider_iface L (RWMutexStore_iface ord)" and "\<not> hd_syncer (pr_handler p)"
  using assms by (auto simp: main_def Let_def NewHandler_def split: sum.splits prod.splits if_splits)

definition seeds :: "mdns_lib \<Rightarrow> RR \<Rightarrow> RR \<Rightarrow> RR \<Rightarrow> bool" where
  "seeds L www api1 api2 \<longleftrightarrow> NewRR L ''www.example.com. 300 IN A 1.2.3.4'' = Inr (Some www) \<and>
     NewRR L ''api.example.com. 10 IN A 1.2.3.4'' = Inr (Some api1) \<and> NewRR L ''api.example.com. 10 IN A 5.6.7.8'' = Inr (Some api2)"

lemma covers_seed: "covers ''example.com.'' ''www.example.com.''" "covers ''example.com.'' ''api.example.com.''"
  by (simp_all add: covers_def HasSuffix_def)

lemma seed_store:
  assumes "seeds L www api1 api2" and "s = snd (seedTestZone L (RWMutexStore_iface ord) New)"
  obtains wr a1 a2 where "r_RR wr = Some www" "r_RR a1 = Some api1" "r_RR a2 = Some api2" "r_Weight a1 = 70" "r_Weight a2 = 30"
    "\<And>n t. Lookup s n t = (if n = ''www.example.com.'' \<and> t = TypeA then [wr]
       else if n = ''api.example.com.'' \<and> t = TypeA then [a1, a2] else [])"
    "\<And>n. FindZone s n \<noteq> None \<longleftrightarrow> covers ''example.com.'' n"
    "\<And>n. NameExists s n \<longleftrightarrow> n \<in> {''www.example.com.'', ''api.example.com.''}"
proof -
  define a1 where "a1 = \<lparr>r_ID = 0, r_Name = ''api.example.com.'', r_Type = TypeA, r_TTL = 10, r_Value = ''1.2.3.4'', r_Weight = 70, r_RR = Some api1\<rparr>"
  define a2 where "a2 = \<lparr>r_ID = 0, r_Name = ''api.example.com.'', r_Type = TypeA, r_TTL = 10, r_Value = ''5.6.7.8'', r_Weight = 30, r_RR = Some api2\<rparr>"
  define wr where "wr = \<lparr>r_ID = 0, r_Name = ''www.example.com.'', r_Type = TypeA, r_TTL = 300, r_Value = ''1.2.3.4'', r_Weight = 0, r_RR = Some www\<rparr>"
  define z where "z = \<lparr>z_Name = ''example.com.'', z_Records = fmupd (rkey ''api.example.com.'' TypeA) [a1, a2]
    (fmupd (rkey ''www.example.com.'' TypeA) [wr] fmempty), z_SOA = None\<rparr>"
  have s: "zones s = fmupd ''example.com.'' z fmempty"
    using assms by (simp add: seeds_def seedTestZone_def z_def a1_def a2_def wr_def Update_def New_def)
  have f: "lockedFindZone (zones s) n = (if covers ''example.com.'' n then Some z else None)" for n
    unfolding s by (rule lockedFindZone_single)
  show ?thesis
  proof (rule that [of wr a1 a2])
    show "Lookup s n t = (if n = ''www.example.com.'' \<and> t = TypeA then [wr]
       else if n = ''api.example.com.'' \<and> t = TypeA then [a1, a2] else [])" for n t
      using covers_seed by (auto simp: Lookup_def f z_def rrset_def)
    show "NameExists s n \<longleftrightarrow> n \<in> {''www.example.com.'', ''api.example.com.''}" for n
      using covers_seed by (auto simp: NameExists_def f z_def)
  qed (simp_all add: FindZone_def f a1_def a2_def wr_def)
qed

lemma seed_query:
  assumes "seeds L www api1 api2" and "s = snd (seedTestZone L (RWMutexStore_iface ord) New)" and "mdns_ok L"
    and "hd_store H = RWMutexStore_iface ord" and "hd_weights H = provider_iface L (RWMutexStore_iface ord)"
    and "q_Qtype q = TypeA" and "m_Answer m = []" and "m_Rcode m = RcodeSuccess" and "0 \<le> intn 100" and "intn 100 < 100"
  shows "\<exists>m'. handleQuery L H intn (\<lambda>_. s) NullProvider m r q ip = Returns (m', NullProvider) \<and>
    m_Answer m' = (if q_Name q = ''www.example.com.'' then [www]
      else if q_Name q = ''api.example.com.'' then (if intn 100 < 70 then [api1] else [api2]) else []) \<and>
    m_Rcode m' = (if q_Name q \<in> {''www.example.com.'', ''api.example.com.''} then RcodeSuccess
      else if covers ''example.com.'' (q_Name q) then RcodeNameError else RcodeRefused)"
proof -
  obtain wr a1 a2 where rr: "r_RR wr = Some www" "r_RR a1 = Some api1" "r_RR a2 = Some api2" "r_Weight a1 = 70" "r_Weight a2 = 30"
    and l: "\<And>n t. Lookup s n t = (if n = ''www.example.com.'' \<and> t = TypeA then [wr]
       else if n = ''api.example.com.'' \<and> t = TypeA then [a1, a2] else [])"
    and f: "\<And>n. FindZone s n \<noteq> None \<longleftrightarrow> covers ''example.com.'' n"
    and e: "\<And>n. NameExists s n \<longleftrightarrow> n \<in> {''www.example.com.'', ''api.example.com.''}"
    by (rule seed_store [OF assms(1,2)]) blast
  have any: "q_Qtype q \<noteq> TypeANY" "q_Qtype q \<noteq> TypeCNAME" by (simp_all add: assms(6) TypeA_def TypeANY_def TypeCNAME_def)
  consider "q_Name q = ''www.example.com.''" | "q_Name q = ''api.example.com.''"
    | "q_Name q \<noteq> ''www.example.com.''" "q_Name q \<noteq> ''api.example.com.''" by blast
  then show ?thesis
  proof cases
    case 1
    have "handleQuery L H intn (\<lambda>_. s) NullProvider m r q ip = addAnswers (hd_weights H) intn NullProvider m [wr] (q_Name q) (q_Qtype q) ip"
      by (rule handleQuery_direct) (use any 1 in \<open>simp_all add: assms(4,6) l\<close>)
    then show ?thesis using 1 assms(6-8) rr by (simp add: addAnswers_def pick_def)
  next
    case 2
    have w: "wrap64 (intn 100 - 70) = intn 100 - 70" "wrap64 (intn 100 - 100) = intn 100 - 100" "wrap64 70 = 70" "wrap64 100 = 100"
      using assms(9,10) by (auto intro!: wrap64_id simp: is_int64_def)
    have "pick (provider_iface L (RWMutexStore_iface ord)) intn NullProvider [a1, a2] n t ip = Returns (if intn 100 < 70 then a1 else a2, NullProvider)" for n t
      using rr w assms(9,10) by (simp add: pick_def provider_iface_def Null_GetWeights_def effectiveWeight_def totalWeight_def Intn_def)
    moreover have "handleQuery L H intn (\<lambda>_. s) NullProvider m r q ip = addAnswers (hd_weights H) intn NullProvider m [a1, a2] (q_Name q) (q_Qtype q) ip"
      by (rule handleQuery_direct) (use any 2 in \<open>simp_all add: assms(4,6) l\<close>)
    ultimately show ?thesis using 2 assms(6-8) rr by (simp add: addAnswers_def assms(5))
  next
    case 3
    have n: "\<not> NameExists s (q_Name q)" using e 3 by simp
    have "handleQuery L H intn (\<lambda>_. s) NullProvider m r q ip = Returns
      ((case FindZone s (q_Name q) of None \<Rightarrow> SetRcode L m r RcodeRefused | Some zone \<Rightarrow> addSOA (SetRcode L m r RcodeNameError) zone), NullProvider)"
      by (subst handleQuery_negative) (use any 3 n in \<open>simp_all add: assms(4) l\<close>)
    then show ?thesis using 3 f [of "q_Name q"] assms(3,7) by (cases "FindZone s (q_Name q)") (auto simp: addSOA_def)
  qed
qed

text \<open>
  C40: without a data source name the server answers from the seed zone alone. It starts no syncer and no
  API server and leaves the database alone; a query for an address of www gets its record, one for api
  the first record in 70 of 100 draws and the second in 30, any other name in the zone does not exist,
  names outside are refused, and no query triggers a sync.
\<close>

theorem seed_zone_served:
  assumes "main L ord W path mig db = (Inr p, db')" and "pc_DSN (cf_PG (pr_cfg p)) = []" and "seeds L www api1 api2" and "mdns_ok L"
    and "m_Question r = q # qs" and "q_Qtype q = TypeA" and "0 \<le> intn 100" and "intn 100 < 100"
  shows "db' = db \<and> pr_syncer p = None \<and> pr_api p = None \<and>
    (\<exists>res m. ServeDNS L (pr_handler p) intn u wr tcp rord (\<lambda>_. pr_store p) (pr_provider p) r = Returns res \<and>
       sr_written res = [m] \<and> \<not> sr_trigger res \<and>
       m_Answer m = (if q_Name q = ''www.example.com.'' then [www]
         else if q_Name q = ''api.example.com.'' then (if intn 100 < 70 then [api1] else [api2]) else []) \<and>
       m_Rcode m = (if q_Name q \<in> {''www.example.com.'', ''api.example.com.''} then RcodeSuccess
         else if covers ''example.com.'' (q_Name q) then RcodeNameError else RcodeRefused))"
proof -
  note sd = main_seeded [OF assms(1,2)]
  let ?m0 = "(SetReply L new_Msg r)\<lparr>m_Authoritative := True, m_RecursionAvailable := False\<rparr>"
  obtain m1 ip where e: "reflectEdns L r ?m0 = (m1, ip)" by fastforce
  have m1: "m1 = ?m0\<lparr>m_Edns := m_Edns m1\<rparr>" using reflectEdns_frame [OF assms(4) e] .
  have a: "m_Answer m1 = []" "m_Rcode m1 = RcodeSuccess"
    by (subst m1, use assms(4) in \<open>simp add: new_Msg_def\<close>)+
  have q: "q_Qtype q \<noteq> TypeAXFR" "q_Qtype q \<noteq> TypeIXFR" by (simp_all add: assms(6) TypeA_def TypeAXFR_def TypeIXFR_def)
  from seed_query [where intn = intn and r = r and ip = ip and H = "pr_handler p", OF assms(3) sd(1) assms(4) sd(6,7) assms(6) a assms(7,8)]
  show ?thesis using sd(2-5,8) q assms(5) e by (auto simp: ServeDNS_def)
qed

theorem seed_zone_served_witness:
  "\<exists>p res m. main demo_lib sorted_range (demo_world []) ''f'' False demo_arb = (Inr p, demo_arb) \<and>
     ServeDNS demo_lib (pr_handler p) (\<lambda>_. 70) 0 (\<lambda>_. True) False (\<lambda>_. []) (\<lambda>_. pr_store p) (pr_provider p)
       (demo_query ''api.example.com.'' 1) = Returns res \<and> sr_written res = [m] \<and>
     m_Answer m = List.map_filter (\<lambda>x. x) [projr (NewRR demo_lib ''api.example.com. 10 IN A 5.6.7.8'')]"
proof -
  have "tokenize ([], None) = Inr []" by (simp add: tokenize_def splitLines.simps)
  then have pa: "Parse (\<lambda>x. x) F ([], None) = Inr Defaults" for F by (simp add: Parse_def parse_accepts)
  have d: "pc_DSN (cf_PG Defaults) = []" by (simp add: Defaults_def)
  obtain p where p: "main demo_lib sorted_range (demo_world []) ''f'' False demo_arb = (Inr p, demo_arb)" "pr_cfg p = Defaults"
    by (cases "seedTestZone demo_lib (RWMutexStore_iface sorted_range) New") (simp add: main_def ParseFile_def pa d Let_def)
  let ?rr = "\<lambda>s. RR_other \<lparr>h_Name = s, h_Rrtype = 1, h_Class = 1, h_Ttl = 0\<rparr> s"
  have sd: "seeds demo_lib (?rr ''www.example.com. 300 IN A 1.2.3.4'') (?rr ''api.example.com. 10 IN A 1.2.3.4'') (?rr ''api.example.com. 10 IN A 5.6.7.8'')"
    by (simp add: seeds_def demo_lib_def)
  have q: "m_Question (demo_query ''api.example.com.'' 1) = \<lparr>q_Name = ''api.example.com.'', q_Qtype = 1, q_Qclass = 1\<rparr> # []"
    by (simp add: demo_query_def)
  from seed_zone_served [OF p(1) _ sd demo_lib_ok q, of "\<lambda>_. 70" 0 "\<lambda>_. True" False "\<lambda>_. []"] p
  show ?thesis by (auto simp: d TypeA_def demo_lib_def)
qed

section \<open>With a database\<close>






end
