(* ===== verification/Test_Support.thy ===== *)
theory Test_Support
  imports Zone_Store DNS_Handler PG_Store Syncer Config_Parser
begin

text \<open>
  \<^verbatim>\<open>internal/testutil/mock.go\<close>: the doubles and builders the repository's own tests are written with. A
  double with function fields is a record of optional functions; what its closures keep is the state
  \<open>'s\<close>. The lemmas say that the builders make what the program itself would have made, so that a
  test against them is a test against the program's data.
\<close>

section \<open>Doubles of the interfaces\<close>

record 's MockZoneStore =
  LookupFn :: "('s \<Rightarrow> string \<Rightarrow> u16 \<Rightarrow> Record list) option"
  UpdateFn :: "('s \<Rightarrow> Zone \<Rightarrow> store_error option \<times> 's) option"
  DeleteFn :: "('s \<Rightarrow> string \<Rightarrow> store_error option \<times> 's) option"
  SnapshotFn :: "('s \<Rightarrow> (string, Zone) fmap) option"
  PutRecordFn :: "('s \<Rightarrow> string \<Rightarrow> Record \<Rightarrow> store_error option \<times> 's) option"
  DropRecordFn :: "('s \<Rightarrow> string \<Rightarrow> int \<Rightarrow> store_error option \<times> 's) option"
  NameExistsFn :: "('s \<Rightarrow> string \<Rightarrow> bool) option"
  FindZoneFn :: "('s \<Rightarrow> string \<Rightarrow> Zone option) option"

definition MockZoneStore_iface :: "'s MockZoneStore \<Rightarrow> 's ZoneStore" where
  "MockZoneStore_iface m = \<lparr>
     Lookup_m = (\<lambda>s name qtype. case LookupFn m of Some f \<Rightarrow> f s name qtype | None \<Rightarrow> []),
     Update_m = (\<lambda>s zone. case UpdateFn m of Some f \<Rightarrow> f s zone | None \<Rightarrow> (None, s)),
     Delete_m = (\<lambda>s apex. case DeleteFn m of Some f \<Rightarrow> f s apex | None \<Rightarrow> (None, s)),
     Snapshot_m = (\<lambda>s. case SnapshotFn m of Some f \<Rightarrow> f s | None \<Rightarrow> fmempty),
     PutRecord_m = (\<lambda>s apex rec. case PutRecordFn m of Some f \<Rightarrow> f s apex rec | None \<Rightarrow> (None, s)),
     DropRecord_m = (\<lambda>s apex rid. case DropRecordFn m of Some f \<Rightarrow> f s apex rid | None \<Rightarrow> (None, s)),
     NameExists_m = (\<lambda>s name. case NameExistsFn m of Some f \<Rightarrow> f s name | None \<Rightarrow> False),
     FindZone_m = (\<lambda>s name. case FindZoneFn m of Some f \<Rightarrow> f s name | None \<Rightarrow> None)\<rparr>"

record 'w MockWeightProvider =
  GetWeightsFn :: "('w \<Rightarrow> string \<Rightarrow> u16 \<Rightarrow> IP option \<Rightarrow> weights option \<times> 'w) option"

definition MockWeightProvider_iface :: "'w MockWeightProvider \<Rightarrow> 'w WeightProvider" where
  "MockWeightProvider_iface m = \<lparr>GetWeights_m = (\<lambda>w name qtype clientIP.
     case GetWeightsFn m of Some f \<Rightarrow> f w name qtype clientIP | None \<Rightarrow> (None, w))\<rparr>"

record MockSyncer =
  TriggerCount :: int

definition MockSyncer_TriggerSync :: "MockSyncer \<Rightarrow> MockSyncer" where
  "MockSyncer_TriggerSync m = m\<lparr>TriggerCount := wrap64 (TriggerCount m + 1)\<rparr>"

record 's MockIncrementalLoader =
  Fn :: "'s loader option"
  CallCount :: int
  LastSince :: int

definition Mock_IncrementalLoad :: "'s MockIncrementalLoader \<Rightarrow> int \<Rightarrow> 's \<Rightarrow> pg_error option \<times> 's MockIncrementalLoader \<times> 's" where
  "Mock_IncrementalLoad m since s =
     (let m1 = m\<lparr>CallCount := wrap64 (CallCount m + 1), LastSince := since\<rparr> in
      case Fn m1 of Some f \<Rightarrow> (case f since s of (e, s') \<Rightarrow> (e, m1, s')) | None \<Rightarrow> (None, m1, s))"

section \<open>Response writers\<close>

text \<open>\<^verbatim>\<open>Copy\<close> of the DNS library detaches the message; values need no copy. The address is its protocol.\<close>

datatype net_addr = UDPAddr string nat | TCPAddr string nat

record FakeRW =
  rw_Msgs :: "Msg list"
  rw_addr :: net_addr

definition NewFakeRW :: FakeRW where
  "NewFakeRW = \<lparr>rw_Msgs = [], rw_addr = UDPAddr ''127.0.0.1'' 12345\<rparr>"

definition NewFakeTCPRW :: FakeRW where
  "NewFakeTCPRW = \<lparr>rw_Msgs = [], rw_addr = TCPAddr ''127.0.0.1'' 12345\<rparr>"

definition FakeRW_WriteMsg :: "FakeRW \<Rightarrow> Msg \<Rightarrow> bool \<times> FakeRW" where
  "FakeRW_WriteMsg f m = (True, f\<lparr>rw_Msgs := rw_Msgs f @ [m]\<rparr>)"

definition LastMsg :: "FakeRW \<Rightarrow> Msg option" where
  "LastMsg f = (if length (rw_Msgs f) = 0 then None else Some (rw_Msgs f ! (length (rw_Msgs f) - 1)))"

record NullRW =
  nw_addr :: net_addr

definition NewNullRW :: NullRW where
  "NewNullRW = \<lparr>nw_addr = UDPAddr ''127.0.0.1'' 12345\<rparr>"

definition NewNullTCPRW :: NullRW where
  "NewNullTCPRW = \<lparr>nw_addr = TCPAddr ''127.0.0.1'' 12345\<rparr>"

definition NullRW_WriteMsg :: "NullRW \<Rightarrow> Msg \<Rightarrow> bool \<times> NullRW" where
  "NullRW_WriteMsg n m = (True, n)"

section \<open>Builders\<close>

text \<open>
  The digits are written from the end of a buffer of 20 bytes. A loop that ran past its start would
  panic; a negative number writes nothing.
\<close>

function itoaLoop :: "int \<Rightarrow> nat \<Rightarrow> string \<Rightarrow> string outcome" where
  "itoaLoop n pos buf =
     (if 0 < n then
        (if pos = 0 then Panics ''index out of range''
         else itoaLoop (n div 10) (pos - 1) (buf[pos - 1 := char_of_digit (nat (n mod 10))]))
      else Returns (drop pos buf))"
  by pat_completeness auto
termination
  by (relation "measure (\<lambda>(n, _). nat n)") auto

declare itoaLoop.simps [simp del]

definition itoa :: "int \<Rightarrow> string outcome" where
  "itoa n = (if n = 0 then Returns ''0'' else itoaLoop n 20 (replicate 20 (CHR 0x00)))"

definition made :: "mdns_lib \<Rightarrow> string \<Rightarrow> RR option" where
  "made L text = (case NewRR L text of Inl e \<Rightarrow> None | Inr rr \<Rightarrow> rr)"

definition MakeA :: "mdns_lib \<Rightarrow> string \<Rightarrow> string \<Rightarrow> u32 \<Rightarrow> int \<Rightarrow> Record outcome" where
  "MakeA L name ip ttl weight = bind_outcome (itoa (uint ttl)) (\<lambda>t.
     Returns \<lparr>r_ID = 0, r_Name = name, r_Type = TypeA, r_TTL = ttl, r_Value = ip, r_Weight = weight,
       r_RR = made L (name @ '' '' @ t @ '' IN A '' @ ip)\<rparr>)"

definition MakeCNAME :: "mdns_lib \<Rightarrow> string \<Rightarrow> string \<Rightarrow> u32 \<Rightarrow> Record outcome" where
  "MakeCNAME L owner target ttl = bind_outcome (itoa (uint ttl)) (\<lambda>t.
     Returns \<lparr>r_ID = 0, r_Name = owner, r_Type = TypeCNAME, r_TTL = ttl, r_Value = target, r_Weight = 0,
       r_RR = made L (owner @ '' '' @ t @ '' IN CNAME '' @ target)\<rparr>)"

definition TypeMX :: u16 where
  "TypeMX = 15"

definition MakeMX :: "mdns_lib \<Rightarrow> string \<Rightarrow> u16 \<Rightarrow> string \<Rightarrow> u32 \<Rightarrow> Record outcome" where
  "MakeMX L owner pref exchange ttl = bind_outcome (itoa (uint ttl)) (\<lambda>t. bind_outcome (itoa (uint pref)) (\<lambda>p.
     Returns \<lparr>r_ID = 0, r_Name = owner, r_Type = TypeMX, r_TTL = ttl, r_Value = exchange, r_Weight = 0,
       r_RR = made L (owner @ '' '' @ t @ '' IN MX '' @ p @ '' '' @ exchange)\<rparr>))"

definition MakeZone :: "string \<Rightarrow> Record list \<Rightarrow> Zone" where
  "MakeZone apex recs =
     (let m = foldl (\<lambda>m r. let k = rkey (r_Name r) (r_Type r) in fmupd k (rrset m k @ [r]) m) fmempty recs
      in \<lparr>z_Name = apex, z_Records = m, z_SOA = None\<rparr>)"

section \<open>What the builders make\<close>

lemma itoaLoop_digits:
  "0 < n \<Longrightarrow> length buf = 20 \<Longrightarrow> pos \<le> 20 \<Longrightarrow> length (Utoa (nat n)) \<le> pos \<Longrightarrow>
     itoaLoop n pos buf = Returns (Utoa (nat n) @ drop pos buf)"
proof (induction n pos buf rule: itoaLoop.induct)
  case (1 n pos buf)
  let ?d = "char_of_digit (nat (n mod 10))"
  have pos: "0 < pos" using 1(5) Utoa_nonempty [of "nat n"] by (metis le_zero_eq length_0_conv neq0_conv)
  have dr: "drop (pos - 1) (buf[pos - 1 := ?d]) = ?d # drop pos buf"
    using pos 1(3,4) by (simp add: drop_update_swap Cons_nth_drop_Suc [symmetric])
  have nd: "nat n div 10 = nat (n div 10)" "nat n mod 10 = nat (n mod 10)"
    using 1(2) by (simp_all add: nat_div_distrib nat_mod_distrib)
  show ?case
  proof (cases "n < 10")
    case True
    then have "Utoa (nat n) = [?d]" using 1(2) by (subst Utoa.simps) auto
    then show ?thesis using True 1(2) pos dr by (simp add: itoaLoop.simps [of n] itoaLoop.simps [of 0])
  next
    case False
    then have u: "Utoa (nat n) = Utoa (nat (n div 10)) @ [?d]" using 1(2) nd by (subst Utoa.simps) auto
    have "itoaLoop (n div 10) (pos - 1) (buf[pos - 1 := ?d]) = Returns (Utoa (nat (n div 10)) @ drop (pos - 1) (buf[pos - 1 := ?d]))"
      using 1 pos u False by (intro 1(1)) auto
    then show ?thesis using 1(2) pos dr u by (simp add: itoaLoop.simps [of n])
  qed
qed

lemma itoa_decimal:
  assumes "n < 2 ^ 63" shows "itoa n = Returns (if n < 0 then [] else Utoa (nat n))"
proof (cases "0 < n")
  case True
  have "nat n < 10 ^ Suc 18" using assms True by simp
  from length_Utoa [OF this] show ?thesis using True by (simp add: itoa_def itoaLoop_digits)
next
  case False
  have "char_of_digit 0 = CHR ''0''" by code_simp
  then show ?thesis using False by (cases "n = 0") (simp_all add: itoa_def itoaLoop.simps Utoa.simps)
qed

lemma itoa_u32: "itoa (uint (t :: u32)) = Returns (Utoa (unat t))"
proof -
  have "uint t < 2 ^ 63" using uint_lt2p [of t] by simp
  from itoa_decimal [OF this] show ?thesis by simp
qed

lemma MakeZone_rrset: "rrset (z_Records (MakeZone apex recs)) k = filter (\<lambda>r. rkey (r_Name r) (r_Type r) = k) recs"
proof -
  have "rrset (foldl (\<lambda>m r. let k = rkey (r_Name r) (r_Type r) in fmupd k (rrset m k @ [r]) m) m recs) k =
      rrset m k @ filter (\<lambda>r. rkey (r_Name r) (r_Type r) = k) recs" for m
    by (induction recs arbitrary: m) (auto simp: Let_def)
  then show ?thesis by (simp add: MakeZone_def Let_def)
qed

lemma LastMsg_written:
  "ms \<noteq> [] \<Longrightarrow> LastMsg (fold (\<lambda>m f. snd (FakeRW_WriteMsg f m)) ms f) = Some (last ms)"
proof (induction ms arbitrary: f rule: rev_induct)
  case (snoc m ms)
  then show ?case by (simp add: FakeRW_WriteMsg_def LastMsg_def nth_append)
qed simp

text \<open>
  Fixtures are what the program would have stored. Looking up a name under the apex in a store that
  was given the zone built from a list of records returns the records with this name and type, in the
  order of the list; and an address record built for a test has the same resource record as a row of
  the database with this name, TTL and value would be parsed to, whatever the TTL.
\<close>

lemma fixture_zone_served:
  assumes "covers apex n"
  shows "Lookup (snd (Update New (MakeZone apex recs))) n t = filter (\<lambda>r. r_Name r = n \<and> r_Type r = t) recs \<and>
    (\<exists>rec. MakeA L name ip ttl w = Returns rec \<and> key_of rec = rkey name TypeA \<and>
       r_RR rec = (case parseRR L name ttl ''A'' ip of Inl e \<Rightarrow> None | Inr rr \<Rightarrow> rr))"
proof
  have z: "zones (snd (Update New (MakeZone apex recs))) = fmupd apex (MakeZone apex recs) fmempty"
    by (simp add: Update_def New_def MakeZone_def Let_def)
  have "lockedFindZone (fmupd apex (MakeZone apex recs) fmempty) n = Some (MakeZone apex recs)"
    using assms by (simp add: lockedFindZone_single)
  then show "Lookup (snd (Update New (MakeZone apex recs))) n t = filter (\<lambda>r. r_Name r = n \<and> r_Type r = t) recs"
    by (simp add: Lookup_def z MakeZone_rrset)
  show "\<exists>rec. MakeA L name ip ttl w = Returns rec \<and> key_of rec = rkey name TypeA \<and>
       r_RR rec = (case parseRR L name ttl ''A'' ip of Inl e \<Rightarrow> None | Inr rr \<Rightarrow> rr)"
    by (simp add: MakeA_def itoa_u32 parseRR_def rrText_def made_def)
qed

end
