(* ===== verification/Races.thy ===== *)
theory Races
  imports Consistency Loading
begin

text \<open>
  Updates that leave the store wrong for good. A handler writes the database and then the zone store, and nothing
  orders these two writes of one request with those of another: the first theorem shows what two overlapping
  updates of one record can leave behind. An update that renames a record leaves its former version in the
  store, and no incremental load takes it out: the second theorem. No code of its own.
\<close>

section \<open>Loads without changes\<close>

lemma permutes_nil: "permutes f \<Longrightarrow> f [] = []"
  unfolding permutes_def by (metis mset_zero_iff)

lemma IncrementalLoad_idle:
  assumes "db_wf db" and "sync_done E" and "\<forall>z \<in> set (db_zones db). zr_updated z \<le> t" and "\<forall>r \<in> set (db_records db). rr_updated r \<le> t"
  shows "IncrementalLoad L S E db db t s = (None, s)"
proof -
  have zs: "filter (\<lambda>z. t < zr_updated z) (db_zones db) = []" using assms(3) by (simp add: filter_empty_conv linorder_not_less)
  have rs: "filter (\<lambda>(z, r). t < rr_updated r \<and> zr_deleted z = None) (join_rows db) = []"
    using assms(4) by (force simp: filter_empty_conv join_rows_mem)
  have tb: "''zones'' \<in> set (db_tables db)" "''records'' \<in> set (db_tables db)"
    using assms(1) by (simp_all add: db_wf_def schema_ok_simps)
  show ?thesis
    using assms(2) tb by (simp add: IncrementalLoad_def sync_done_def Let_def queryIncrementalZones_def queryIncrementalRecords_def
        zs rs permutes_nil delivered_def)
qed

section \<open>What an update leaves\<close>

text \<open>An update keeps the rows readable, also when it gives a record another name or type.\<close>

lemma rows_ok_update:
  assumes "rows_ok L db" and "row_text_ok L name t ttl v"
  shows "rows_ok L (snd (update_record now rid zid name t (uint ttl) v w db))"
proof (cases rule: update_record_cases [of now rid zid name t "uint ttl" v w db])
  case (changed r)
  have "HasSuffix name ''.''" "loadRow L (stamp_record db now (set_fields name t (uint ttl) v w r)) \<noteq> None"
    using assms(2) by (simp add: row_text_ok_def, intro row_text_loadRow) simp_all
  then show ?thesis using assms(1) unfolding changed(7) by (auto simp: rows_ok_def)
qed (use assms(1) in simp)

lemma rows_ok_UpdateRecord:
  assumes "rows_ok L db" and "row_text_ok L (r_Name rec) (typeName L (r_Type rec)) (r_TTL rec) (r_Value rec)"
  shows "rows_ok L (snd (UpdateRecord L fate now db zid rid rec))"
  unfolding snd_calls
  using run_stmt_state [of fate "update_record now rid zid (r_Name rec) (typeName L (r_Type rec)) (uint (r_TTL rec)) (r_Value rec) (r_Weight rec)" db]
    rows_ok_update [OF assms] assms(1) by auto

text \<open>One update through the API, whatever the store has become when the handler gets to it.\<close>

lemma update_done:
  assumes "serveAPI L (node L E ord) \<lparr>ot_db = id, ot_store = oth\<rparr> (PUT_record domain i (Inr req)) (db, s) = ((200, bd), db', s')"
    and "db_wf db" and "rows_ok L db" and "mdns_ok L" and ne: "rq_Type req \<noteq> []"
  obtains rid rec z r where "ParseInt i = Inr rid" "r_ID rec = rid" "r_Value rec = rq_Value req"
    "key_of rec = rkey (FQDN (rq_Name req)) (typeOf L (rq_Type req))" "s' = snd (PutRecord (oth s) (FQDN domain) rec)"
    "db_wf db'" "rows_ok L db'" "z \<in> set (db_zones db')" "zr_deleted z = None" "fqdn (zr_name z) = FQDN domain"
    "r \<in> set (db_records db')" "rr_zone r = zr_id z" "rr_id r = rid" "rr_deleted r = None" "loadRow L r = Some rec"
proof -
  have "updateRecord L (node L E ord) \<lparr>ot_db = id, ot_store = oth\<rparr> domain i (Inr req) (db, s) = ((200, bd), db', s')"
    using assms(1) by simp
  then show ?thesis
  proof (cases rule: updateRecord_cases)
    case (stored rid req' qtype rr zone rec)
    let ?up = "UpdateRecord L (pe_updateRecord E) (pe_now E) db (zm_ID zone) rid (reqRecord rid req qtype rr)"
    have u: "?up = (Inr rec, db')" using stored(2,6) by simp
    have g: "GetZone (pe_getZone E) db (FQDN domain) = Inr zone" using stored(5) by simp
    have t: "StringToType L (rq_Type req) = Some qtype" "NewRR L (reqText req) = Inr rr" using stored(2-4) by simp_all
    have "rows_ok L (snd ?up)"
      by (rule rows_ok_UpdateRecord [OF assms(3)]) (use req_text_ok [OF assms(4) t(1) ne t(2)] in simp)
    moreover have "db_wf (snd ?up)" by (rule db_wf_UpdateRecord [OF assms(2)])
    ultimately have w: "db_wf db'" "rows_ok L db'" unfolding u by simp_all
    have kt: "known_type L qtype" using known_typeI [OF assms(4) t(1) ne] by simp
    have rec: "r_ID rec = rid" "r_Value rec = rq_Value req" "key_of rec = rkey (FQDN (rq_Name req)) (typeOf L (rq_Type req))"
      using pg.update_record [of db L "reqRecord rid req qtype rr" E "zm_ID zone" rid rec] assms(2) kt u t(1) by (simp_all add: typeOf_def)
    show ?thesis
      by (rule updated_row [OF assms(2) g u w]) (rule that [OF stored(1) rec _ w], use stored(9) in simp_all)
  qed (use assms in \<open>auto split: if_splits\<close>)
qed

lemma PutRecord_mem: "(key_of rec, rec) \<in> contents (snd (PutRecord s apex rec)) apex"
  using putSlice_props [of rec] by (simp add: contents_def PutRecord_rrset)

text \<open>
  C30: overlapping updates can leave a stale record for good. Two requests change the same record to different
  values; the first one reaches the database before the second, but the zone store after it, whatever
  the store has become by then (\<open>sB\<close>: the second request is through and an incremental load may have
  run). Then the instance serves the value of the first request, although the database has that of the
  second, and no incremental load from a time after the two writes changes it: only another write or a
  restart does.
\<close>

theorem overlapping_updates_diverge:
  assumes "db_wf db" and "rows_ok L db" and "mdns_ok L" and "rq_Value reqA \<noteq> rq_Value reqB"
    and "benign db (PUT_record domain i (Inr reqA))" and "benign dbA (PUT_record domain i (Inr reqB))"
    and "serveAPI L (node L E ord) \<lparr>ot_db = id, ot_store = (\<lambda>_. sB)\<rparr> (PUT_record domain i (Inr reqA)) (db, s) = ((200, bdA), dbA, sA)"
    and "serveAPI L (node L E' ord) \<lparr>ot_db = id, ot_store = id\<rparr> (PUT_record domain i (Inr reqB)) (dbA, s) = ((200, bdB), dbB, sB')"
    and "\<forall>z \<in> set (db_zones dbB). zr_updated z \<le> t" and "\<forall>r \<in> set (db_records dbB). rr_updated r \<le> t" and "sync_done E2"
    and "permutes scan" and "\<And>m. range_order (zord m) m"
  shows "IncrementalLoad L (RWMutexStore_iface ord) E2 dbB dbB t sA = (None, sA) \<and>
    (\<exists>s''. LoadAll L (RWMutexStore_iface ord) Done None le scan zord dbB New = (None, s'') \<and>
       contents sA (FQDN domain) \<noteq> contents s'' (FQDN domain))"
proof -
  obtain rid recA where A: "ParseInt i = Inr rid" "r_ID recA = rid" "r_Value recA = rq_Value reqA"
    "sA = snd (PutRecord sB (FQDN domain) recA)" "db_wf dbA" "rows_ok L dbA"
    by (rule update_done [OF assms(7) assms(1-3)]) (use assms(5) in auto)
  obtain recB z r where B: "r_Value recB = rq_Value reqB" "db_wf dbB" "rows_ok L dbB" "z \<in> set (db_zones dbB)"
    "r \<in> set (db_records dbB)" "rr_zone r = zr_id z" "rr_id r = rid" "loadRow L r = Some recB"
    by (rule update_done [OF assms(8) A(5,6) assms(3)]) (use A(1) assms(6) in auto)
  have "(key_of recA, recA) \<in> contents sA (FQDN domain)" unfolding A(4) by (rule PutRecord_mem)
  moreover have "(key_of recA, recA) \<notin> db_contents L dbB (FQDN domain)"
    using db_contents_id [OF B(2-6), of recA] A(2,3) B(1,7,8) assms(4) by auto
  moreover obtain s'' where "LoadAll L (RWMutexStore_iface ord) Done None le scan zord dbB New = (None, s'')"
    "\<forall>a. contents s'' a = db_contents L dbB a"
    using loaded_contents [OF B(2) assms(12,13)] by blast
  ultimately show ?thesis using IncrementalLoad_idle [OF B(2) assms(11,9,10)] by auto
qed

text \<open>A database with one record, with value \<open>v\<close>, written at time \<open>u\<close>.\<close>

definition demo_one :: "string \<Rightarrow> int \<Rightarrow> DB" where
  "demo_one v u = demo_arb\<lparr>db_records := [\<lparr>rr_id = 1, rr_zone = 1, rr_name = ''w.b.'', rr_type = ''A'', rr_ttl = 60, rr_value = v,
     rr_weight = 1, rr_updated = u, rr_deleted = None\<rparr>], db_rseq := 2\<rparr>"

lemma demo_one_ok: "db_wf (demo_one v u)" "rows_ok demo_lib (demo_one v u)"
proof -
  show "db_wf (demo_one v u)"
    using demo_arb_tables(1) unfolding db_wf_def schema_ok_def by (simp add: demo_one_def demo_arb_tables recs_wf_def fits_int4_def)
  show "rows_ok demo_lib (demo_one v u)"
    by (simp add: rows_ok_def demo_one_def demo_arb_tables HasSuffix_def loadRow_def fqdn_def demo_lib_A demo_lib_NewRR Let_def)
qed

lemma demo_put:
  "\<exists>bd rec. serveAPI demo_lib (node demo_lib demo_pg sorted_range) \<lparr>ot_db = id, ot_store = oth\<rparr> (PUT_record ''b'' ''1'' (Inr (demo_req\<lparr>rq_Value := v\<rparr>)))
     (demo_one v0 u, s) = ((200, bd), demo_one v 8, snd (PutRecord (oth s) ''b.'' rec))"
proof -
  let ?row = "\<lparr>rr_id = 1, rr_zone = 1, rr_name = ''w.b.'', rr_type = ''A'', rr_ttl = 60, rr_value = v0, rr_weight = 1, rr_updated = u, rr_deleted = None\<rparr>"
  have n: "FQDN ''b'' = ''b.''" "FQDN ''w.b'' = ''w.b.''" by (simp_all add: FQDN_def HasSuffix_def)
  have p: "ParseInt ''1'' = Inr 1" by (simp add: ParseInt_def ParseUint_def digit_of_def)
  have z: "GetZone Done (demo_one v0 u) ''b.'' = Inr \<lparr>zm_ID = 1, zm_Name = ''b.''\<rparr>"
    by (simp add: GetZone_def select_zone_def active_zone_def demo_one_def demo_arb_tables)
  have up: "update_record 8 1 1 ''w.b.'' ''A'' 60 v 1 (demo_one v0 u) = (Inr ((set_fields ''w.b.'' ''A'' 60 v 1 ?row)\<lparr>rr_updated := 8\<rparr>),
     (demo_one v0 u)\<lparr>db_records := map (\<lambda>x. if rr_id x = 1 then (set_fields ''w.b.'' ''A'' 60 v 1 ?row)\<lparr>rr_updated := 8\<rparr> else x) (db_records (demo_one v0 u))\<rparr>)"
    by (rule update_record_done [OF demo_one_ok(1)]) (simp_all add: demo_one_def fits_int4_def)
  have db: "(demo_one v0 u)\<lparr>db_records := map (\<lambda>x. if rr_id x = 1 then (set_fields ''w.b.'' ''A'' 60 v 1 ?row)\<lparr>rr_updated := 8\<rparr> else x) (db_records (demo_one v0 u))\<rparr> = demo_one v 8"
    by (simp add: demo_one_def set_fields_def)
  define req where "req = demo_req\<lparr>rq_Value := v\<rparr>"
  from db have "\<exists>rec. UpdateRecord demo_lib Done 8 (demo_one v0 u) 1 1 (reqRecord 1 req 1 rr) = (Inr rec, demo_one v 8)" for rr
    using up by (simp add: UpdateRecord_def req_def demo_req_def n typeName_def demo_lib_A scan_record_def parseRR_def demo_lib_NewRR set_fields_def Let_def)
  then obtain rec where c: "UpdateRecord demo_lib Done 8 (demo_one v0 u) 1 1 (reqRecord 1 req 1
      (Some (RR_other \<lparr>h_Name = reqText req, h_Rrtype = 1, h_Class = 1, h_Ttl = 0\<rparr> (reqText req)))) = (Inr rec, demo_one v 8)"
    by blast
  have t: "StringToType demo_lib (rq_Type req) = Some 1" by (simp add: req_def demo_req_def demo_lib_A)
  show ?thesis unfolding req_def [symmetric] by (auto simp: handler_defs n(1) p z t demo_lib_NewRR c)
qed

theorem overlapping_updates_diverge_witness:
  "\<exists>sB' sB sA s''.
     (\<exists>bd. serveAPI demo_lib (node demo_lib demo_pg sorted_range) \<lparr>ot_db = id, ot_store = id\<rparr> (PUT_record ''b'' ''1'' (Inr (demo_req\<lparr>rq_Value := ''5.6.7.8''\<rparr>)))
        (demo_one ''1.1.1.1'' 8, New) = ((200, bd), demo_one ''5.6.7.8'' 8, sB')) \<and>
     IncrementalLoad demo_lib (RWMutexStore_iface sorted_range) demo_env (demo_one ''5.6.7.8'' 8) (demo_one ''5.6.7.8'' 8) 9 sB' = (None, sB) \<and>
     (\<exists>bd. serveAPI demo_lib (node demo_lib demo_pg sorted_range) \<lparr>ot_db = id, ot_store = (\<lambda>_. sB)\<rparr> (PUT_record ''b'' ''1'' (Inr (demo_req\<lparr>rq_Value := ''1.1.1.1''\<rparr>)))
        (demo_one ''1.2.3.4'' 6, New) = ((200, bd), demo_one ''1.1.1.1'' 8, sA)) \<and>
     IncrementalLoad demo_lib (RWMutexStore_iface sorted_range) demo_env (demo_one ''5.6.7.8'' 8) (demo_one ''5.6.7.8'' 8) 9 sA = (None, sA) \<and>
     LoadAll demo_lib (RWMutexStore_iface sorted_range) Done None (\<lambda>_ _. True) (\<lambda>x. x) (\<lambda>m. sorted_list_of_set (fmdom' m)) (demo_one ''5.6.7.8'' 8) New = (None, s'') \<and>
     contents sA (FQDN ''b'') \<noteq> contents s'' (FQDN ''b'')"
proof -
  let ?A = "demo_req\<lparr>rq_Value := ''1.1.1.1''\<rparr>" and ?B = "demo_req\<lparr>rq_Value := ''5.6.7.8''\<rparr>" and ?db = "demo_one ''5.6.7.8'' 8"
  have e: "sync_done demo_env" by (simp add: sync_done_def demo_env_def permutes_def)
  have st: "\<forall>z \<in> set (db_zones ?db). zr_updated z \<le> 9" "\<forall>r \<in> set (db_records ?db). rr_updated r \<le> 9"
    by (simp_all add: demo_one_def demo_arb_tables)
  have n: "FQDN ''w.b'' = ''w.b.''" by (simp add: FQDN_def HasSuffix_def)
  have b: "benign (demo_one v u) (PUT_record ''b'' ''1'' (Inr (demo_req\<lparr>rq_Value := w\<rparr>)))" for v u w
    by (simp add: demo_req_def demo_one_def n)
  have p: "permutes (\<lambda>x :: (zone_row \<times> rec_row) list. x)" by (simp add: permutes_def)
  have zo: "range_order (sorted_list_of_set (fmdom' m)) m" for m :: "(string, Zone) fmap" by (simp add: range_order_def)
  obtain bdB recB where B: "serveAPI demo_lib (node demo_lib demo_pg sorted_range) \<lparr>ot_db = id, ot_store = id\<rparr> (PUT_record ''b'' ''1'' (Inr ?B))
      (demo_one ''1.1.1.1'' 8, New) = ((200, bdB), ?db, snd (PutRecord (id New) ''b.'' recB))" using demo_put by blast
  let ?sB = "snd (PutRecord (id New) ''b.'' recB)"
  obtain bdA recA where A: "serveAPI demo_lib (node demo_lib demo_pg sorted_range) \<lparr>ot_db = id, ot_store = (\<lambda>_. ?sB)\<rparr> (PUT_record ''b'' ''1'' (Inr ?A))
      (demo_one ''1.2.3.4'' 6, New) = ((200, bdA), demo_one ''1.1.1.1'' 8, snd (PutRecord ?sB ''b.'' recA))"
    using demo_put [where oth = "\<lambda>_. ?sB"] by blast
  have v: "rq_Value ?A \<noteq> rq_Value ?B" by simp
  have "IncrementalLoad demo_lib (RWMutexStore_iface sorted_range) demo_env ?db ?db 9 ?sB = (None, ?sB)"
    by (rule IncrementalLoad_idle [OF demo_one_ok(1) e st])
  with overlapping_updates_diverge [OF demo_one_ok demo_lib_ok v b b A B st e p zo, where le = "\<lambda>_ _. True"] A B show ?thesis by blast
qed

section \<open>Renamed records\<close>

text \<open>A record stays in the store through every write that is not about its identifier, or that files the
  identifier under another name or type.\<close>

lemma putSlice_keeps: "x \<in> set rs \<Longrightarrow> r_ID x \<noteq> r_ID rec \<Longrightarrow> x \<in> set (putSlice rec rs)"
proof -
  have "replaceByID rec rs = Some rs' \<Longrightarrow> x \<in> set rs \<Longrightarrow> r_ID x \<noteq> r_ID rec \<Longrightarrow> x \<in> set rs'" for rs'
    by (induction rs arbitrary: rs') (auto split: if_splits)
  then show "x \<in> set rs \<Longrightarrow> r_ID x \<noteq> r_ID rec \<Longrightarrow> x \<in> set (putSlice rec rs)"
    by (auto simp: putSlice_def split: option.split)
qed

lemma PutRecord_keeps:
  assumes "(k, x) \<in> contents s a" and "a = apex \<Longrightarrow> r_ID x = r_ID rec \<Longrightarrow> k \<noteq> key_of rec"
  shows "(k, x) \<in> contents (snd (PutRecord s apex rec)) a"
  using assms putSlice_keeps [of x _ rec] by (auto simp: contents_def PutRecord_rrset)

lemma remove_idx_keeps: "x \<in> set xs \<Longrightarrow> x \<noteq> xs ! i \<Longrightarrow> x \<in> set (take i xs @ drop (i + 1) xs)"
proof (cases "i < length xs")
  case True
  then show "x \<in> set xs \<Longrightarrow> x \<noteq> xs ! i \<Longrightarrow> x \<in> set (take i xs @ drop (i + 1) xs)"
    using id_take_nth_drop [OF True] by (metis (no_types, lifting) Un_iff Suc_eq_plus1 set_ConsD set_append)
qed simp

lemma DropRecord_keeps:
  assumes "(k, x) \<in> contents s a" and "a = apex \<Longrightarrow> r_ID x \<noteq> rid"
  shows "(k, x) \<in> contents (snd (DropRecord ord s apex rid)) a"
proof (cases "a = apex")
  case False
  then show ?thesis using assms(1) rw.drop_other [of a apex ord s rid] by (simp add: contents_def Snapshot_def records_of_def)
next
  case True
  then have x: "x \<in> set (rrset (records_of (zones s) apex) k)" "r_ID x \<noteq> rid" using assms by (simp_all add: contents_def)
  then obtain old where old: "fmlookup (zones s) apex = Some old" by (cases "fmlookup (zones s) apex") (auto simp: records_of_def rrset_def)
  show ?thesis
  proof (cases "findRecord (z_Records old) rid (ord rid (z_Records old))")
    case None
    then show ?thesis using assms(1) old by (simp add: DropRecord_def)
  next
    case (Some p)
    obtain k' i where p: "p = (k', i)" by fastforce
    have i: "i < length (rrset (z_Records old) k')" "r_ID (rrset (z_Records old) k' ! i) = rid"
      using findRecord_Some [OF Some [unfolded p]] by simp_all
    have "x \<in> set (rrset (removeAt (z_Records old) k' i) k)"
      using x old remove_idx_keeps [of x "rrset (z_Records old) k" i] i by (auto simp: rrset_removeAt records_of_def)
    then show ?thesis using Some p old True by (simp add: DropRecord_def contents_def records_of_def)
  qed
qed

text \<open>So it stays through the rows of a load that finds its identifier under another name or type.\<close>

definition moved_to :: "mdns_lib \<Rightarrow> DB \<Rightarrow> string \<Rightarrow> RecordKey \<Rightarrow> Record \<Rightarrow> bool" where
  "moved_to L db a k x \<longleftrightarrow> (\<exists>z \<in> set (db_zones db). \<exists>r \<in> set (db_records db). rr_zone r = zr_id z \<and> fqdn (zr_name z) = a \<and>
     zr_deleted z = None \<and> rr_deleted r = None \<and> rr_id r = r_ID x \<and> row_key L r \<noteq> k)"

lemma applyRecordRow_keeps:
  assumes "(k, x) \<in> contents s a" and "moved_to L db a k x" and "db_wf db" and "zr \<in> set (join_rows db)"
  shows "(k, x) \<in> contents (applyRecordRow L (RWMutexStore_iface ord) zr s) a"
proof (cases "r_ID x = rr_id (snd zr)")
  case False
  then show ?thesis
    using assms(1) PutRecord_keeps [of k x s a "fqdn (zr_name (fst zr))"] DropRecord_keeps [of k x s a "fqdn (zr_name (fst zr))" "rr_id (snd zr)" ord]
    by (auto simp: applyRecordRow_def Let_def dest: syncRow_id split: option.split)
next
  case True
  obtain r where r: "r \<in> set (db_records db)" "rr_deleted r = None" "rr_id r = r_ID x" "row_key L r \<noteq> k"
    using assms(2) by (auto simp: moved_to_def)
  have zr: "snd zr \<in> set (db_records db)" using assms(4) join_rows_mem [of "fst zr" "snd zr" db] by simp
  then have e: "snd zr = r" using row_id [OF assms(3) zr r(1)] r(3) True by simp
  have "key_of rec \<noteq> k" if "syncRow L r = Some rec" for rec
    using that r(4) loadRow_syncRow [OF row_ok(3,4) [OF assms(3) r(1)]] loadRow_fields(2) by metis
  then show ?thesis
    using assms(1) r(2) PutRecord_keeps [of k x s a "fqdn (zr_name (fst zr))"] by (auto simp: applyRecordRow_def Let_def e split: option.split)
qed

lemma applyZoneRow_keeps:
  assumes "(k, x) \<in> contents s a" and "moved_to L db a k x" and "db_wf db" and "rows_ok L db" and "z \<in> set (db_zones db)"
  shows "(k, x) \<in> contents (applyZoneRow (RWMutexStore_iface ord) z s) a"
proof -
  obtain z' where "z' \<in> set (db_zones db)" "fqdn (zr_name z') = a" "zr_deleted z' = None" using assms(2) by (auto simp: moved_to_def)
  then have "zr_deleted z = None \<or> fqdn (zr_name z) \<noteq> a" using zone_name [OF assms(3,4) _ assms(5)] by metis
  then show ?thesis using assms(1) by (auto simp: applyZoneRow_def contents_delete)
qed

lemma fold_keeps: "(\<And>y s. y \<in> set ys \<Longrightarrow> P s \<Longrightarrow> P (f y s)) \<Longrightarrow> P s \<Longrightarrow> P (fold f ys s)"
  by (induction ys arbitrary: s) simp_all

lemma IncrementalLoad_keeps:
  assumes "(k, x) \<in> contents s a" and "moved_to L db a k x" and "db_wf db" and "rows_ok L db"
    and "permutes (se_zscan E)" and "permutes (se_rscan E)"
  shows "(k, x) \<in> contents (snd (IncrementalLoad L (RWMutexStore_iface ord) E db db t s)) a"
proof -
  let ?zs = "queryIncrementalZones (se_zscan E) t db" and ?rs = "queryIncrementalRecords (se_rscan E) t db"
  let ?P = "\<lambda>s. (k, x) \<in> contents s a"
  have perm: "permutes scan \<Longrightarrow> set (scan xs) = set xs" for scan and xs :: "'b list" unfolding permutes_def by (metis set_mset_mset)
  have mem: "set ?zs \<subseteq> set (db_zones db)" "set ?rs \<subseteq> set (join_rows db)"
    using perm [OF assms(5)] perm [OF assms(6)] by (auto simp: queryIncrementalZones_def queryIncrementalRecords_def)
  have Z: "?P (fold (applyZoneRow (RWMutexStore_iface ord)) zs s)" if "set zs \<subseteq> set (db_zones db)" for zs
    by (rule fold_keeps [where P = ?P, OF _ assms(1)]) (use that applyZoneRow_keeps [OF _ assms(2-4)] in blast)
  have R: "?P (fold (applyRecordRow L (RWMutexStore_iface ord)) rs s')" if "set rs \<subseteq> set (join_rows db)" "?P s'" for rs s'
    by (rule fold_keeps [where P = ?P, OF _ that(2)]) (use that(1) applyRecordRow_keeps [OF _ assms(2,3)] in blast)
  obtain e s' where l: "IncrementalLoad L (RWMutexStore_iface ord) E db db t s = (e, s')" by fastforce
  from l have "?P s'"
  proof (cases rule: IncrementalLoad_prefix)
    case (1 n)
    have "set (take n ?zs) \<subseteq> set (db_zones db)" using mem(1) set_take_subset [of n ?zs] by (rule order_trans [rotated])
    then show ?thesis unfolding 1 by (rule Z)
  next
    case (2 n)
    have "set (take n ?rs) \<subseteq> set (join_rows db)" using mem(2) set_take_subset [of n ?rs] by (rule order_trans [rotated])
    then show ?thesis unfolding 2 by (rule R) (rule Z [OF mem(1)])
  qed
  then show ?thesis unfolding l by simp
qed

text \<open>
  C28: a record that is renamed, or changes its type, is left behind for good. After a successful PUT that
  gives the record with the identifier in the URL another name or type, the instance still has the former
  version \<open>x\<close> in its old rrset \<open>k\<close>, and it keeps it through any number of incremental loads, from whatever
  times they start, with whatever rows they read before they break. A restart would not have it: the database
  no longer says that it exists.
\<close>

theorem renamed_record_stays:
  assumes "db_wf db" and "rows_ok L db" and "mdns_ok L" and "rq_Type req \<noteq> []"
    and "serveAPI L (node L E ord) \<lparr>ot_db = id, ot_store = oth\<rparr> (PUT_record domain i (Inr req)) (db, s) = ((200, bd), db', s')"
    and "(k, x) \<in> contents (oth s) (FQDN domain)" and "ParseInt i = Inr (r_ID x)"
    and "k \<noteq> rkey (FQDN (rq_Name req)) (typeOf L (rq_Type req))"
    and "\<forall>(E', t) \<in> set loads. permutes (se_zscan E') \<and> permutes (se_rscan E')"
    and "permutes scan" and "\<And>m. range_order (zord m) m"
  shows "(k, x) \<in> contents (fold (\<lambda>(E', t) s. snd (IncrementalLoad L (RWMutexStore_iface ord) E' db' db' t s)) loads s') (FQDN domain) \<and>
    (\<exists>s''. LoadAll L (RWMutexStore_iface ord) Done None le scan zord db' New = (None, s'') \<and> (k, x) \<notin> contents s'' (FQDN domain))"
proof -
  obtain rec z r where u: "r_ID rec = r_ID x" "key_of rec = rkey (FQDN (rq_Name req)) (typeOf L (rq_Type req))"
    "s' = snd (PutRecord (oth s) (FQDN domain) rec)" "db_wf db'" "rows_ok L db'" "z \<in> set (db_zones db')" "zr_deleted z = None"
    "fqdn (zr_name z) = FQDN domain" "r \<in> set (db_records db')" "rr_zone r = zr_id z" "rr_id r = r_ID x" "rr_deleted r = None" "loadRow L r = Some rec"
    by (rule update_done [OF assms(5,1-4)]) (use assms(7) in auto)
  have m: "moved_to L db' (FQDN domain) k x"
    using u assms(8) loadRow_fields(2) [OF u(13)] unfolding moved_to_def by (intro bexI [OF _ u(6)] bexI [OF _ u(9)]) simp
  have "(k, x) \<in> contents s' (FQDN domain)"
    unfolding u(3) by (rule PutRecord_keeps [OF assms(6)]) (use u(2) assms(8) in simp)
  then have "(k, x) \<in> contents (fold (\<lambda>(E', t) s. snd (IncrementalLoad L (RWMutexStore_iface ord) E' db' db' t s)) loads s') (FQDN domain)"
    by (rule fold_keeps [where P = "\<lambda>s. (k, x) \<in> contents s (FQDN domain)", rotated])
      (use assms(9) in \<open>auto intro: IncrementalLoad_keeps [OF _ m u(4,5)]\<close>)
  moreover have "(k, x) \<notin> db_contents L db' (FQDN domain)"
    using db_contents_id [OF u(4-6,9,10), of x k] u(2,11,13) assms(8) by auto
  moreover obtain s'' where "LoadAll L (RWMutexStore_iface ord) Done None le scan zord db' New = (None, s'')"
    "\<forall>a. contents s'' a = db_contents L db' a" using loaded_contents [OF u(4) assms(10,11)] by blast
  ultimately show ?thesis by auto
qed

lemma demo_rename:
  "\<exists>bd db' rec. serveAPI demo_lib (node demo_lib demo_pg sorted_range) \<lparr>ot_db = id, ot_store = id\<rparr>
     (PUT_record ''b'' ''1'' (Inr (demo_req\<lparr>rq_Name := ''v.b''\<rparr>))) (demo_one v u, s) = ((200, bd), db', snd (PutRecord s ''b.'' rec))"
proof -
  let ?row = "\<lparr>rr_id = 1, rr_zone = 1, rr_name = ''w.b.'', rr_type = ''A'', rr_ttl = 60, rr_value = v, rr_weight = 1, rr_updated = u, rr_deleted = None\<rparr>"
  define req where "req = demo_req\<lparr>rq_Name := ''v.b''\<rparr>"
  have n: "FQDN ''b'' = ''b.''" "FQDN ''v.b'' = ''v.b.''" by (simp_all add: FQDN_def HasSuffix_def)
  have p: "ParseInt ''1'' = Inr 1" by (simp add: ParseInt_def ParseUint_def digit_of_def)
  have z: "GetZone Done (demo_one v u) ''b.'' = Inr \<lparr>zm_ID = 1, zm_Name = ''b.''\<rparr>"
    by (simp add: GetZone_def select_zone_def active_zone_def demo_one_def demo_arb_tables)
  have up: "\<exists>db'. update_record 8 1 1 ''v.b.'' ''A'' 60 (rq_Value req) 1 (demo_one v u) =
     (Inr ((set_fields ''v.b.'' ''A'' 60 (rq_Value req) 1 ?row)\<lparr>rr_updated := 8\<rparr>), db')"
    by (rule exI, rule update_record_done [OF demo_one_ok(1)]) (simp_all add: demo_one_def fits_int4_def)
  then have "\<exists>rec db'. UpdateRecord demo_lib Done 8 (demo_one v u) 1 1 (reqRecord 1 req 1 rr) = (Inr rec, db')" for rr
    by (auto simp: UpdateRecord_def req_def demo_req_def n typeName_def demo_lib_A scan_record_def parseRR_def demo_lib_NewRR set_fields_def Let_def)
  then obtain rec db' where c: "UpdateRecord demo_lib Done 8 (demo_one v u) 1 1 (reqRecord 1 req 1
      (Some (RR_other \<lparr>h_Name = reqText req, h_Rrtype = 1, h_Class = 1, h_Ttl = 0\<rparr> (reqText req)))) = (Inr rec, db')"
    by blast
  have t: "StringToType demo_lib (rq_Type req) = Some 1" by (simp add: req_def demo_req_def demo_lib_A)
  show ?thesis unfolding req_def [symmetric] by (auto simp: handler_defs n(1) p z t demo_lib_NewRR c)
qed

theorem renamed_record_stays_witness:
  "\<exists>s0 bd db' s' s1 s'' x.
     LoadAll demo_lib (RWMutexStore_iface sorted_range) Done None (\<lambda>_ _. True) (\<lambda>x. x) (\<lambda>m. sorted_list_of_set (fmdom' m)) (demo_one ''1.2.3.4'' 6) New = (None, s0) \<and>
     serveAPI demo_lib (node demo_lib demo_pg sorted_range) \<lparr>ot_db = id, ot_store = id\<rparr>
       (PUT_record ''b'' ''1'' (Inr (demo_req\<lparr>rq_Name := ''v.b''\<rparr>))) (demo_one ''1.2.3.4'' 6, s0) = ((200, bd), db', s') \<and>
     s1 = snd (IncrementalLoad demo_lib (RWMutexStore_iface sorted_range) demo_env db' db' 0 s') \<and>
     LoadAll demo_lib (RWMutexStore_iface sorted_range) Done None (\<lambda>_ _. True) (\<lambda>x. x) (\<lambda>m. sorted_list_of_set (fmdom' m)) db' New = (None, s'') \<and>
     (rkey ''w.b.'' 1, x) \<in> contents s1 ''b.'' \<and> (rkey ''w.b.'' 1, x) \<notin> contents s'' ''b.''"
proof -
  let ?db = "demo_one ''1.2.3.4'' 6" and ?req = "demo_req\<lparr>rq_Name := ''v.b''\<rparr>"
  have n: "FQDN ''b'' = ''b.''" "FQDN ''v.b'' = ''v.b.''" by (simp_all add: FQDN_def HasSuffix_def)
  have p: "permutes (\<lambda>x :: (zone_row \<times> rec_row) list. x)" by (simp add: permutes_def)
  have zo: "range_order (sorted_list_of_set (fmdom' m)) m" for m :: "(string, Zone) fmap" by (simp add: range_order_def)
  obtain s0 where s0: "LoadAll demo_lib (RWMutexStore_iface sorted_range) Done None (\<lambda>_ _. True) (\<lambda>x. x) (\<lambda>m. sorted_list_of_set (fmdom' m)) ?db New = (None, s0)"
    "\<forall>a. contents s0 a = db_contents demo_lib ?db a" using loaded_contents [OF demo_one_ok(1) p zo] by blast
  have "\<exists>x. (rkey ''w.b.'' 1, x) \<in> db_contents demo_lib ?db ''b.'' \<and> r_ID x = 1"
    by (auto simp: db_contents_mem demo_one_def demo_arb_tables fqdn_def HasSuffix_def loadRow_def demo_lib_A demo_lib_NewRR Let_def)
  then obtain x where x: "(rkey ''w.b.'' 1, x) \<in> contents (id s0) (FQDN ''b'')" "ParseInt ''1'' = Inr (r_ID x)"
    unfolding id_apply s0(2) [rule_format] n by (auto simp: ParseInt_def ParseUint_def digit_of_def)
  obtain bd db' s' where put: "serveAPI demo_lib (node demo_lib demo_pg sorted_range) \<lparr>ot_db = id, ot_store = id\<rparr>
       (PUT_record ''b'' ''1'' (Inr ?req)) (?db, s0) = ((200, bd), db', s')" using demo_rename by blast
  have k: "rq_Type ?req \<noteq> []" "rkey ''w.b.'' 1 \<noteq> rkey (FQDN (rq_Name ?req)) (typeOf demo_lib (rq_Type ?req))" by (simp_all add: demo_req_def n)
  have l: "\<forall>(E', t) \<in> set [(demo_env, 0)]. permutes (se_zscan E') \<and> permutes (se_rscan E')" by (simp add: demo_env_def permutes_def)
  show ?thesis
    using renamed_record_stays [OF demo_one_ok demo_lib_ok k(1) put x k(2) l p zo, where le = "\<lambda>_ _. True"] s0(1) put unfolding n by auto
qed

end
