(* ===== verification/Spec2Isabelle.thy ===== *)
theory Spec2Isabelle
  imports Prelude Mdns Iface Zone_Store Store_Heap DNS_Handler Strconv Config Weight_Providers
    PG_Store PG_Load Loading Syncer Metrics Record_Store API_Server Consistency Replica Duration Config_Parser
    Boot Test_Support Races
begin

text \<open>
  A verification development for \<^verbatim>\<open>dns-edge\<close>, an authoritative DNS server in Go (all paths below are under
  \<^verbatim>\<open>src/\<close>). The server answers queries from an in-memory zone store. The store is filled from PostgreSQL
  when the process starts, is kept up to date by an incremental load that a timer and, with a small
  probability, every query start, and is written directly by an HTTP API, which writes PostgreSQL first. Several
  instances share one database. Among several address records of a name one is chosen at random by
  weight, and the weights may come from a Nacos server.

  \<^bold>\<open>Theories and code.\<close> Each theory follows the order of its file; definitions have the names of the Go
  functions, methods of different types with the same name are told apart by a prefix or suffix.

  \<^item> \<open>Prelude\<close>: outcomes of code that can panic, 64-bit wrap-around, Go's string helpers, orders of map ranges.
  \<^item> \<open>Mdns\<close>: the values of the DNS library that the code touches, and the library's functions as the record
    \<open>mdns_lib\<close> with the hypothesis \<open>mdns_ok\<close> (what the documentation promises of them).
  \<^item> \<open>Iface\<close>: \<^verbatim>\<open>internal/iface\<close>, with the contract of a zone store as the locale \<open>zone_store\<close>.
  \<^item> \<open>Zone_Store\<close>: \<^verbatim>\<open>internal/store/rwmutex.go\<close> on values; every method holds the lock for its whole body, so
    each is one function. \<open>Store_Heap\<close>: the same writes on a heap of objects, where aliasing and copying show.
  \<^item> \<open>DNS_Handler\<close>: \<^verbatim>\<open>internal/dns/handler.go\<close>: the weighted choice, replies, zone transfer.
  \<^item> \<open>Weight_Providers\<close>: \<^verbatim>\<open>internal/weight\<close>: the four providers; goroutines of the Nacos provider are pending
    steps of \<open>nacos_step\<close>.
  \<^item> \<open>PG_Store\<close>, \<open>Record_Store\<close>: \<^verbatim>\<open>internal/pg\<close> without the loads: the tables as lists of rows, each SQL
    statement as a function on them, each method as the Go code around its statements, and the interface
    \<open>RecordStore\<close> they implement, a locale interpreted on them.
  \<^item> \<open>PG_Load\<close>: \<^verbatim>\<open>internal/pg/load.go\<close> and \<^verbatim>\<open>sync.go\<close>; \<open>Loading\<close>: the incremental load again, as the steps of
    \<open>load_step\<close>, one for each row and query, and the proof that both are the same when nothing comes in between.
  \<^item> \<open>Syncer\<close>: \<^verbatim>\<open>internal/syncer\<close>: the token bucket and the loop as a sequence of events, with the contract of a
    loader as the locale \<open>incremental_loader\<close>. \<open>Metrics\<close>: \<^verbatim>\<open>internal/metrics\<close> and what is reported to it.
  \<^item> \<open>API_Server\<close>: \<^verbatim>\<open>internal/api\<close>: every handler, and \<open>serveAPI\<close> over the routes.
  \<^item> \<open>Strconv\<close>, \<open>Duration\<close>: what is used of the standard library for numbers and durations; \<open>Config\<close>,
    \<open>Config_Parser\<close>: \<^verbatim>\<open>config\<close>: lexer and recursive-descent parser with every error.
  \<^item> \<open>Boot\<close>: \<^verbatim>\<open>cmd/dns-edge/main.go\<close> and the constructors it calls; \<open>Test_Support\<close>: \<^verbatim>\<open>internal/testutil\<close>.
  \<^item> \<open>Consistency\<close>, \<open>Replica\<close>, \<open>Races\<close>: no code of their own. \<open>Consistency\<close> says with \<open>tracks\<close> what the zone store may
    lack of the database and what each request does to that; \<open>Replica\<close> has the states of one instance over any
    interleaving of requests and steps of loads; \<open>Races\<close> shows what overlapping requests and renamed records leave.

  \<^bold>\<open>What is shown.\<close> Of the handler: which response code a query gets, that a choice has exactly the share its
  weight gives it and exactly when its total overflows into a panic, that every reply is well formed, and that a
  transfer sends every record once, in bounded messages, and stops at the first failed write. Of the
  store: the closest enclosing zone is found, well-formedness is kept, what each write changes and leaves
  alone, that the pointer-level writes refine the value-level ones, and that a zone once handed out never
  changes. Of the providers: which weights they answer with and that no listener is registered twice. Of
  the database layer: an invariant of the two tables over all methods and all fates of their statements, and
  the effect of the methods. Of the loads: what they make of the zone store, at once or in steps. Of the syncer:
  the rate and the bursts of the rate limiter, and windows without gaps. Of the metrics: no report panics. Of the API: written records are served, failed
  requests leave the store alone. Of the parser: it accepts exactly a grammar given without reference to it,
  and every configuration can be written and read back. Across the components: \<open>sync_converges\<close> in
  \<open>Replica\<close>, and \<open>instance_converges\<close> below, which runs from the configuration file to the zone store after
  any history. Several theorems show behaviour that the code does not seem to intend: the overflow of
  \<open>pick\<close>, the constraint that record creation names and the schema lacks, the name of a deleted zone that
  stays taken, the record that stays behind when it is renamed, the domain that is emptied by creating it again,
  and the stale record that overlapping updates can leave.

  \<^bold>\<open>The environment.\<close> Everything outside the program is an argument. Random numbers, clocks, results of
  writes, rounding of floating-point operations (\<open>fl\<close>, with \<open>ieee_ok\<close> where a theorem needs it) and the
  orders in which maps are ranged over and rows are scanned are functions or lists the theorems quantify over.
  A statement has a \<open>fate\<close>: done, failed, or done with its result lost; a query may break off after any row.
  Between two calls of a request handler other goroutines may change the store and the database (\<open>others\<close>);
  between two store calls of a query the store may change (\<open>obs\<close>).

  \<^bold>\<open>Bounds.\<close> No definition has fuel: every loop of the code is structural recursion or has a termination
  proof (the label walk by the length of the name, the parsers by the tokens left, the number routines by
  the number). Machine integers are words, or integers with \<open>wrap64\<close> where the sum can leave the range; the
  bucket is exact for capacities up to \<open>2 ^ 53\<close> and pauses up to \<open>2 ^ 62\<close> nanoseconds.

  \<^bold>\<open>Hypotheses of the convergence theorems.\<close> Requests are atomic with respect to each other and to the single steps
  of a load, but may come between any two of them, and each query of a load sees the database of its moment. A
  statement's time stamp is later than the start of the load under way, or else of the last successful one
  (times compare as microseconds, which the database keeps): the clocks of the instances and of the database agree to
  that extent, and no statement is stamped before a load begins and seen only after its query. The last load,
  whose result is compared with a restart, is undisturbed. Names in the database end in a dot and every row is accepted by
  the DNS library, as every write of the API ensures. Requests that create a domain that exists, or that
  give a record another name or type, are excluded, since the code does not handle them (see above). A handler whose
  database call fails does not touch the store, so nothing of other goroutines is placed between its calls there.
  Probabilities are rational numbers: a setting that \<^verbatim>\<open>ParseFloat\<close> reads as infinite or not a number has no
  counterpart.

  \<^bold>\<open>Not modelled.\<close> The DNS and HTTP servers behind the listeners (sockets, TLS, routing and JSON binding belong
  to the libraries) and their goroutines; the connection pool; the Prometheus
  collectors themselves; logging; the migration files, which repeat the schema; the test files.
\<close>

section \<open>The whole instance\<close>

text \<open>
  C16: an instance converges. Take a process that came up with a database, from its configuration file on,
  and let anything happen to it: requests to it or to other instances, also between the steps of a load, ticks
  and triggers of its syncer, loads that get through or fail anywhere, in any order. When no load is under way, a
  tick at least two seconds after the rate limiter was last asked is let through; when its statements get
  through undisturbed it counts as a success, moves the start of the next window to the time its queries began,
  and leaves in the zone store, zone by zone, the records a process started on the present database would load.
\<close>

theorem instance_converges:
  assumes "main L ord W path mig db0 = (Inr p, db1)" and "pr_syncer p = Some y0" and "db_wf db1" and "rows_ok L db1"
    and "permutes (w_scan W)" and "\<And>m. range_order (w_zord W m) m" and "ieee_ok (w_fl W)" and "mdns_ok L" and "range_ok ord"
    and "sc_RateLimit (cf_Sync (pr_cfg p)) \<le> 2 ^ 53"
    and "(instance_step L ord (w_fl W))\<^sup>*\<^sup>* (db1, y0, pr_store p, Idle) (db, y, s, Idle)"
    and "sync_done E" and "tb_last (ps_bucket y) + 2 * Second \<le> now" and "now \<le> tb_last (ps_bucket y) + 2 ^ 62" and "ps_lastAt y \<le> queryStart"
  shows "\<exists>y' s' s''. sync_event_step (w_fl W) (Tick now queryStart (pgLoader L ord E db)) (y, s) = Some (y', s') \<and>
    (instance_step L ord (w_fl W))\<^sup>*\<^sup>* (db, y, s, Idle) (db, y', s', Idle) \<and>
    ps_success y' = ps_success y + 1 \<and> ps_lastAt y' = queryStart \<and>
    LoadAll L (RWMutexStore_iface ord) Done None (w_le W) (w_scan W) (w_zord W) db New = (None, s'') \<and>
    (\<forall>a. contents s' a = contents s'' a)"
proof -
  let ?c = "max 1 (sc_RateLimit (cf_Sync (pr_cfg p)))"
  have c: "1 \<le> ?c" "?c \<le> 2 ^ 53" using assms(10) by simp_all
  have ok: "instance_ok L ord (w_fl W) ?c (db, y, s, Idle)"
    by (rule instance_ok_run [OF assms(11) instance_ok_start [OF assms(1-6,7,10)] assms(7)])
  from instance_tick [OF ok c assms(7-9,12-14)] obtain y' s' where
    t: "doSync (w_fl W) now queryStart (pgLoader L ord E db) (y, s) = (y', s')" "ps_success y' = ps_success y + 1"
    "ps_lastAt y' = queryStart" "\<forall>a. contents s' a = db_contents L db a" "db_wf db" by blast
  obtain s'' where s'': "LoadAll L (RWMutexStore_iface ord) Done None (w_le W) (w_scan W) (w_zord W) db New = (None, s'')"
    "\<forall>a. contents s'' a = db_contents L db a"
    using loaded_contents [OF t(5) assms(5,6)] by blast
  have "clock_step y now" using assms(13,14) by (simp add: clock_step_def Second_def)
  then have "(instance_step L ord (w_fl W))\<^sup>*\<^sup>* (db, y, s, Idle) (db, y', s', Idle)"
    using round_steps [of False y y, OF _ _ assms(15) t(5) _ _ t(1)] assms(12) by (simp add: received_def sync_done_def)
  then show ?thesis using t(1-4) s'' by simp
qed

theorem instance_converges_witness:
  "\<exists>p db y0 y s' y'. main demo_lib sorted_range (demo_world (render demo_items)) ''Corefile'' False demo_arb = (Inr p, demo_arb) \<and>
     pr_syncer p = Some y0 \<and> (instance_step demo_lib sorted_range (\<lambda>x. x))\<^sup>*\<^sup>* (demo_arb, y0, pr_store p, Idle) (db, y, pr_store p, Idle) \<and>
     ps_error y = 1 \<and> contents (pr_store p) ''b.'' = {} \<and>
     sync_event_step (\<lambda>x. x) (Tick (7000 + 2 * Second) 9000 (pgLoader demo_lib sorted_range demo_env db)) (y, pr_store p) = Some (y', s') \<and>
     ps_success y' = 1 \<and> (\<exists>x. (rkey ''w.b.'' 1, x) \<in> contents s' ''b.'')"
proof -
  let ?z = "\<lambda>m :: (string, Zone) fmap. sorted_list_of_set (fmdom' m)" and ?I = "RWMutexStore_iface sorted_range" and ?W = "demo_world (render demo_items)"
  have zo: "range_order (?z m) m" for m by (simp add: range_order_def)
  have pm: "permutes (\<lambda>x :: (zone_row \<times> rec_row) list. x)" by (simp add: permutes_def)
  have e: "sync_done demo_env" by (simp add: sync_done_def demo_env_def permutes_def)
  obtain s p where s: "LoadAll demo_lib ?I Done None (\<lambda>_ _. True) (\<lambda>x. x) ?z demo_arb New = (None, s)"
    and p: "main demo_lib sorted_range ?W ''Corefile'' False demo_arb = (Inr p, demo_arb)" "pr_store p = s"
    "pr_cfg p = demo_config" "pr_syncer p = Some (NewSyncer (\<lambda>x. x) 7000 6000 (cf_Sync demo_config))" by (rule demo_main)
  obtain db y x where h: "(instance_step demo_lib sorted_range (\<lambda>x. x))\<^sup>*\<^sup>*
      (demo_arb, NewSyncer (\<lambda>x. x) 7000 6000 (cf_Sync demo_config), s, Idle) (db, y, s, Idle)"
    "ps_error y = 1" "ps_success y = 0" "ps_lastAt y = 6000" "tb_last (ps_bucket y) = 7000" "db_wf db"
    "(rkey ''w.b.'' 1, x) \<in> db_contents demo_lib db ''b.''" by (rule demo_history)
  have empty: "contents s ''b.'' = {}"
    unfolding restart_contents [OF demo_arb_tables(1) pm zo s] by (auto simp: db_contents_mem demo_arb_tables)
  have W: "w_fl ?W = (\<lambda>x. x)" by simp
  have "\<exists>y' s' s''. sync_event_step (\<lambda>x. x) (Tick (7000 + 2 * Second) 9000 (pgLoader demo_lib sorted_range demo_env db)) (y, s) = Some (y', s') \<and>
      (instance_step demo_lib sorted_range (\<lambda>x. x))\<^sup>*\<^sup>* (db, y, s, Idle) (db, y', s', Idle) \<and>
      ps_success y' = ps_success y + 1 \<and> ps_lastAt y' = 9000 \<and>
      LoadAll demo_lib ?I Done None (w_le ?W) (w_scan ?W) (w_zord ?W) db New = (None, s'') \<and> (\<forall>a. contents s' a = contents s'' a)"
    by (rule instance_converges [OF p(1,4) demo_arb_tables(1) demo_arb_rows_ok, unfolded W])
      (use h in \<open>simp_all add: pm zo ieee_ok_exact demo_lib_ok range_ok_sorted p(2,3) e Second_def demo_config_def Defaults_def\<close>)
  then obtain y' s' s'' where t: "sync_event_step (\<lambda>x. x) (Tick (7000 + 2 * Second) 9000 (pgLoader demo_lib sorted_range demo_env db)) (y, s) = Some (y', s')"
    "ps_success y' = 1" "LoadAll demo_lib ?I Done None (w_le ?W) (\<lambda>x. x) ?z db New = (None, s'')" "\<forall>a. contents s' a = contents s'' a"
    using h(3) by auto
  then have "(rkey ''w.b.'' 1, x) \<in> contents s' ''b.''" using h(7) restart_contents [OF h(6) pm zo t(3)] t(4) by simp
  then show ?thesis using p(1,2,4) h(1,2) empty t(1,2) by blast
qed

end
